(* ===== verification/Prelude.thy ===== *)
theory Prelude
  imports Main "HOL-Library.Word" "HOL-Library.Monad_Syntax"
begin

text \<open>
  Shared vocabulary of the development: the machine types of the kernel, the
  \<^verbatim>\<open>ASSERT\<close>/\<^verbatim>\<open>Panic\<close> convention, the error numbers, the rounding macro and the
  generic facts about lists, words and bounded counters that the components use.

  Conventions.  A C function that may hit \<^verbatim>\<open>ASSERT\<close> or \<^verbatim>\<open>Panic\<close> (both stop the
  machine, \<^verbatim>\<open>src/sys/include/kassert.h\<close>) returns an \<open>option\<close>: \<open>None\<close> is the panic.
  Error codes are ordinary values of the result.  A section of code that runs under
  the spin lock of its component is one atomic definition; the lock itself is the
  subject of its own theory.  Calls to the log (\<^verbatim>\<open>kprintf\<close>, \<^verbatim>\<open>Log\<close>, \<^verbatim>\<open>DLOG\<close>,
  \<^verbatim>\<open>Alert\<close>) have no effect on the modelled state and are left out.
\<close>

unbundle bit_operations_syntax

type_synonym u8 = "8 word"
type_synonym u16 = "16 word"
type_synonym u32 = "32 word"
type_synonym u64 = "64 word"

named_theorems inv_defs "definitions of the component invariants"

section \<open>Assertions\<close>

definition kassert :: "bool \<Rightarrow> unit option" where
  "kassert b = (if b then Some () else None)"

lemma kassert_simps [simp]:
  "kassert True = Some ()"
  "kassert False = None"
  by (simp_all add: kassert_def)

lemma kassert_eq_Some [simp]: "kassert b = Some u \<longleftrightarrow> b"
  by (simp add: kassert_def)

lemma kassert_bind [simp]:
  "(kassert b \<bind> f = Some x) \<longleftrightarrow> (b \<and> f () = Some x)"
  by (simp add: kassert_def)

section \<open>Error numbers\<close>

definition EBADF :: int where "EBADF = 0x1BAD0002"
definition EINVAL :: int where "EINVAL = 0x1BAD0003"
definition EFAULT :: int where "EFAULT = 0x1BAD0004"
definition ENOMEM :: int where "ENOMEM = 0x1BAD0005"
definition ENOENT :: int where "ENOENT = 0x1BAD0006"
definition ENOTDIR :: int where "ENOTDIR = 0x1BAD0007"
definition ENAMETOOLONG :: int where "ENAMETOOLONG = 0x1BAD0008"
definition ENOSYS :: int where "ENOSYS = 0x1BAD0009"
definition EAGAIN :: int where "EAGAIN = 0x1BAD000A"
definition EBUSY :: int where "EBUSY = 0x1BAD000B"
definition EACCES :: int where "EACCES = 0x1BAD0011"
definition ENOSPC :: int where "ENOSPC = 0x1BAD0013"

lemmas errno_defs = EBADF_def EINVAL_def EFAULT_def ENOMEM_def ENOENT_def ENOTDIR_def ENAMETOOLONG_def ENOSYS_def
  EAGAIN_def EBUSY_def EACCES_def ENOSPC_def

text \<open>The conversion of a \<^verbatim>\<open>uint64_t\<close> to an \<^verbatim>\<open>int\<close> result keeps the low 32 bits.\<close>

definition int_of_u64 :: "u64 \<Rightarrow> int" where
  "int_of_u64 x = sint (ucast x :: u32)"

section \<open>Loops and C integers\<close>

text \<open>
  A \<^verbatim>\<open>for\<close> loop over a fixed range: the body runs once for each element, in order, and a
  panic in the body stops the loop.
\<close>

fun for_each :: "'i list \<Rightarrow> ('i \<Rightarrow> 's \<Rightarrow> 's option) \<Rightarrow> 's \<Rightarrow> 's option" where
  "for_each [] f s = Some s"
| "for_each (i # is) f s = f i s \<bind> for_each is f"

lemma for_each_append: "for_each (xs @ ys) f s = for_each xs f s \<bind> for_each ys f"
  by (induction xs arbitrary: s) (auto split: bind_splits)

lemma for_each_skip:
  "(\<And>i. i \<in> set xs \<Longrightarrow> f i s = Some s) \<Longrightarrow> for_each xs f s = Some s"
  by (induction xs) auto

lemma for_each_fails:
  "i \<in> set xs \<Longrightarrow> (\<And>s. f i s = None) \<Longrightarrow> for_each xs f s = None"
  by (induction xs arbitrary: s) (auto split: bind_splits)

lemma for_each_more:
  assumes "\<And>i s s'. f i s = Some s' \<Longrightarrow> g s' = g s" and "for_each xs f s = Some s'"
  shows "g s' = g s"
  using assms(2) by (induction xs arbitrary: s) (auto simp: bind_eq_Some_conv dest: assms(1))

lemma for_each_inv:
  assumes "for_each xs f s = Some s'" and "I s"
    and "\<And>i s s'. i \<in> set xs \<Longrightarrow> I s \<Longrightarrow> f i s = Some s' \<Longrightarrow> I s'"
  shows "I s'"
  using assms by (induction xs arbitrary: s) (auto simp: bind_eq_Some_conv)

lemma for_each_stuck:
  "x \<in> set xs \<Longrightarrow> I s \<Longrightarrow> (\<And>y s s'. y \<in> set xs \<Longrightarrow> I s \<Longrightarrow> f y s = Some s' \<Longrightarrow> I s') \<Longrightarrow> (\<And>s. I s \<Longrightarrow> f x s = None) \<Longrightarrow>
   for_each xs f s = None"
proof (induction xs arbitrary: s)
  case (Cons y ys)
  show ?case
  proof (cases "f y s")
    case (Some s')
    then have "x \<in> set ys" "I s'" using Cons.prems(1,2) Cons.prems(4) [of s] Cons.prems(3) [of y s s'] by auto
    then have "for_each ys f s' = None" using Cons.prems(3,4) by (intro Cons.IH) auto
    then show ?thesis by (simp add: Some)
  qed simp
qed simp

text \<open>
  Products of \<^verbatim>\<open>int\<close> operands: signed overflow is undefined behaviour in C, and a run
  that reaches it has no result here either.
\<close>

definition cint_mul :: "int \<Rightarrow> int \<Rightarrow> int option" where
  "cint_mul a b = (if - (2 ^ 31) \<le> a * b \<and> a * b < 2 ^ 31 then Some (a * b) else None)"

section \<open>Rounding\<close>

definition ROUNDUP :: "u64 \<Rightarrow> u64 \<Rightarrow> u64" where
  "ROUNDUP x n = (x + n - 1) AND NOT (n - 1)"

definition PGSIZE :: u64 where
  "PGSIZE = 4096"

definition PGMASK :: u64 where
  "PGMASK = 4095"

section \<open>Words as numbers\<close>

lemma unat_u64_less: "unat (x :: u64) < 18446744073709551616"
  using unsigned_less [of x] by simp

lemma unat_u64_add:
  "unat x + unat y < 18446744073709551616 \<Longrightarrow> unat (x + y :: u64) = unat x + unat y"
  by (simp add: unat_word_ariths)

lemma unat_u64_inc:
  "unat x < 18446744073709551615 \<Longrightarrow> unat (x + 1 :: u64) = Suc (unat x)"
  by (simp add: unat_word_ariths)

lemma loop_unat: "m < n \<Longrightarrow> unat (m + 1) = Suc (unat m)" for m n :: u64
  using unat_u64_less [of n] unat_u64_inc [of m] by (simp add: word_less_nat_alt)

lemma loop_measure [termination_simp]: "m < n \<Longrightarrow> unat n - unat (m + 1) < unat n - unat m" for m n :: u64
  using loop_unat [of m n] by (simp add: word_less_nat_alt)

lemma unat_u64_dec:
  "x \<noteq> 0 \<Longrightarrow> unat (x - 1 :: u64) = unat x - 1"
proof -
  assume "x \<noteq> 0"
  then have "0 < unat x" by (simp add: unat_gt_0)
  then show ?thesis by (simp add: unat_sub_if_size word_le_nat_alt Suc_leI)
qed

section \<open>Page alignment\<close>

definition pg_aligned :: "u64 \<Rightarrow> bool" where
  "pg_aligned a \<longleftrightarrow> a mod PGSIZE = 0"

lemma pg_aligned_uint: "pg_aligned a \<longleftrightarrow> uint a mod 4096 = 0"
proof -
  have "uint (a mod PGSIZE) = uint a mod 4096"
    by (simp add: PGSIZE_def uint_mod)
  then show ?thesis
    unfolding pg_aligned_def by (metis uint_0_iff)
qed

lemma pg_aligned_add [intro]:
  assumes "pg_aligned a" and "pg_aligned b"
  shows "pg_aligned (a + b)"
proof -
  have "uint (a + b) mod 4096 = (uint a + uint b) mod 4096"
    by (simp add: uint_word_ariths mod_mod_cancel)
  then show ?thesis using assms by (auto simp: pg_aligned_uint)
qed

lemma pg_aligned_diff [intro]:
  assumes "pg_aligned a" and "pg_aligned b"
  shows "pg_aligned (a - b)"
proof -
  have "uint (a - b) mod 4096 = (uint a - uint b) mod 4096"
    by (simp add: uint_word_ariths mod_mod_cancel)
  then show ?thesis using assms by (auto simp: pg_aligned_uint)
qed

lemma pg_aligned_less:
  assumes "pg_aligned a" and "a < PGSIZE"
  shows "a = 0"
  using assms by (simp add: pg_aligned_def mod_word_less)

lemma pg_aligned_apart:
  assumes "pg_aligned a" and "pg_aligned b" and "a \<noteq> b"
  shows "\<not> a - b < PGSIZE"
  using pg_aligned_less [OF pg_aligned_diff [OF assms(1,2)]] assms(3) by auto

lemma pg_aligned_div_inj:
  assumes "pg_aligned a" and "pg_aligned b" and "a div PGSIZE = b div PGSIZE"
  shows "a = b"
  using assms unfolding pg_aligned_def
  by (metis mult_div_mod_eq)

lemma pg_offset_uint:
  assumes "pg_aligned u" and "off < PGSIZE"
  shows "uint (u + off) = uint u + uint off"
proof -
  obtain q where q: "uint u = 4096 * q"
    using assms(1) by (auto simp: pg_aligned_uint mod_eq_0_iff_dvd)
  have "uint off < 4096" using assms(2) by (simp add: PGSIZE_def word_less_def)
  moreover have "uint u < 18446744073709551616" using uint_bounded [of u] by simp
  ultimately have "uint u + uint off < 18446744073709551616" unfolding q by presburger
  then show ?thesis by (simp add: uint_word_ariths)
qed

lemma int_page_unique:
  fixes q r x y :: int
  assumes "4096 * q + x = 4096 * r + y" "0 \<le> x" "x < 4096" "0 \<le> y" "y < 4096"
  shows "q = r"
proof -
  have "(4096 * q + x) div 4096 = q" "(4096 * r + y) div 4096 = r"
    using assms(2-5) by (simp_all add: div_pos_pos_trivial)
  with assms(1) show ?thesis by simp
qed

lemma pg_offset_inj:
  assumes "pg_aligned u" "pg_aligned v" "x < PGSIZE" "y < PGSIZE" and eq: "u + x = v + y"
  shows "u = v \<and> x = y"
proof -
  have "uint x < 4096" "uint y < 4096" using assms(3,4) by (simp_all add: PGSIZE_def word_less_def)
  moreover have "uint u + uint x = uint v + uint y"
    using pg_offset_uint [OF assms(1,3)] pg_offset_uint [OF assms(2,4)] eq by metis
  moreover obtain q where q: "uint u = 4096 * q"
    using assms(1) by (auto simp: pg_aligned_uint mod_eq_0_iff_dvd)
  moreover obtain r where r: "uint v = 4096 * r"
    using assms(2) by (auto simp: pg_aligned_uint mod_eq_0_iff_dvd)
  ultimately have "q = r" by (intro int_page_unique [of q "uint x" r "uint y"]) simp_all
  with q r have "uint u = uint v" by simp
  then have "u = v" by (metis word_of_int_uint)
  with eq show ?thesis by simp
qed

lemma word_index_lt_page: "i < 512 \<Longrightarrow> 8 * i < PGSIZE" for i :: u64
proof -
  assume "i < 512"
  then have "uint i < 512" by (simp add: word_less_def)
  then have "uint (8 * i) = 8 * uint i" by (simp add: uint_word_ariths)
  with \<open>uint i < 512\<close> show ?thesis by (simp add: PGSIZE_def word_less_def)
qed

lemma word_index_inj: "8 * i = 8 * j \<Longrightarrow> i < 512 \<Longrightarrow> j < 512 \<Longrightarrow> i = j" for i j :: u64
proof -
  assume eq: "8 * i = 8 * j" and "i < 512" and "j < 512"
  then have lt: "uint i < 512" "uint j < 512" by (simp_all add: word_less_def)
  then have "uint (8 * i) = 8 * uint i" "uint (8 * j) = 8 * uint j"
    by (simp_all add: uint_word_ariths)
  with eq have "uint i = uint j" by simp
  then show ?thesis by (metis word_of_int_uint)
qed

text \<open>Two words of page-sized tables are the same only if table and index are.\<close>

lemma table_entry_inj:
  assumes "pg_aligned u" "pg_aligned v" "i < 512" "j < 512"
  shows "u + 8 * i = v + 8 * j \<longleftrightarrow> u = v \<and> i = j"
  using assms pg_offset_inj [OF assms(1,2) word_index_lt_page word_index_lt_page]
    word_index_inj by blast

section \<open>Bits\<close>

lemma pg_aligned_take_bit: "pg_aligned x \<longleftrightarrow> take_bit 12 x = 0"
  by (simp add: pg_aligned_def PGSIZE_def take_bit_eq_mod)

lemma pg_aligned_bit: "pg_aligned x \<Longrightarrow> n < 12 \<Longrightarrow> \<not> bit x n"
  unfolding pg_aligned_take_bit by (metis bit_take_bit_iff bit_0_eq bot_apply bot_bool_def)

lemma or_mask_and_not_mask:
  fixes x :: u64
  assumes "\<And>i. i < n \<Longrightarrow> \<not> bit x i" and "m \<le> n"
  shows "(x OR mask m) AND NOT (mask n) = x"
  using assms by (intro bit_eqI, auto simp: bit_and_iff bit_or_iff bit_not_iff bit_mask_iff not_less)
    (meson not_le)

lemma bit_nonzero: "bit x n \<Longrightarrow> x \<noteq> 0" for x :: u64
  by auto

lemma and_exp_word: "x AND 2 ^ n = (if bit x n then 2 ^ n else 0)" for x :: u64
  by (intro bit_eqI) (auto simp: bit_and_iff bit_exp_iff)

lemma u64_of_nat_unat: "(of_nat (unat x) :: u64) = x"
  by simp

lemma word_of_nat_page:
  assumes "i < n" "4096 * n < 2 ^ 64"
  shows "(of_nat (4096 * i) :: u64) < of_nat (4096 * n)"
proof -
  have "unat (of_nat (4096 * i) :: u64) = 4096 * i" "unat (of_nat (4096 * n) :: u64) = 4096 * n"
    using assms by (simp_all only: unsigned_of_nat) (simp_all add: take_bit_eq_mod)
  then show ?thesis using assms(1) by (simp add: word_less_nat_alt)
qed

lemma ROUNDUP_aligned: "pg_aligned (ROUNDUP x PGSIZE)"
proof -
  have "PGSIZE - 1 = mask 12" by (simp add: PGSIZE_def mask_eq_exp_minus_1)
  then have "take_bit 12 (ROUNDUP x PGSIZE) = 0"
    unfolding ROUNDUP_def by (intro bit_eqI) (simp add: bit_take_bit_iff bit_and_iff bit_not_iff bit_mask_iff del: mask_numeral)
  then show ?thesis by (simp add: pg_aligned_take_bit)
qed

lemma pg_aligned_unat:
  assumes "pg_aligned x"
  obtains n where "unat x = 4096 * n"
proof -
  have "uint x mod 4096 = 0" using assms by (simp add: pg_aligned_uint)
  then have "unat x mod 4096 = 0" by (metis unat_eq_nat_uint nat_mod_distrib nat_numeral uint_ge_0 nat_0 zero_le_numeral)
  then show thesis using that by (auto simp: mod_eq_0_iff_dvd elim: dvdE)
qed

lemma unat_div_PGSIZE: "unat (x div PGSIZE) = unat x div 4096"
  by (simp add: PGSIZE_def unat_div)

lemma of_nat_page_inj:
  assumes "4096 * n < 2 ^ 64" "i < n" "j < n" "(of_nat (4096 * i) :: u64) = of_nat (4096 * j)"
  shows "i = j"
proof -
  have "unat (of_nat (4096 * i) :: u64) = 4096 * i" "unat (of_nat (4096 * j) :: u64) = 4096 * j"
    using assms(1-3) by (simp_all only: unsigned_of_nat) (simp_all add: take_bit_eq_mod)
  with assms(4) show ?thesis by simp
qed

section \<open>Shared contracts\<close>

text \<open>
  Reference counting: pages, timer events, threads and processes all follow the same
  protocol.  \<open>valid\<close> are the objects the provider manages; a provider promises that a
  retain and a release are possible exactly while the count is not zero and that they
  move the count by one, in the arithmetic of the 64-bit counter.
\<close>

datatype ref_op = Retain | Release

fun ref_run :: "('p \<Rightarrow> 's \<Rightarrow> 's option) \<Rightarrow> ('p \<Rightarrow> 's \<Rightarrow> 's option) \<Rightarrow>
    'p \<Rightarrow> ref_op list \<Rightarrow> 's \<Rightarrow> 's option" where
  "ref_run ret rel p [] s = Some s"
| "ref_run ret rel p (Retain # ops) s = ret p s \<bind> ref_run ret rel p ops"
| "ref_run ret rel p (Release # ops) s = rel p s \<bind> ref_run ret rel p ops"

locale refcounted =
  fixes cnt :: "'p \<Rightarrow> 's \<Rightarrow> u64"
    and valid :: "'p \<Rightarrow> 's \<Rightarrow> bool"
    and retain :: "'p \<Rightarrow> 's \<Rightarrow> 's option"
    and release :: "'p \<Rightarrow> 's \<Rightarrow> 's option"
  assumes retain_ok: "cnt p s \<noteq> 0 \<Longrightarrow> \<exists>s'. retain p s = Some s'"
    and retain_cnt: "retain p s = Some s' \<Longrightarrow> cnt p s \<noteq> 0 \<and> cnt p s' = cnt p s + 1"
    and retain_valid: "valid p s \<Longrightarrow> retain p s = Some s' \<Longrightarrow> valid p s'"
    and release_ok: "valid p s \<Longrightarrow> cnt p s \<noteq> 0 \<Longrightarrow> \<exists>s'. release p s = Some s'"
    and release_cnt: "release p s = Some s' \<Longrightarrow> cnt p s \<noteq> 0 \<and> cnt p s' = cnt p s - 1"
begin

lemma ref_run_cnt:
  "ref_run retain release p ops s = Some s' \<Longrightarrow>
     cnt p s' = cnt p s + of_nat (count_list ops Retain) - of_nat (count_list ops Release)"
proof (induction ops arbitrary: s)
  case Nil
  then show ?case by simp
next
  case (Cons op ops)
  show ?case
  proof (cases op)
    case Retain
    with Cons.prems obtain s1 where "retain p s = Some s1" and "ref_run retain release p ops s1 = Some s'"
      by (auto simp: bind_eq_Some_conv)
    with Cons.IH [of s1] retain_cnt [of p s s1] Retain show ?thesis by (simp add: algebra_simps)
  next
    case Release
    with Cons.prems obtain s1 where "release p s = Some s1" and "ref_run retain release p ops s1 = Some s'"
      by (auto simp: bind_eq_Some_conv)
    with Cons.IH [of s1] release_cnt [of p s s1] Release show ?thesis by (simp add: algebra_simps)
  qed
qed

lemma retain_release_cnt:
  assumes "valid p s" and "cnt p s \<noteq> 0" and "cnt p s \<noteq> - 1"
  shows "\<exists>s' s''. retain p s = Some s' \<and> release p s' = Some s'' \<and> cnt p s'' = cnt p s"
proof -
  obtain s' where r: "retain p s = Some s'" using retain_ok assms(2) by blast
  with retain_cnt have c: "cnt p s' = cnt p s + 1" by blast
  with assms(3) have "cnt p s' \<noteq> 0" by (simp add: eq_neg_iff_add_eq_0)
  with retain_valid [OF assms(1) r] obtain s'' where "release p s' = Some s''"
    using release_ok by blast
  with r c show ?thesis using release_cnt by fastforce
qed

end

text \<open>
  Components as step systems: \<open>step\<close> runs one operation (\<open>None\<close> is a panic), \<open>ok\<close> is
  the condition under which callers may issue it.  A component that interprets this
  contract never panics on a run that respects \<open>ok\<close>, and keeps its invariant.
\<close>

fun run_steps :: "('op \<Rightarrow> 's \<Rightarrow> 's option) \<Rightarrow> 'op list \<Rightarrow> 's \<Rightarrow> 's option" where
  "run_steps step [] s = Some s"
| "run_steps step (x # xs) s = step x s \<bind> run_steps step xs"

fun run_ok :: "('op \<Rightarrow> 's \<Rightarrow> 's option) \<Rightarrow> ('op \<Rightarrow> 's \<Rightarrow> bool) \<Rightarrow> 'op list \<Rightarrow> 's \<Rightarrow> bool" where
  "run_ok step ok [] s = True"
| "run_ok step ok (x # xs) s =
     (ok x s \<and> (case step x s of None \<Rightarrow> True | Some s' \<Rightarrow> run_ok step ok xs s'))"

locale step_system =
  fixes step :: "'op \<Rightarrow> 's \<Rightarrow> 's option"
    and ok :: "'op \<Rightarrow> 's \<Rightarrow> bool"
    and inv :: "'s \<Rightarrow> bool"
  assumes step_ok: "inv s \<Longrightarrow> ok x s \<Longrightarrow> \<exists>s'. step x s = Some s'"
    and step_inv: "inv s \<Longrightarrow> ok x s \<Longrightarrow> step x s = Some s' \<Longrightarrow> inv s'"
begin

lemma run_inv:
  "inv s \<Longrightarrow> run_ok step ok xs s \<Longrightarrow> \<exists>s'. run_steps step xs s = Some s' \<and> inv s'"
proof (induction xs arbitrary: s)
  case Nil
  then show ?case by simp
next
  case (Cons x xs)
  then have "ok x s" by simp
  with Cons.prems(1) obtain s1 where s1: "step x s = Some s1" using step_ok by blast
  with Cons.prems have "inv s1" and "run_ok step ok xs s1" using step_inv by auto
  with Cons.IH s1 show ?case by simp
qed

end

text \<open>
  A functional refinement: every operation of a component corresponds to an operation on its
  abstract value, so every run of operations does.
\<close>

locale simulation =
  fixes step :: "'op \<Rightarrow> 's \<Rightarrow> 's option"
    and ok :: "'op \<Rightarrow> 's \<Rightarrow> bool"
    and inv :: "'s \<Rightarrow> bool"
    and abs :: "'s \<Rightarrow> 'a"
    and astep :: "'op \<Rightarrow> 'a \<Rightarrow> 'a"
  assumes sim: "inv s \<Longrightarrow> ok x s \<Longrightarrow> \<exists>s'. step x s = Some s' \<and> inv s' \<and> abs s' = astep x (abs s)"
begin

lemma run_sim:
  "inv s \<Longrightarrow> run_ok step ok xs s \<Longrightarrow> \<exists>s'. run_steps step xs s = Some s' \<and> inv s' \<and> abs s' = fold astep xs (abs s)"
proof (induction xs arbitrary: s)
  case (Cons x xs)
  then obtain s1 where "step x s = Some s1" "inv s1" "abs s1 = astep x (abs s)" using sim [of s x] by auto
  then show ?case using Cons.IH [of s1] Cons.prems by simp
qed simp

end

end
