(* ===== verification/Spinlock.thy ===== *)
theory Spinlock
  imports Prelude "HOL-Library.Transitive_Closure_Table"
begin

text \<open>
  Spin locks and critical sections, \<^verbatim>\<open>src/sys/kern/spinlock.c\<close> and
  \<^verbatim>\<open>src/sys/amd64/critical.c\<close>.

  One lock is shared by the CPUs; each access to shared memory is one step, and the steps
  of the CPUs interleave in any order.  \<open>pcs\<close> holds what each CPU executes next and
  \<open>depth\<close> how many calls of \<^verbatim>\<open>Spinlock_Lock\<close> it has completed and not yet undone.  The
  entries of this lock on the per-CPU lock stacks are counted; the time statistics
  (\<^verbatim>\<open>lockTime\<close>, \<^verbatim>\<open>waitTime\<close>, \<^verbatim>\<open>lockedTSC\<close>) and the warning after one second of spinning
  are left out.
\<close>

section \<open>State\<close>

definition SPINLOCK_TYPE_NORMAL :: u64 where "SPINLOCK_TYPE_NORMAL = 1"
definition SPINLOCK_TYPE_RECURSIVE :: u64 where "SPINLOCK_TYPE_RECURSIVE = 2"

datatype pc =
    Outside
  | LSwap \<comment> \<open>\<^verbatim>\<open>atomic_swap_uint64(&lock->lock, 1)\<close>\<close>
  | LTest \<comment> \<open>the recursive test of the loop body\<close>
  | LSetCpu \<comment> \<open>\<^verbatim>\<open>lock->cpu = CPU()\<close>\<close>
  | LCount \<comment> \<open>\<^verbatim>\<open>lock->count++\<close>\<close>
  | LRCount \<comment> \<open>\<^verbatim>\<open>lock->rCount++\<close>\<close>
  | LPush \<comment> \<open>\<^verbatim>\<open>TAILQ_INSERT_TAIL(&lockStack[CPU()], ...)\<close>\<close>
  | UAssert \<comment> \<open>\<^verbatim>\<open>ASSERT(lock->cpu == CPU())\<close> and the removal from the stack\<close>
  | UDec \<comment> \<open>\<^verbatim>\<open>lock->rCount--\<close> and its test\<close>
  | UClr \<comment> \<open>\<^verbatim>\<open>lock->cpu = 0\<close>\<close>
  | URel \<comment> \<open>\<^verbatim>\<open>atomic_set_uint64(&lock->lock, 0)\<close>\<close>
  | UExit \<comment> \<open>\<^verbatim>\<open>Critical_Exit()\<close>\<close>

record spin =
  lock :: u64
  lcpu :: nat
  lcount :: u64
  rCount :: u64
  ltype :: u64
  lockLevel :: "nat \<Rightarrow> u32"
  irqOn :: "nat \<Rightarrow> bool"
  lockStack :: "nat \<Rightarrow> nat"
  pcs :: "nat \<Rightarrow> pc"
  depth :: "nat \<Rightarrow> nat"

section \<open>Critical sections\<close>

definition Critical_Init :: "spin \<Rightarrow> spin" where
  "Critical_Init s = s\<lparr>lockLevel := (\<lambda>c. if c < 16 then 0 else lockLevel s c)\<rparr>"

definition Critical_Enter :: "nat \<Rightarrow> spin \<Rightarrow> spin" where
  "Critical_Enter c s = s\<lparr>irqOn := (irqOn s)(c := False), lockLevel := (lockLevel s)(c := lockLevel s c + 1)\<rparr>"

definition Critical_Exit :: "nat \<Rightarrow> spin \<Rightarrow> spin" where
  "Critical_Exit c s =
     (let s = s\<lparr>lockLevel := (lockLevel s)(c := lockLevel s c - 1)\<rparr>
      in if lockLevel s c = 0 then s\<lparr>irqOn := (irqOn s)(c := True)\<rparr> else s)"

definition Critical_Level :: "nat \<Rightarrow> spin \<Rightarrow> u32" where
  "Critical_Level c s = lockLevel s c"

section \<open>The lock\<close>

definition Spinlock_EarlyInit :: "spin \<Rightarrow> spin" where
  "Spinlock_EarlyInit s = s\<lparr>lockStack := (\<lambda>c. if c < 16 then 0 else lockStack s c)\<rparr>"

definition Spinlock_Init :: "u64 \<Rightarrow> spin \<Rightarrow> spin" where
  "Spinlock_Init ty s = s\<lparr>lock := 0, lcpu := 0, lcount := 0, rCount := 0, ltype := ty\<rparr>"

definition Spinlock_IsHeld :: "nat \<Rightarrow> spin \<Rightarrow> bool" where
  "Spinlock_IsHeld c s \<longleftrightarrow> lcpu s = c \<and> lock s = 1"

abbreviation goto :: "nat \<Rightarrow> pc \<Rightarrow> spin \<Rightarrow> spin" where
  "goto c p s \<equiv> s\<lparr>pcs := (pcs s)(c := p)\<rparr>"

text \<open>The calls: \<^verbatim>\<open>Spinlock_Lock\<close> starts with \<^verbatim>\<open>Critical_Enter\<close>.\<close>

definition Spinlock_Lock :: "nat \<Rightarrow> spin \<Rightarrow> spin" where
  "Spinlock_Lock c s = goto c LSwap (Critical_Enter c s)"

definition Spinlock_Unlock :: "nat \<Rightarrow> spin \<Rightarrow> spin" where
  "Spinlock_Unlock c s = goto c UAssert s"

text \<open>One step of CPU \<open>c\<close> inside the two functions; \<open>None\<close> is the failed assertion.\<close>

fun spin_step :: "nat \<Rightarrow> spin \<Rightarrow> spin option" where
  "spin_step c s =
     (case pcs s c of
        Outside \<Rightarrow> Some s
      | LSwap \<Rightarrow> Some (goto c (if lock s = 1 then LTest else LSetCpu) (s\<lparr>lock := 1\<rparr>))
      | LTest \<Rightarrow> Some (goto c (if ltype s = SPINLOCK_TYPE_RECURSIVE \<and> lcpu s = c then LSetCpu else LSwap) s)
      | LSetCpu \<Rightarrow> Some (goto c LCount (s\<lparr>lcpu := c\<rparr>))
      | LCount \<Rightarrow> Some (goto c LRCount (s\<lparr>lcount := lcount s + 1\<rparr>))
      | LRCount \<Rightarrow> Some (goto c LPush (s\<lparr>rCount := rCount s + 1\<rparr>))
      | LPush \<Rightarrow> Some (goto c Outside (s\<lparr>lockStack := (lockStack s)(c := lockStack s c + 1),
                                         depth := (depth s)(c := depth s c + 1)\<rparr>))
      | UAssert \<Rightarrow> if lcpu s = c
                  then Some (goto c UDec (s\<lparr>lockStack := (lockStack s)(c := lockStack s c - 1)\<rparr>))
                  else None
      | UDec \<Rightarrow> Some (goto c (if rCount s - 1 = 0 then UClr else UExit)
                  (s\<lparr>rCount := rCount s - 1, depth := (depth s)(c := depth s c - 1)\<rparr>))
      | UClr \<Rightarrow> Some (goto c URel (s\<lparr>lcpu := 0\<rparr>))
      | URel \<Rightarrow> Some (goto c UExit (s\<lparr>lock := 0\<rparr>))
      | UExit \<Rightarrow> Some (goto c Outside (Critical_Exit c s)))"

text \<open>
  The clients are the CPUs of \<open>C\<close>.  A client that is outside the two functions may call
  \<^verbatim>\<open>Spinlock_Lock\<close>, or \<^verbatim>\<open>Spinlock_Unlock\<close> if it holds the lock; each nested call of
  \<^verbatim>\<open>Spinlock_Lock\<close> counts in the 32-bit \<^verbatim>\<open>lockLevel\<close>, which bounds the nesting.
\<close>

inductive spin_trans :: "nat set \<Rightarrow> spin \<Rightarrow> spin \<Rightarrow> bool" for C where
  call_lock: "c \<in> C \<Longrightarrow> pcs s c = Outside \<Longrightarrow> depth s c < 2 ^ 32 - 1 \<Longrightarrow>
      spin_trans C s (Spinlock_Lock c s)"
| call_unlock: "c \<in> C \<Longrightarrow> pcs s c = Outside \<Longrightarrow> 0 < depth s c \<Longrightarrow>
      spin_trans C s (Spinlock_Unlock c s)"
| run: "c \<in> C \<Longrightarrow> spin_step c s = Some s' \<Longrightarrow> spin_trans C s s'"

inductive_cases spin_transE: "spin_trans C s s'"

text \<open>CPU \<open>c\<close> owns the lock: it holds it, or it is past the loop or before the release.\<close>

definition owns :: "nat \<Rightarrow> spin \<Rightarrow> bool" where
  "owns c s \<longleftrightarrow> 0 < depth s c \<or> pcs s c \<in> {LSetCpu, LCount, LRCount, LPush, UClr, URel}"

definition spin_start :: "u64 \<Rightarrow> spin \<Rightarrow> bool" where
  "spin_start ty s \<longleftrightarrow> (\<exists>s0. s = Spinlock_Init ty s0) \<and> (\<forall>c. pcs s c = Outside \<and> depth s c = 0)"

text \<open>A schedule: each entry is a CPU and what it does.\<close>

datatype spin_act = CallLock | CallUnlock | Run

fun spin_do :: "nat \<times> spin_act \<Rightarrow> spin \<Rightarrow> spin option" where
  "spin_do (c, CallLock) s =
     (if pcs s c = Outside \<and> depth s c < 2 ^ 32 - 1 then Some (Spinlock_Lock c s) else None)"
| "spin_do (c, CallUnlock) s =
     (if pcs s c = Outside \<and> 0 < depth s c then Some (Spinlock_Unlock c s) else None)"
| "spin_do (c, Run) s = spin_step c s"

definition spin_example :: "u64 \<Rightarrow> spin" where
  "spin_example ty = \<lparr>lock = 0, lcpu = 0, lcount = 0, rCount = 0, ltype = ty, lockLevel = (\<lambda>_. 0),
     irqOn = (\<lambda>_. True), lockStack = (\<lambda>_. 0), pcs = (\<lambda>_. Outside), depth = (\<lambda>_. 0)\<rparr>"

section \<open>Invariant\<close>

definition spin_inv :: "nat set \<Rightarrow> spin \<Rightarrow> bool" where
  "spin_inv C s \<longleftrightarrow>
     (ltype s \<noteq> SPINLOCK_TYPE_RECURSIVE \<or> 0 \<notin> C) \<and>
     (\<forall>c. c \<notin> C \<longrightarrow> pcs s c = Outside \<and> depth s c = 0) \<and>
     (\<forall>c d. owns c s \<longrightarrow> owns d s \<longrightarrow> c = d) \<and>
     (\<forall>c. owns c s \<longrightarrow> lock s = 1) \<and>
     (\<forall>c. 0 < depth s c \<or> pcs s c \<in> {LCount, LRCount, LPush, UClr} \<longrightarrow> lcpu s = c) \<and>
     (\<forall>c. c \<noteq> 0 \<longrightarrow> lcpu s = c \<longrightarrow> owns c s) \<and>
     (\<forall>c. pcs s c \<in> {UAssert, UDec} \<longrightarrow> 0 < depth s c) \<and>
     (\<forall>c. pcs s c \<in> {UClr, URel} \<longrightarrow> depth s c = 0) \<and>
     (\<forall>c. depth s c < 2 ^ 32) \<and>
     (\<forall>c. pcs s c \<in> {LSwap, LTest, LSetCpu, LCount, LRCount, LPush} \<longrightarrow> depth s c < 2 ^ 32 - 1) \<and>
     (\<forall>c. owns c s \<longrightarrow> rCount s = of_nat (depth s c + (if pcs s c = LPush then 1 else 0))) \<and>
     ((\<forall>c. \<not> owns c s) \<longrightarrow> rCount s = 0) \<and>
     (\<forall>c. pcs s c = URel \<longrightarrow> lcpu s = 0)"

lemma spin_inv_start:
  "spin_start ty s \<Longrightarrow> ty \<noteq> SPINLOCK_TYPE_RECURSIVE \<or> 0 \<notin> C \<Longrightarrow> spin_inv C s"
  by (auto simp: spin_start_def spin_inv_def owns_def Spinlock_Init_def)

lemma spin_invD:
  assumes "spin_inv C s"
  shows "ltype s \<noteq> SPINLOCK_TYPE_RECURSIVE \<or> 0 \<notin> C"
    and "c \<notin> C \<Longrightarrow> pcs s c = Outside" and "c \<notin> C \<Longrightarrow> depth s c = 0"
    and "owns c s \<Longrightarrow> owns d s \<Longrightarrow> c = d" and "owns c s \<Longrightarrow> lock s = 1"
    and "0 < depth s c \<or> pcs s c \<in> {LCount, LRCount, LPush, UClr} \<Longrightarrow> lcpu s = c"
    and "c \<noteq> 0 \<Longrightarrow> lcpu s = c \<Longrightarrow> owns c s"
    and "pcs s c \<in> {UAssert, UDec} \<Longrightarrow> 0 < depth s c"
    and "pcs s c \<in> {UClr, URel} \<Longrightarrow> depth s c = 0"
    and "depth s c < 2 ^ 32"
    and "pcs s c \<in> {LSwap, LTest, LSetCpu, LCount, LRCount, LPush} \<Longrightarrow> depth s c < 2 ^ 32 - 1"
    and "owns c s \<Longrightarrow> rCount s = of_nat (depth s c + (if pcs s c = LPush then 1 else 0))"
    and "\<forall>c. \<not> owns c s \<Longrightarrow> rCount s = 0"
    and "pcs s c = URel \<Longrightarrow> lcpu s = 0"
proof -
  note d = assms [unfolded spin_inv_def]
  show "ltype s \<noteq> SPINLOCK_TYPE_RECURSIVE \<or> 0 \<notin> C" by (rule d [THEN conjunct1])
  note d = d [THEN conjunct2]
  show "c \<notin> C \<Longrightarrow> pcs s c = Outside" "c \<notin> C \<Longrightarrow> depth s c = 0" using d [THEN conjunct1] by blast+
  note d = d [THEN conjunct2]
  show "owns c s \<Longrightarrow> owns d s \<Longrightarrow> c = d" using d [THEN conjunct1] by blast
  note d = d [THEN conjunct2]
  show "owns c s \<Longrightarrow> lock s = 1" using d [THEN conjunct1] by blast
  note d = d [THEN conjunct2]
  show "0 < depth s c \<or> pcs s c \<in> {LCount, LRCount, LPush, UClr} \<Longrightarrow> lcpu s = c" by (rule d [THEN conjunct1, rule_format])
  note d = d [THEN conjunct2]
  show "c \<noteq> 0 \<Longrightarrow> lcpu s = c \<Longrightarrow> owns c s" by (rule d [THEN conjunct1, rule_format])
  note d = d [THEN conjunct2]
  show "pcs s c \<in> {UAssert, UDec} \<Longrightarrow> 0 < depth s c" by (rule d [THEN conjunct1, rule_format])
  note d = d [THEN conjunct2]
  show "pcs s c \<in> {UClr, URel} \<Longrightarrow> depth s c = 0" by (rule d [THEN conjunct1, rule_format])
  note d = d [THEN conjunct2]
  show "depth s c < 2 ^ 32" by (rule d [THEN conjunct1, rule_format])
  note d = d [THEN conjunct2]
  show "pcs s c \<in> {LSwap, LTest, LSetCpu, LCount, LRCount, LPush} \<Longrightarrow> depth s c < 2 ^ 32 - 1" by (rule d [THEN conjunct1, rule_format])
  note d = d [THEN conjunct2]
  show "owns c s \<Longrightarrow> rCount s = of_nat (depth s c + (if pcs s c = LPush then 1 else 0))" by (rule d [THEN conjunct1, rule_format])
  note d = d [THEN conjunct2]
  show "\<forall>c. \<not> owns c s \<Longrightarrow> rCount s = 0" by (rule d [THEN conjunct1, THEN mp])
  show "pcs s c = URel \<Longrightarrow> lcpu s = 0" by (rule d [THEN conjunct2, rule_format])
qed

text \<open>A step of \<open>c\<close> changes the program counter and the depth of \<open>c\<close> only.\<close>

lemma spin_inv_upd:
  assumes inv: "spin_inv C s" and c: "c \<in> C"
    and others: "\<And>d. d \<noteq> c \<Longrightarrow> pcs s' d = pcs s d \<and> depth s' d = depth s d" and ty: "ltype s' = ltype s"
    and excl: "owns c s' \<Longrightarrow> (\<forall>d. d \<noteq> c \<longrightarrow> \<not> owns d s) \<and> lock s' = 1"
    and lk: "\<not> owns c s \<Longrightarrow> lock s = 1 \<Longrightarrow> lock s' = 1"
    and cpu: "0 < depth s' c \<or> pcs s' c \<in> {LCount, LRCount, LPush, UClr} \<Longrightarrow> lcpu s' = c"
    and cpu': "\<not> owns c s \<Longrightarrow> lcpu s' = lcpu s" "c \<noteq> 0 \<Longrightarrow> lcpu s' = c \<Longrightarrow> owns c s'"
      "lcpu s' \<in> {c, lcpu s, 0}"
    and ur: "pcs s' c = URel \<Longrightarrow> lcpu s' = 0"
    and pc: "pcs s' c \<in> {UAssert, UDec} \<Longrightarrow> 0 < depth s' c" "pcs s' c \<in> {UClr, URel} \<Longrightarrow> depth s' c = 0"
    and dp: "depth s' c < 2 ^ 32"
      "pcs s' c \<in> {LSwap, LTest, LSetCpu, LCount, LRCount, LPush} \<Longrightarrow> depth s' c < 2 ^ 32 - 1"
    and rc: "owns c s' \<Longrightarrow> rCount s' = of_nat (depth s' c + (if pcs s' c = LPush then 1 else 0))"
      "owns c s \<Longrightarrow> \<not> owns c s' \<Longrightarrow> rCount s' = 0" "\<not> owns c s \<Longrightarrow> \<not> owns c s' \<Longrightarrow> rCount s' = rCount s"
  shows "spin_inv C s'"
proof -
  have od: "owns d s' = owns d s" if "d \<noteq> c" for d using others [OF that] by (simp add: owns_def)
  show ?thesis
    unfolding spin_inv_def
  proof (intro conjI allI impI)
    show "ltype s' \<noteq> SPINLOCK_TYPE_RECURSIVE \<or> 0 \<notin> C" using spin_invD(1) [OF inv] ty by simp
    fix d
    show "pcs s' d = Outside" "depth s' d = 0" if "d \<notin> C"
      using that others [of d] spin_invD(2,3) [OF inv that] c by auto
    show "d = e" if "owns d s'" "owns e s'" for e
    proof (cases "owns c s'")
      case True
      then have "f = c" if "owns f s'" for f using that excl od [of f] by blast
      with that show ?thesis by metis
    next
      case False
      with that od [of d] od [of e] have "owns d s" "owns e s" by auto
      then show ?thesis by (rule spin_invD(4) [OF inv])
    qed
    show "lock s' = 1" if "owns d s'"
    proof (cases "d = c")
      case True
      with excl that show ?thesis by blast
    next
      case False
      with that od have d: "owns d s" by simp
      with False spin_invD(4) [OF inv] have "\<not> owns c s" by blast
      with lk spin_invD(5) [OF inv d] show ?thesis by blast
    qed
    show "lcpu s' = d" if "0 < depth s' d \<or> pcs s' d \<in> {LCount, LRCount, LPush, UClr}"
    proof (cases "d = c")
      case True
      then show ?thesis using cpu that by simp
    next
      case False
      then have "owns d s" "lcpu s = d" using that others [OF False] spin_invD(6) [OF inv, of d] by (auto simp: owns_def)
      then have "\<not> owns c s" using spin_invD(4) [OF inv] False by blast
      with cpu'(1) \<open>lcpu s = d\<close> show ?thesis by simp
    qed
    show "owns d s'" if "d \<noteq> 0" "lcpu s' = d"
    proof (cases "d = c")
      case True
      then show ?thesis using cpu'(2) that by simp
    next
      case False
      then have "lcpu s = d" using cpu'(3) that by auto
      then show ?thesis using spin_invD(7) [OF inv that(1)] od [OF False] by simp
    qed
    show "0 < depth s' d" if "pcs s' d \<in> {UAssert, UDec}"
      using that others [of d] spin_invD(8) [OF inv, of d] pc(1) by (cases "d = c") auto
    show "depth s' d = 0" if "pcs s' d \<in> {UClr, URel}"
      using that others [of d] spin_invD(9) [OF inv, of d] pc(2) by (cases "d = c") auto
    show "lcpu s' = 0" if "pcs s' d = URel"
    proof (cases "d = c")
      case True
      then show ?thesis using ur that by simp
    next
      case False
      then have "owns d s" "lcpu s = 0" using that others [OF False] spin_invD(14) [OF inv, of d] by (auto simp: owns_def)
      then have "\<not> owns c s" using spin_invD(4) [OF inv] False by blast
      with cpu'(1) \<open>lcpu s = 0\<close> show ?thesis by simp
    qed
    show "depth s' d < 2 ^ 32" using others [of d] spin_invD(10) [OF inv, of d] dp(1) by (cases "d = c") auto
    show "depth s' d < 2 ^ 32 - 1" if "pcs s' d \<in> {LSwap, LTest, LSetCpu, LCount, LRCount, LPush}"
      using that others [of d] spin_invD(11) [OF inv, of d] dp(2) by (cases "d = c") auto
    show "rCount s' = of_nat (depth s' d + (if pcs s' d = LPush then 1 else 0))" if "owns d s'"
    proof (cases "d = c")
      case True
      then show ?thesis using rc(1) that by simp
    next
      case False
      then have "owns d s" "\<not> owns c s" "\<not> owns c s'"
        using that od [OF False] spin_invD(4) [OF inv] excl by blast+
      then have "rCount s' = rCount s" "rCount s = of_nat (depth s d + (if pcs s d = LPush then 1 else 0))"
        using rc(3) spin_invD(12) [OF inv] by blast+
      then show ?thesis using others [OF False] by simp
    qed
  next
    assume n: "\<forall>c. \<not> owns c s'"
    then have "\<And>d. d \<noteq> c \<Longrightarrow> \<not> owns d s" using od by blast
    then have "\<not> owns c s \<Longrightarrow> rCount s = 0" using spin_invD(13) [OF inv] by metis
    then show "rCount s' = 0" using n rc(2,3) by (cases "owns c s") simp_all
  qed
qed

lemma spin_step_inv:
  assumes inv: "spin_inv C s" and c: "c \<in> C" and st: "spin_step c s = Some s'"
  shows "spin_inv C s'"
proof -
  note D = spin_invD [OF inv]
  have no: "\<not> owns d s" if "owns c s" "d \<noteq> c" for d using D(4) that by blast
  have zero: "depth s c = 0" if "\<not> owns c s" using that by (simp add: owns_def)
  show ?thesis
  proof (cases "pcs s c")
    case Outside
    with st inv show ?thesis by simp
  next
    case LSwap
    show ?thesis
    proof (cases "lock s = 1")
      case True
      with LSwap st have s': "s' = goto c LTest (s\<lparr>lock := 1\<rparr>)" by simp
      show ?thesis
        by (rule spin_inv_upd [OF inv c])
           (use True LSwap D(5-7) [of c] D(10-12) [of c] no in \<open>auto simp: s' owns_def\<close>)
    next
      case False
      then have n: "\<not> owns d s" for d using D(5) by blast
      from False LSwap st have s': "s' = goto c LSetCpu (s\<lparr>lock := 1\<rparr>)" by simp
      show ?thesis
        by (rule spin_inv_upd [OF inv c])
           (use n D(7) [of c] D(13) zero LSwap in \<open>auto simp: s' owns_def\<close>)
    qed
  next
    case LTest
    show ?thesis
    proof (cases "ltype s = SPINLOCK_TYPE_RECURSIVE \<and> lcpu s = c")
      case True
      then have "c \<noteq> 0" using D(1) c by metis
      then have o: "owns c s" using D(7) True by blast
      from True LTest st have s': "s' = goto c LSetCpu s" by simp
      show ?thesis
        by (rule spin_inv_upd [OF inv c])
           (use True LTest o D(5) [OF o] D(10,11) [of c] D(12) [OF o] no in \<open>auto simp: s' owns_def\<close>)
    next
      case False
      with LTest st have s': "s' = goto c LSwap s" by auto
      show ?thesis
        by (rule spin_inv_upd [OF inv c])
           (use LTest D(5-7) [of c] D(10-12) [of c] no in \<open>auto simp: s' owns_def\<close>)
    qed
  next
    case LSetCpu
    then have o: "owns c s" by (simp add: owns_def)
    from LSetCpu st have s': "s' = goto c LCount (s\<lparr>lcpu := c\<rparr>)" by simp
    show ?thesis
      by (rule spin_inv_upd [OF inv c])
         (use LSetCpu o D(5) [OF o] D(10,11) [of c] D(12) [OF o] no in \<open>auto simp: s' owns_def\<close>)
  next
    case LCount
    then have o: "owns c s" by (simp add: owns_def)
    from LCount st have s': "s' = goto c LRCount (s\<lparr>lcount := lcount s + 1\<rparr>)" by simp
    show ?thesis
      by (rule spin_inv_upd [OF inv c])
         (use LCount o D(5) [OF o] D(6,10,11) [of c] D(12) [OF o] no in \<open>auto simp: s' owns_def\<close>)
  next
    case LRCount
    then have o: "owns c s" by (simp add: owns_def)
    from LRCount st have s': "s' = goto c LPush (s\<lparr>rCount := rCount s + 1\<rparr>)" by simp
    show ?thesis
      by (rule spin_inv_upd [OF inv c])
         (use LRCount o D(5) [OF o] D(6,10,11) [of c] D(12) [OF o] no in \<open>auto simp: s' owns_def\<close>)
  next
    case LPush
    then have o: "owns c s" by (simp add: owns_def)
    from LPush st have s': "s' = goto c Outside (s\<lparr>lockStack := (lockStack s)(c := lockStack s c + 1),
        depth := (depth s)(c := depth s c + 1)\<rparr>)" by simp
    show ?thesis
      by (rule spin_inv_upd [OF inv c])
         (use LPush o D(5) [OF o] D(6,10,11) [of c] D(12) [OF o] no in \<open>auto simp: s' owns_def\<close>)
  next
    case UAssert
    then have o: "owns c s" using D(8) [of c] by (simp add: owns_def)
    from UAssert st have s': "s' = goto c UDec (s\<lparr>lockStack := (lockStack s)(c := lockStack s c - 1)\<rparr>)"
      by (simp split: if_splits)
    show ?thesis
      by (rule spin_inv_upd [OF inv c])
         (use UAssert o D(5) [OF o] D(6,8,10) [of c] D(12) [OF o] no in \<open>auto simp: s' owns_def\<close>)
  next
    case UDec
    then have d: "0 < depth s c" using D(8) [of c] by simp
    then have o: "owns c s" by (simp add: owns_def)
    obtain n where n: "depth s c = Suc n" using d gr0_implies_Suc by blast
    have r: "rCount s - 1 = of_nat n" using D(12) [OF o] UDec n by simp
    have "n < 2 ^ 32" using D(10) [of c] n by simp
    then have z: "(of_nat n :: u64) = 0 \<longleftrightarrow> n = 0" by (auto simp: word_of_nat_eq_0_iff dest: dvd_imp_le)
    from UDec st have s': "s' = goto c (if n = 0 then UClr else UExit)
        (s\<lparr>rCount := of_nat n, depth := (depth s)(c := n)\<rparr>)" using r z n by simp
    show ?thesis
    proof (cases "n = 0")
      case True
      show ?thesis
        by (rule spin_inv_upd [OF inv c])
           (use True UDec o D(5) [OF o] D(6,10) [of c] n no in \<open>auto simp: s' owns_def\<close>)
    next
      case False
      show ?thesis
        by (rule spin_inv_upd [OF inv c])
           (use False UDec o D(5) [OF o] D(6,10) [of c] n no in \<open>auto simp: s' owns_def\<close>)
    qed
  next
    case UClr
    then have o: "owns c s" by (simp add: owns_def)
    from UClr st have s': "s' = goto c URel (s\<lparr>lcpu := 0\<rparr>)" by simp
    show ?thesis
      by (rule spin_inv_upd [OF inv c])
         (use UClr o D(5) [OF o] D(9,10) [of c] D(12) [OF o] no in \<open>auto simp: s' owns_def\<close>)
  next
    case URel
    then have o: "owns c s" by (simp add: owns_def)
    from URel st have s': "s' = goto c UExit (s\<lparr>lock := 0\<rparr>)" by simp
    show ?thesis
      by (rule spin_inv_upd [OF inv c])
         (use URel o D(9,10,14) [of c] D(12) [OF o] no in \<open>auto simp: s' owns_def\<close>)
  next
    case UExit
    then have s': "s' = goto c Outside (Critical_Exit c s)" using st by simp
    have e: "depth (Critical_Exit c s) = depth s" "pcs (Critical_Exit c s) = pcs s" "lock (Critical_Exit c s) = lock s"
      "lcpu (Critical_Exit c s) = lcpu s" "rCount (Critical_Exit c s) = rCount s" "ltype (Critical_Exit c s) = ltype s"
      by (simp_all add: Critical_Exit_def Let_def)
    show ?thesis
      by (rule spin_inv_upd [OF inv c])
         (use UExit D(5-7) [of c] D(10-12) [of c] no in \<open>auto simp: s' e owns_def\<close>)
  qed
qed

lemma spin_trans_inv:
  assumes inv: "spin_inv C s" and t: "spin_trans C s s'"
  shows "spin_inv C s'"
  using t
proof (cases rule: spin_trans.cases)
  case (call_lock c)
  note D = spin_invD [OF inv]
  have no: "\<not> owns d s" if "owns c s" "d \<noteq> c" for d using D(4) that by blast
  show ?thesis
    by (rule spin_inv_upd [OF inv call_lock(2)])
       (use call_lock no D(5-7) [of c] D(10-12) [of c] in
         \<open>auto simp: Spinlock_Lock_def Critical_Enter_def owns_def\<close>)
next
  case (call_unlock c)
  note D = spin_invD [OF inv]
  have no: "\<not> owns d s" if "owns c s" "d \<noteq> c" for d using D(4) that by blast
  show ?thesis
    by (rule spin_inv_upd [OF inv call_unlock(2)])
       (use call_unlock no D(5-7) [of c] D(10-12) [of c] in
         \<open>auto simp: Spinlock_Unlock_def owns_def\<close>)
next
  case (run c)
  with spin_step_inv [OF inv] show ?thesis by blast
qed

lemma spin_reach_inv: "(spin_trans C)\<^sup>*\<^sup>* s s' \<Longrightarrow> spin_inv C s \<Longrightarrow> spin_inv C s'"
  by (induction rule: rtranclp_induct) (auto intro: spin_trans_inv)

section \<open>Properties\<close>


lemma spin_example_start: "spin_start ty (spin_example ty)"
  unfolding spin_start_def
  by (intro conjI exI [of _ "spin_example ty"]) (simp_all add: spin_example_def Spinlock_Init_def)

lemma spin_do_trans: "spin_do a s = Some s' \<Longrightarrow> fst a \<in> C \<Longrightarrow> spin_trans C s s'"
  by (cases "(a, s)" rule: spin_do.cases) (auto intro: spin_trans.intros split: if_splits simp del: spin_step.simps)

lemma run_schedule:
  "run_steps spin_do as s = Some s' \<Longrightarrow> fst ` set as \<subseteq> C \<Longrightarrow> (spin_trans C)\<^sup>*\<^sup>* s s'"
proof (induction as arbitrary: s)
  case (Cons a as)
  then obtain s1 where "spin_do a s = Some s1" "run_steps spin_do as s1 = Some s'"
    by (auto simp: bind_eq_Some_conv simp del: spin_do.simps)
  with Cons show ?case
    using spin_do_trans [of a s s1 C] by (auto intro: converse_rtranclp_into_rtranclp)
qed simp


text \<open>
  C33. The recursive lock does not exclude CPU 0: while another CPU has swapped the lock word
  but has not yet stored its number, \<^verbatim>\<open>lock->cpu\<close> is still 0 and CPU 0 takes the recursive
  branch.  There is a run of two CPUs after which both hold the lock.
\<close>

theorem spinlock_recursive_cpu0:
  "\<exists>s. (spin_trans {0, 1})\<^sup>*\<^sup>* (spin_example SPINLOCK_TYPE_RECURSIVE) s \<and>
     depth s 0 = 1 \<and> depth s 1 = 1 \<and> pcs s 0 = Outside \<and> pcs s 1 = Outside"
proof -
  obtain s where r: "run_steps spin_do [(1, CallLock), (1, Run), (0, CallLock), (0, Run), (0, Run), (0, Run),
      (0, Run), (0, Run), (0, Run), (1, Run), (1, Run), (1, Run), (1, Run)] (spin_example SPINLOCK_TYPE_RECURSIVE) = Some s"
    and o: "depth s 0 = 1" "depth s 1 = 1" "pcs s 0 = Outside" "pcs s 1 = Outside"
    by (simp add: spin_example_def Spinlock_Lock_def Critical_Enter_def)
  have "(spin_trans {0, 1})\<^sup>*\<^sup>* (spin_example SPINLOCK_TYPE_RECURSIVE) s"
    by (rule run_schedule [OF r]) simp
  with o show ?thesis by blast
qed

end
