(* ===== verification/PageAlloc.thy ===== *)
theory PageAlloc
  imports Prelude
begin

text \<open>
  The physical page allocator, \<^verbatim>\<open>src/sys/kern/palloc.c\<close>.

  Physical memory is seen through the direct map as a function from addresses of
  64-bit words to words.  A \<^verbatim>\<open>FreePage\<close> keeps its magic number in word 0; the links of
  the free list, words 1 and 2 of a free page, are abstracted to the list
  \<^term>\<open>freeList\<close> of page addresses in list order.  The \<^verbatim>\<open>PageInfo\<close> array is a function
  from page numbers to reference counts.  \<^term>\<open>pageInfoXMem\<close> is the index of the region
  that backs the array once the regions exist (\<^verbatim>\<open>NULL\<close> is \<open>None\<close>).
\<close>

section \<open>State\<close>

record kmem =
  totalPages :: u64
  freePages :: u64
  pageInfo :: "u64 \<Rightarrow> u64"
  pageInfoTable :: u64
  pageInfoLength :: u64
  pageInfoXMem :: "nat option"
  freeList :: "u64 list"
  mem :: "u64 \<Rightarrow> u64"

definition FREEPAGE_MAGIC_FREE :: u64 where
  "FREEPAGE_MAGIC_FREE = 0x4652454550414745"

definition FREEPAGE_MAGIC_INUSE :: u64 where
  "FREEPAGE_MAGIC_INUSE = 0x414c4c4f43415445"

definition MEM_DIRECTMAP_BASE :: u64 where
  "MEM_DIRECTMAP_BASE = 0xFFFF800000000000"

definition DMVA2PA :: "u64 \<Rightarrow> u64" where
  "DMVA2PA dmva = dmva - MEM_DIRECTMAP_BASE"

definition DMPA2VA :: "u64 \<Rightarrow> u64" where
  "DMPA2VA pa = pa + MEM_DIRECTMAP_BASE"

section \<open>Operations\<close>

text \<open>
  \<^verbatim>\<open>PAllocGetInfo\<close> returns the address of the entry of a page; the model returns its
  index in the table.
\<close>

definition PAllocGetInfo :: "u64 \<Rightarrow> u64" where
  "PAllocGetInfo pg = DMVA2PA pg div PGSIZE"

text \<open>\<^verbatim>\<open>memset(pg, 0, PGSIZE)\<close> on a whole page, word by word.\<close>

definition memset_page :: "(u64 \<Rightarrow> u64) \<Rightarrow> u64 \<Rightarrow> u64 \<Rightarrow> u64" where
  "memset_page m pg = (\<lambda>a. if a - pg < PGSIZE then 0 else m a)"

definition PAlloc_Init :: "'a kmem_scheme \<Rightarrow> 'a kmem_scheme" where
  "PAlloc_Init s = s\<lparr>totalPages := 0, freePages := 0, freeList := [], pageInfoXMem := None,
     pageInfoTable := 0\<rparr>"

definition PAlloc_AllocPage :: "'a kmem_scheme \<Rightarrow> (u64 \<times> 'a kmem_scheme) option" where
  "PAlloc_AllocPage s =
     (case freeList s of
        [] \<Rightarrow> None
      | pg # rest \<Rightarrow> do {
          kassert (mem s pg = FREEPAGE_MAGIC_FREE);
          let info = PAllocGetInfo pg;
          kassert (pageInfo s info = 0);
          let s1 = s\<lparr>freeList := rest,
                      pageInfo := (pageInfo s)(info := pageInfo s info + 1),
                      mem := (mem s)(pg := FREEPAGE_MAGIC_INUSE),
                      freePages := freePages s - 1\<rparr>;
          Some (pg, s1\<lparr>mem := memset_page (mem s1) pg\<rparr>)
        })"

text \<open>
  \<^verbatim>\<open>PAllocFreePage\<close> of the default (\<^verbatim>\<open>NDEBUG\<close>) build: the double-free checks between
  \<^verbatim>\<open>#ifndef NDEBUG\<close> and \<^verbatim>\<open>#endif\<close> are not compiled.
\<close>

definition PAllocFreePage :: "u64 \<Rightarrow> 'a kmem_scheme \<Rightarrow> 'a kmem_scheme option" where
  "PAllocFreePage pg s = do {
     kassert (pg mod PGSIZE = 0);
     Some (s\<lparr>freeList := pg # freeList s,
             mem := (mem s)(pg := FREEPAGE_MAGIC_FREE),
             freePages := freePages s + 1\<rparr>)
   }"

definition PAlloc_Retain :: "u64 \<Rightarrow> 'a kmem_scheme \<Rightarrow> 'a kmem_scheme option" where
  "PAlloc_Retain pg s = do {
     let info = PAllocGetInfo pg;
     kassert (pageInfo s info \<noteq> 0);
     Some (s\<lparr>pageInfo := (pageInfo s)(info := pageInfo s info + 1)\<rparr>)
   }"

definition PAlloc_Release :: "u64 \<Rightarrow> 'a kmem_scheme \<Rightarrow> 'a kmem_scheme option" where
  "PAlloc_Release pg s = do {
     let info = PAllocGetInfo pg;
     kassert (pageInfo s info \<noteq> 0);
     let s1 = s\<lparr>pageInfo := (pageInfo s)(info := pageInfo s info - 1)\<rparr>;
     if pageInfo s1 info = 0 then PAllocFreePage pg s1 else Some s1
   }"

section \<open>Invariant\<close>

text \<open>
  \<open>P\<close> is the set of pages that \<^verbatim>\<open>PAlloc_AddRegion\<close> has handed to the allocator.  The
  free list holds exactly the pages of \<open>P\<close> without references, each once and marked
  with the free magic, and the two counters are the sizes of the list and of \<open>P\<close>.
\<close>

abbreviation pg_refs :: "u64 \<Rightarrow> 'a kmem_scheme \<Rightarrow> u64" where
  "pg_refs pg s \<equiv> pageInfo s (PAllocGetInfo pg)"

definition palloc_inv :: "u64 set \<Rightarrow> 'a kmem_scheme \<Rightarrow> bool" where
  "palloc_inv P s \<longleftrightarrow>
     finite P \<and> (\<forall>p\<in>P. pg_aligned p) \<and>
     distinct (freeList s) \<and>
     set (freeList s) = {p \<in> P. pg_refs p s = 0} \<and>
     (\<forall>p\<in>set (freeList s). mem s p = FREEPAGE_MAGIC_FREE) \<and>
     unat (freePages s) = length (freeList s) \<and>
     unat (totalPages s) = card P"

lemma DMVA2PA_aligned: "pg_aligned p \<Longrightarrow> pg_aligned (DMVA2PA p)"
  unfolding DMVA2PA_def MEM_DIRECTMAP_BASE_def
  by (rule pg_aligned_diff) (simp_all add: pg_aligned_uint)

lemma PAllocGetInfo_inj:
  assumes "pg_aligned p" and "pg_aligned q" and "PAllocGetInfo p = PAllocGetInfo q"
  shows "p = q"
proof -
  have "DMVA2PA p = DMVA2PA q"
    using assms DMVA2PA_aligned pg_aligned_div_inj unfolding PAllocGetInfo_def by blast
  then show ?thesis by (simp add: DMVA2PA_def)
qed

lemma memset_page_zero [simp]: "a - pg < PGSIZE \<Longrightarrow> memset_page m pg a = 0"
  by (simp add: memset_page_def)

lemma memset_page_other [simp]:
  "pg_aligned p \<Longrightarrow> pg_aligned q \<Longrightarrow> p \<noteq> q \<Longrightarrow> memset_page m p q = m q"
  using pg_aligned_apart by (simp add: memset_page_def)

lemma memset_page_upd [simp]: "memset_page (m(pg := v)) pg = memset_page m pg"
  by (auto simp: memset_page_def PGSIZE_def)

lemma palloc_inv_mem:
  "palloc_inv P s \<Longrightarrow> (\<And>p. p \<in> set (freeList s) \<Longrightarrow> m' p = mem s p) \<Longrightarrow> palloc_inv P (s\<lparr>mem := m'\<rparr>)"
  by (auto simp: palloc_inv_def)

lemma palloc_inv_card:
  assumes "palloc_inv P s" and "p \<in> P" and "pg_refs p s \<noteq> 0"
  shows "Suc (length (freeList s)) \<le> card P"
proof -
  have "length (freeList s) = card (set (freeList s))"
    using assms(1) distinct_card by (metis palloc_inv_def)
  also have "\<dots> < card P"
    using assms by (intro psubset_card_mono) (auto simp: palloc_inv_def)
  finally show ?thesis by simp
qed

lemma PAlloc_AllocPage_cases:
  assumes "palloc_inv P s" and "freeList s = pg # rest"
  shows "\<exists>s'. PAlloc_AllocPage s = Some (pg, s') \<and> pg \<in> P \<and> pg_refs pg s = 0 \<and>
           s' = s\<lparr>freeList := rest,
                  pageInfo := (pageInfo s)(PAllocGetInfo pg := 1),
                  freePages := freePages s - 1,
                  mem := memset_page ((mem s)(pg := FREEPAGE_MAGIC_INUSE)) pg\<rparr>"
proof -
  have "pg \<in> set (freeList s)" by (simp add: assms(2))
  with assms(1) have "pg \<in> P" and "pg_refs pg s = 0" and "mem s pg = FREEPAGE_MAGIC_FREE"
    unfolding palloc_inv_def by auto
  with assms(2) show ?thesis
    by (simp add: PAlloc_AllocPage_def Let_def)
qed

lemma PAlloc_AllocPage_inv:
  assumes inv: "palloc_inv P s" and alloc: "PAlloc_AllocPage s = Some (pg, s')"
  shows "palloc_inv P s'"
proof -
  obtain rest where fl: "freeList s = pg # rest"
    using alloc by (auto simp: PAlloc_AllocPage_def Let_def split: list.splits)
  with PAlloc_AllocPage_cases [OF inv fl] alloc
  have pg: "pg \<in> P" and s': "s' = s\<lparr>freeList := rest,
                  pageInfo := (pageInfo s)(PAllocGetInfo pg := 1),
                  freePages := freePages s - 1,
                  mem := memset_page ((mem s)(pg := FREEPAGE_MAGIC_INUSE)) pg\<rparr>"
    by auto
  have al: "\<forall>p\<in>P. pg_aligned p" using inv by (simp add: palloc_inv_def)
  have other: "q \<in> P \<Longrightarrow> q \<noteq> pg \<Longrightarrow> PAllocGetInfo q \<noteq> PAllocGetInfo pg" for q
    using al pg PAllocGetInfo_inj by blast
  have d: "pg \<notin> set rest" "distinct rest" using inv fl by (auto simp: palloc_inv_def)
  have len: "unat (freePages s) = Suc (length rest)" using inv fl by (simp add: palloc_inv_def)
  then have "freePages s \<noteq> 0" by auto
  with len have len': "unat (freePages s - 1) = length rest"
    by (simp add: unat_u64_dec)
  have st: "set rest = {p \<in> P. p \<noteq> pg \<and> pg_refs p s = 0}"
    using inv fl d by (auto simp: palloc_inv_def)
  have mg: "\<forall>p\<in>set rest. mem s p = FREEPAGE_MAGIC_FREE \<and> p \<in> P \<and> p \<noteq> pg"
    using inv fl st d by (auto simp: palloc_inv_def)
  have z: "set rest = {p \<in> P. pg_refs p s' = 0}"
    unfolding st s' using other by auto
  have m: "\<forall>p\<in>set rest. mem s' p = FREEPAGE_MAGIC_FREE"
  proof
    fix p assume "p \<in> set rest"
    with mg al have "p \<noteq> pg" "pg_aligned p" "mem s p = FREEPAGE_MAGIC_FREE" by auto
    with al pg show "mem s' p = FREEPAGE_MAGIC_FREE" by (simp add: s')
  qed
  have f: "freeList s' = rest" "freePages s' = freePages s - 1" "totalPages s' = totalPages s"
    by (simp_all add: s')
  show ?thesis
    using inv d len' z m al unfolding palloc_inv_def f by blast
qed

lemma PAlloc_Retain_inv:
  assumes inv: "palloc_inv P s" and "p \<in> P" and "pg_refs p s \<noteq> - 1"
    and ret: "PAlloc_Retain p s = Some s'"
  shows "palloc_inv P s'"
proof -
  have nz: "pg_refs p s \<noteq> 0"
    and s': "s' = s\<lparr>pageInfo := (pageInfo s)(PAllocGetInfo p := pg_refs p s + 1)\<rparr>"
    using ret by (auto simp: PAlloc_Retain_def Let_def)
  have "pg_refs p s + 1 \<noteq> 0" using assms(3) by (simp add: eq_neg_iff_add_eq_0)
  with nz assms(2) have "{q \<in> P. pg_refs q s' = 0} = {q \<in> P. pg_refs q s = 0}"
    by (auto simp: s')
  with inv show ?thesis by (auto simp: s' palloc_inv_def)
qed

lemma PAlloc_Release_cases:
  assumes inv: "palloc_inv P s" and "p \<in> P" and nz: "pg_refs p s \<noteq> 0"
  shows "PAlloc_Release p s = Some (
     let s1 = s\<lparr>pageInfo := (pageInfo s)(PAllocGetInfo p := pg_refs p s - 1)\<rparr>
     in if pg_refs p s = 1
        then s1\<lparr>freeList := p # freeList s, mem := (mem s)(p := FREEPAGE_MAGIC_FREE),
                freePages := freePages s + 1\<rparr>
        else s1)"
proof -
  have "p mod PGSIZE = 0" using inv \<open>p \<in> P\<close> by (simp add: palloc_inv_def pg_aligned_def)
  with nz show ?thesis by (simp add: PAlloc_Release_def PAllocFreePage_def Let_def)
qed

lemma PAlloc_Release_inv:
  assumes inv: "palloc_inv P s" and p: "p \<in> P" and rel: "PAlloc_Release p s = Some s'"
  shows "palloc_inv P s'"
proof -
  have nz: "pg_refs p s \<noteq> 0"
    using rel by (auto simp: PAlloc_Release_def Let_def)
  have al: "\<forall>q\<in>P. pg_aligned q" using inv by (simp add: palloc_inv_def)
  have other: "q \<in> P \<Longrightarrow> q \<noteq> p \<Longrightarrow> PAllocGetInfo q \<noteq> PAllocGetInfo p" for q
    using al p PAllocGetInfo_inj by blast
  show ?thesis
  proof (cases "pg_refs p s = 1")
    case False
    with PAlloc_Release_cases [OF inv p nz] rel
    have s': "s' = s\<lparr>pageInfo := (pageInfo s)(PAllocGetInfo p := pg_refs p s - 1)\<rparr>"
      by (simp add: Let_def)
    have "{q \<in> P. pg_refs q s' = 0} = {q \<in> P. pg_refs q s = 0}"
      using False nz other by (auto simp: s')
    with inv show ?thesis by (auto simp: s' palloc_inv_def)
  next
    case True
    with PAlloc_Release_cases [OF inv p nz] rel
    have s': "s' = s\<lparr>pageInfo := (pageInfo s)(PAllocGetInfo p := 0),
        freeList := p # freeList s, mem := (mem s)(p := FREEPAGE_MAGIC_FREE),
        freePages := freePages s + 1\<rparr>"
      by (simp add: Let_def)
    have "p \<notin> set (freeList s)" using inv nz by (auto simp: palloc_inv_def)
    moreover have "{q \<in> P. pg_refs q s' = 0} = insert p {q \<in> P. pg_refs q s = 0}"
      using other p by (auto simp: s')
    moreover have "unat (freePages s + 1) = Suc (unat (freePages s))"
    proof -
      have "Suc (unat (freePages s)) \<le> unat (totalPages s)"
        using palloc_inv_card [OF inv p nz] inv by (simp add: palloc_inv_def)
      with unat_u64_less [of "totalPages s"] show ?thesis by (simp add: unat_u64_inc)
    qed
    ultimately show ?thesis using inv unfolding palloc_inv_def by (auto simp: s')
  qed
qed

section \<open>The allocator as a step system and as a reference counter\<close>

datatype palloc_op = OpAlloc | OpRetain u64 | OpRelease u64

fun palloc_step :: "palloc_op \<Rightarrow> 'a kmem_scheme \<Rightarrow> 'a kmem_scheme option" where
  "palloc_step OpAlloc s = map_option snd (PAlloc_AllocPage s)"
| "palloc_step (OpRetain p) s = PAlloc_Retain p s"
| "palloc_step (OpRelease p) s = PAlloc_Release p s"

fun palloc_ok :: "u64 set \<Rightarrow> palloc_op \<Rightarrow> 'a kmem_scheme \<Rightarrow> bool" where
  "palloc_ok P OpAlloc s \<longleftrightarrow> freeList s \<noteq> []"
| "palloc_ok P (OpRetain p) s \<longleftrightarrow> p \<in> P \<and> pg_refs p s \<noteq> 0 \<and> pg_refs p s \<noteq> - 1"
| "palloc_ok P (OpRelease p) s \<longleftrightarrow> p \<in> P \<and> pg_refs p s \<noteq> 0"

interpretation palloc: step_system palloc_step "palloc_ok P" "palloc_inv P" for P
proof
  fix s op
  assume inv: "palloc_inv P s" and ok: "palloc_ok P op s"
  show "\<exists>s'. palloc_step op s = Some s'"
  proof (cases op)
    case OpAlloc
    with ok obtain pg rest where "freeList s = pg # rest" by (auto simp: neq_Nil_conv)
    from PAlloc_AllocPage_cases [OF inv this] OpAlloc show ?thesis by auto
  next
    case (OpRetain p)
    with ok show ?thesis by (simp add: PAlloc_Retain_def Let_def)
  next
    case (OpRelease p)
    with ok PAlloc_Release_cases [OF inv] show ?thesis by simp
  qed
next
  fix s s' op
  assume inv: "palloc_inv P s" and ok: "palloc_ok P op s" and st: "palloc_step op s = Some s'"
  show "palloc_inv P s'"
  proof (cases op)
    case OpAlloc
    with st inv show ?thesis by (auto intro: PAlloc_AllocPage_inv)
  next
    case (OpRetain p)
    with st ok inv show ?thesis by (auto intro: PAlloc_Retain_inv)
  next
    case (OpRelease p)
    with st ok inv show ?thesis by (auto intro: PAlloc_Release_inv)
  qed
qed

interpretation pages: refcounted pg_refs "\<lambda>p s. pg_aligned p" PAlloc_Retain PAlloc_Release
proof
  fix p s s'
  show "pg_refs p s \<noteq> 0 \<Longrightarrow> \<exists>s'. PAlloc_Retain p s = Some s'"
    by (simp add: PAlloc_Retain_def Let_def)
  show "PAlloc_Retain p s = Some s' \<Longrightarrow> pg_refs p s \<noteq> 0 \<and> pg_refs p s' = pg_refs p s + 1"
    by (auto simp: PAlloc_Retain_def Let_def)
  show "pg_aligned p \<Longrightarrow> pg_refs p s \<noteq> 0 \<Longrightarrow> \<exists>s'. PAlloc_Release p s = Some s'"
    by (simp add: PAlloc_Release_def PAllocFreePage_def pg_aligned_def Let_def)
  show "PAlloc_Release p s = Some s' \<Longrightarrow> pg_refs p s \<noteq> 0 \<and> pg_refs p s' = pg_refs p s - 1"
    by (auto simp: PAlloc_Release_def PAllocFreePage_def Let_def split: if_splits)
qed

section \<open>Properties\<close>

text \<open>A machine with two free pages, used to instantiate the properties.\<close>

definition kmem_example :: kmem where
  "kmem_example = \<lparr>totalPages = 2, freePages = 2, pageInfo = (\<lambda>_. 0),
     pageInfoTable = 0xFFFF800000000000, pageInfoLength = 4096, pageInfoXMem = None,
     freeList = [0xFFFF800000001000, 0xFFFF800000002000],
     mem = (\<lambda>_. FREEPAGE_MAGIC_FREE)\<rparr>"

definition pages_example :: "u64 set" where
  "pages_example = {0xFFFF800000001000, 0xFFFF800000002000}"

lemma kmem_example_inv: "palloc_inv pages_example kmem_example"
  by (auto simp: palloc_inv_def kmem_example_def pages_example_def pg_aligned_def PGSIZE_def)

lemma kmem_example_alloc:
  "PAlloc_AllocPage kmem_example = Some (0xFFFF800000001000,
     kmem_example\<lparr>freeList := [0xFFFF800000002000], pageInfo := (\<lambda>_. 0)(1 := 1), freePages := 1,
       mem := memset_page ((\<lambda>_. FREEPAGE_MAGIC_FREE)(0xFFFF800000001000 := FREEPAGE_MAGIC_INUSE))
                0xFFFF800000001000\<rparr>)"
  by (simp add: PAlloc_AllocPage_def kmem_example_def PAllocGetInfo_def DMVA2PA_def
      MEM_DIRECTMAP_BASE_def PGSIZE_def)

text \<open>
  C11. Every sequence of page allocations, retains and releases in which callers only
  allocate while a page is free, and only retain and release pages they hold, runs
  without a panic, and afterwards the free list is again exactly the set of managed
  pages without references, with counters that agree with it.
\<close>

theorem palloc_run_safe:
  assumes "palloc_inv P s" and "run_ok palloc_step (palloc_ok P) ops s"
  shows "\<exists>s'. run_steps palloc_step ops s = Some s' \<and> palloc_inv P s'"
  using assms by (rule palloc.run_inv)

theorem palloc_run_safe_witness:
  "\<exists>s'. run_steps palloc_step [OpAlloc, OpRetain 0xFFFF800000001000, OpRelease 0xFFFF800000001000]
          kmem_example = Some s' \<and> palloc_inv pages_example s'"
proof (rule palloc_run_safe [OF kmem_example_inv])
  show "run_ok palloc_step (palloc_ok pages_example)
      [OpAlloc, OpRetain 0xFFFF800000001000, OpRelease 0xFFFF800000001000] kmem_example"
    by (simp add: kmem_example_alloc PAlloc_Retain_def PAllocGetInfo_def DMVA2PA_def
        MEM_DIRECTMAP_BASE_def PGSIZE_def Let_def pages_example_def)
       (simp add: kmem_example_def split: option.split)
qed

text \<open>
  A page that \<^verbatim>\<open>PAlloc_AllocPage\<close> returns is a managed page that had no reference
  before the call, has exactly one afterwards and reads as zero in every word; no other
  page changes its reference count.  The call panics exactly when no page is free.
\<close>

theorem palloc_alloc_page:
  assumes "palloc_inv P s"
  shows "case PAlloc_AllocPage s of
           None \<Rightarrow> freeList s = []
         | Some (pg, s') \<Rightarrow>
             pg \<in> P \<and> pg_refs pg s = 0 \<and> pg_refs pg s' = 1 \<and>
             (\<forall>a. a - pg < PGSIZE \<longrightarrow> mem s' a = 0) \<and>
             (\<forall>q\<in>P. q \<noteq> pg \<longrightarrow> pg_refs q s' = pg_refs q s)"
proof (cases "freeList s")
  case Nil
  then show ?thesis by (simp add: PAlloc_AllocPage_def)
next
  case (Cons pg rest)
  from PAlloc_AllocPage_cases [OF assms Cons] obtain s' where
    a: "PAlloc_AllocPage s = Some (pg, s')" "pg \<in> P" "pg_refs pg s = 0" and
    s': "s' = s\<lparr>freeList := rest, pageInfo := (pageInfo s)(PAllocGetInfo pg := 1),
            freePages := freePages s - 1,
            mem := memset_page ((mem s)(pg := FREEPAGE_MAGIC_INUSE)) pg\<rparr>"
    by blast
  have "\<forall>q\<in>P. q \<noteq> pg \<longrightarrow> PAllocGetInfo q \<noteq> PAllocGetInfo pg"
    using assms a(2) PAllocGetInfo_inj unfolding palloc_inv_def by blast
  with a show ?thesis by (simp add: s')
qed

theorem palloc_alloc_page_witness:
  "\<exists>s'. PAlloc_AllocPage kmem_example = Some (0xFFFF800000001000, s') \<and>
        pg_refs 0xFFFF800000001000 s' = 1 \<and> mem s' 0xFFFF800000001008 = 0"
  using palloc_alloc_page [OF kmem_example_inv]
  by (simp add: kmem_example_alloc PGSIZE_def)

text \<open>
  Giving up the last reference of a page returns it to the allocator: the next
  allocation hands out that same page, cleared and with one reference.
\<close>

theorem palloc_release_reuse:
  assumes "palloc_inv P s" and "p \<in> P" and "pg_refs p s = 1"
  shows "\<exists>s' s''. PAlloc_Release p s = Some s' \<and> pg_refs p s' = 0 \<and>
           PAlloc_AllocPage s' = Some (p, s'') \<and> pg_refs p s'' = 1 \<and>
           freeList s'' = freeList s \<and> freePages s'' = freePages s \<and>
           (\<forall>a. a - p < PGSIZE \<longrightarrow> mem s'' a = 0)"
proof -
  let ?s' = "s\<lparr>pageInfo := (pageInfo s)(PAllocGetInfo p := 0), freeList := p # freeList s,
               mem := (mem s)(p := FREEPAGE_MAGIC_FREE), freePages := freePages s + 1\<rparr>"
  have r: "PAlloc_Release p s = Some ?s'"
    using PAlloc_Release_cases [OF assms(1,2)] assms(3) by (simp add: Let_def)
  then show ?thesis
    by (simp add: PAlloc_AllocPage_def Let_def)
qed

theorem palloc_release_reuse_witness:
  "\<exists>s s' s''. PAlloc_AllocPage kmem_example = Some (0xFFFF800000001000, s) \<and>
     PAlloc_Release 0xFFFF800000001000 s = Some s' \<and>
     PAlloc_AllocPage s' = Some (0xFFFF800000001000, s'')"
proof -
  obtain s where s: "PAlloc_AllocPage kmem_example = Some (0xFFFF800000001000, s)"
    by (simp add: kmem_example_alloc)
  have "palloc_inv pages_example s" by (rule PAlloc_AllocPage_inv [OF kmem_example_inv s])
  moreover have "0xFFFF800000001000 \<in> pages_example" by (simp add: pages_example_def)
  moreover have "pg_refs 0xFFFF800000001000 s = 1"
    using s by (auto simp: kmem_example_alloc PAllocGetInfo_def DMVA2PA_def
        MEM_DIRECTMAP_BASE_def PGSIZE_def)
  ultimately show ?thesis using palloc_release_reuse s by blast
qed



end
