(* ===== verification/PMap.thy ===== *)
theory PMap
  imports PageAlloc "HOL-Library.Sublist"
begin

text \<open>
  The page tables, \<^verbatim>\<open>src/sys/amd64/pmap.c\<close>.

  An address space is the address of its \<^verbatim>\<open>AS\<close> structure (words: \<^verbatim>\<open>root\<close>, \<^verbatim>\<open>tables\<close>,
  \<^verbatim>\<open>mappings\<close>), a page table the address of a page of 512 entries, both in the memory of
  the page allocator's state.  \<open>None\<close> is a panic or undefined behaviour.
  \<^verbatim>\<open>PAlloc_AllocPage\<close> never returns \<^verbatim>\<open>NULL\<close> (it asserts), so the \<^verbatim>\<open>NULL\<close> checks of its
  callers have no counterpart.
\<close>

section \<open>State and constants\<close>

record vmem = kmem +
  systemAS :: u64
  currentAS :: "nat \<Rightarrow> u64"
  cr3 :: "nat \<Rightarrow> u64"

definition MAX_CPUS :: nat where
  "MAX_CPUS = 16"

definition PGNUMMASK :: u64 where "PGNUMMASK = 0xFFFFFFFFFFFFF000"
definition PGIDXMASK :: u64 where "PGIDXMASK = 511"
definition PGSHIFT :: nat where "PGSHIFT = 12"
definition PGIDXSHIFT :: nat where "PGIDXSHIFT = 9"
definition LARGE_PGSHIFT :: nat where "LARGE_PGSHIFT = 21"
definition LARGE_PGSIZE :: u64 where "LARGE_PGSIZE = 0x200000"
definition LARGE_PGMASK :: u64 where "LARGE_PGMASK = 0x1FFFFF"
definition HUGE_PGSHIFT :: nat where "HUGE_PGSHIFT = 30"
definition HUGE_PGSIZE :: u64 where "HUGE_PGSIZE = 0x40000000"

definition PTE_P :: u64 where "PTE_P = 0x1"
definition PTE_W :: u64 where "PTE_W = 0x2"
definition PTE_U :: u64 where "PTE_U = 0x4"
definition PTE_PCD :: u64 where "PTE_PCD = 0x10"
definition PTE_PS :: u64 where "PTE_PS = 0x80"
definition PTE_NX :: u64 where "PTE_NX = 0x8000000000000000"

definition PAGETABLE_ENTRIES :: nat where
  "PAGETABLE_ENTRIES = 512"

lemmas pmap_consts = PGNUMMASK_def PGIDXMASK_def PGSHIFT_def PGIDXSHIFT_def LARGE_PGSHIFT_def
  LARGE_PGSIZE_def LARGE_PGMASK_def HUGE_PGSHIFT_def HUGE_PGSIZE_def
  PTE_P_def PTE_W_def PTE_U_def PTE_PCD_def PTE_PS_def PTE_NX_def PAGETABLE_ENTRIES_def
  PGSIZE_def PGMASK_def

text \<open>The address of an entry and the table an entry points to.\<close>

definition pte_addr :: "u64 \<Rightarrow> u64 \<Rightarrow> u64" where
  "pte_addr table i = table + 8 * i"

definition pte_table :: "u64 \<Rightarrow> u64" where
  "pte_table pte = DMPA2VA (pte AND PGNUMMASK)"

definition idx_i :: "u64 \<Rightarrow> u64" where
  "idx_i va = drop_bit (HUGE_PGSHIFT + PGIDXSHIFT) va AND PGIDXMASK"

definition idx_j :: "u64 \<Rightarrow> u64" where
  "idx_j va = drop_bit HUGE_PGSHIFT va AND PGIDXMASK"

definition idx_k :: "u64 \<Rightarrow> u64" where
  "idx_k va = drop_bit LARGE_PGSHIFT va AND PGIDXMASK"

definition idx_l :: "u64 \<Rightarrow> u64" where
  "idx_l va = drop_bit PGSHIFT va AND PGIDXMASK"

definition set_word :: "u64 \<Rightarrow> u64 \<Rightarrow> 'a kmem_scheme \<Rightarrow> 'a kmem_scheme" where
  "set_word a v s = s\<lparr>mem := (mem s)(a := v)\<rparr>"

section \<open>Operations\<close>

definition PMap_CurrentAS :: "nat \<Rightarrow> 'a vmem_scheme \<Rightarrow> u64" where
  "PMap_CurrentAS cpu s = currentAS s cpu"

definition PMap_LoadAS :: "nat \<Rightarrow> u64 \<Rightarrow> 'a vmem_scheme \<Rightarrow> 'a vmem_scheme" where
  "PMap_LoadAS cpu space s =
     s\<lparr>cr3 := (cr3 s)(cpu := DMVA2PA (mem s space)), currentAS := (currentAS s)(cpu := space)\<rparr>"

definition PMap_NewAS :: "'a vmem_scheme \<Rightarrow> (u64 \<times> 'a vmem_scheme) option" where
  "PMap_NewAS s = do {
     (as, s) \<leftarrow> PAlloc_AllocPage s;
     (root, s) \<leftarrow> PAlloc_AllocPage s;
     let s = set_word (as + 16) 0 (set_word (as + 8) 1 (set_word as root s));
     s \<leftarrow> for_each [0..<PAGETABLE_ENTRIES div 2]
            (\<lambda>i s. Some (set_word (pte_addr (mem s as) (of_nat i)) 0 s)) s;
     s \<leftarrow> for_each [PAGETABLE_ENTRIES div 2..<PAGETABLE_ENTRIES]
            (\<lambda>i s. Some (set_word (pte_addr (mem s as) (of_nat i))
                     (mem s (pte_addr (mem s (systemAS s)) (of_nat i))) s)) s;
     Some (as, s)
   }"

text \<open>\<^verbatim>\<open>PMap_DestroyAS\<close>: the four nested loops, innermost first.\<close>

definition destroy_l4 :: "u64 \<Rightarrow> nat \<Rightarrow> 'a vmem_scheme \<Rightarrow> 'a vmem_scheme option" where
  "destroy_l4 tbl4 l s =
     (let pte4 = mem s (pte_addr tbl4 (of_nat l)) in
      if pte4 AND PTE_P \<noteq> 0 then PAlloc_Release (pte_table pte4) s else Some s)"

definition destroy_l3 :: "u64 \<Rightarrow> nat \<Rightarrow> 'a vmem_scheme \<Rightarrow> 'a vmem_scheme option" where
  "destroy_l3 tbl3 k s =
     (let pte3 = mem s (pte_addr tbl3 (of_nat k)) in
      if pte3 AND PTE_P \<noteq> 0 then do {
        kassert (pte3 AND PTE_PS = 0);
        s \<leftarrow> for_each [0..<PAGETABLE_ENTRIES] (destroy_l4 (pte_table pte3)) s;
        PAlloc_Release (pte_table pte3) s
      } else Some s)"

definition destroy_l2 :: "u64 \<Rightarrow> nat \<Rightarrow> 'a vmem_scheme \<Rightarrow> 'a vmem_scheme option" where
  "destroy_l2 tbl2 j s =
     (let pte2 = mem s (pte_addr tbl2 (of_nat j)) in
      if pte2 AND PTE_P \<noteq> 0 then do {
        s \<leftarrow> for_each [0..<PAGETABLE_ENTRIES] (destroy_l3 (pte_table pte2)) s;
        PAlloc_Release (pte_table pte2) s
      } else Some s)"

definition destroy_l1 :: "u64 \<Rightarrow> nat \<Rightarrow> 'a vmem_scheme \<Rightarrow> 'a vmem_scheme option" where
  "destroy_l1 space i s =
     (let pte = mem s (pte_addr (mem s space) (of_nat i)) in
      if pte AND PTE_P \<noteq> 0 then do {
        s \<leftarrow> for_each [0..<PAGETABLE_ENTRIES] (destroy_l2 (pte_table pte)) s;
        PAlloc_Release (pte_table pte) s
      } else Some s)"

definition PMap_DestroyAS :: "u64 \<Rightarrow> 'a vmem_scheme \<Rightarrow> 'a vmem_scheme option" where
  "PMap_DestroyAS space s = do {
     s \<leftarrow> for_each [0..<PAGETABLE_ENTRIES div 2] (destroy_l1 space) s;
     PAlloc_Release space s
   }"

definition PMapAllocPageTable :: "'a vmem_scheme \<Rightarrow> (u64 \<times> 'a vmem_scheme) option" where
  "PMapAllocPageTable s = do {
     (pgtbl, s) \<leftarrow> PAlloc_AllocPage s;
     s \<leftarrow> for_each [0..<PAGETABLE_ENTRIES] (\<lambda>i s. Some (set_word (pte_addr pgtbl (of_nat i)) 0 s)) s;
     Some (pgtbl, s)
   }"

definition PMap_Translate :: "u64 \<Rightarrow> u64 \<Rightarrow> 'a vmem_scheme \<Rightarrow> u64 option" where
  "PMap_Translate space va s = do {
     let table = mem s space;
     let pte = mem s (pte_addr table (idx_i va));
     kassert (pte \<noteq> 0);
     let table = pte_table pte;
     let pte = mem s (pte_addr table (idx_j va));
     kassert (pte \<noteq> 0);
     let table = pte_table pte;
     let pte = mem s (pte_addr table (idx_k va));
     if pte AND PTE_PS = PTE_PS
     then Some ((pte AND NOT (LARGE_PGMASK OR PTE_NX)) + (va AND LARGE_PGMASK))
     else do {
       kassert (pte \<noteq> 0);
       let table = pte_table pte;
       let entry = mem s (pte_addr table (idx_l va));
       Some ((entry AND NOT (PGMASK OR PTE_NX)) + (va AND PGMASK))
     }
   }"

text \<open>
  The step that \<^verbatim>\<open>PMapLookupEntry\<close> repeats for each level: read the entry, allocate the
  next table if the entry is empty, and move to that table.
\<close>

definition pmap_descend :: "u64 \<Rightarrow> u64 \<Rightarrow> 'a vmem_scheme \<Rightarrow> (u64 \<times> 'a vmem_scheme) option" where
  "pmap_descend table i s =
     (let pte = mem s (pte_addr table i) in
      if pte = 0 then do {
        (newtable, s) \<leftarrow> PMapAllocPageTable s;
        let pte = DMVA2PA newtable OR PTE_P OR PTE_W OR PTE_U;
        Some (pte_table pte, set_word (pte_addr table i) pte s)
      } else Some (pte_table pte, s))"

definition PMapLookupEntry :: "u64 \<Rightarrow> u64 \<Rightarrow> u64 \<Rightarrow> 'a vmem_scheme \<Rightarrow> (u64 \<times> 'a vmem_scheme) option" where
  "PMapLookupEntry space va sz s = do {
     let table = mem s space;
     (table, s) \<leftarrow> pmap_descend table (idx_i va) s;
     if sz = HUGE_PGSIZE then Some (pte_addr table (idx_j va), s)
     else do {
       (table, s) \<leftarrow> pmap_descend table (idx_j va) s;
       if sz = LARGE_PGSIZE then Some (pte_addr table (idx_k va), s)
       else do {
         (table, s) \<leftarrow> pmap_descend table (idx_k va) s;
         kassert (sz = PGSIZE);
         Some (pte_addr table (idx_l va), s)
       }
     }
   }"

text \<open>
  The mapping loops.  \<^verbatim>\<open>PGSIZE * i\<close> and \<^verbatim>\<open>LARGE_PGSIZE * i\<close> are products of \<^verbatim>\<open>int\<close>s; the
  result is then converted to 64 bits and added to the addresses.
\<close>

definition PMap_Map_page :: "u64 \<Rightarrow> u64 \<Rightarrow> u64 \<Rightarrow> u64 \<Rightarrow> nat \<Rightarrow> 'a vmem_scheme \<Rightarrow> 'a vmem_scheme option" where
  "PMap_Map_page as phys virt flags i s = do {
     off \<leftarrow> cint_mul 4096 (int i);
     (entry, s) \<leftarrow> PMapLookupEntry as (virt + of_int off) PGSIZE s;
     Some (set_word entry ((phys + of_int off) OR PTE_P OR PTE_W OR PTE_U OR flags) s)
   }"

definition PMap_Map :: "u64 \<Rightarrow> u64 \<Rightarrow> u64 \<Rightarrow> u64 \<Rightarrow> u64 \<Rightarrow> 'a vmem_scheme \<Rightarrow> 'a vmem_scheme option" where
  "PMap_Map as phys virt pages flags =
     for_each [0..<unat pages] (PMap_Map_page as phys virt flags)"

text \<open>\<^verbatim>\<open>PMap_Unmap\<close> stops at \<^verbatim>\<open>NOT_IMPLEMENTED\<close> in the first iteration.\<close>

definition PMap_Unmap :: "u64 \<Rightarrow> u64 \<Rightarrow> u64 \<Rightarrow> 'a vmem_scheme \<Rightarrow> 'a vmem_scheme option" where
  "PMap_Unmap as va pages =
     for_each [0..<unat pages] (\<lambda>i s. do {
       off \<leftarrow> cint_mul 4096 (int i);
       (entry, s) \<leftarrow> PMapLookupEntry as (va + of_int off) PGSIZE s;
       kassert False;
       Some (set_word entry 0 s)
     })"

definition PMap_AllocMap :: "u64 \<Rightarrow> u64 \<Rightarrow> u64 \<Rightarrow> u64 \<Rightarrow> 'a vmem_scheme \<Rightarrow> 'a vmem_scheme option" where
  "PMap_AllocMap as virt len flags s = do {
     let pages = (len + PGSIZE - 1) div PGSIZE;
     kassert (virt AND PGMASK = 0);
     for_each [0..<unat pages] (\<lambda>i s. do {
       off \<leftarrow> cint_mul 4096 (int i);
       (entry, s) \<leftarrow> PMapLookupEntry as (virt + of_int off) PGSIZE s;
       if mem s entry AND PTE_P \<noteq> PTE_P then do {
         (pg, s) \<leftarrow> PAlloc_AllocPage s;
         Some (set_word entry (DMVA2PA pg OR PTE_P OR PTE_U OR flags) s)
       } else Some s
     }) s
   }"

definition PMap_SystemLookup :: "u64 \<Rightarrow> u64 \<Rightarrow> 'a vmem_scheme \<Rightarrow> (u64 \<times> 'a vmem_scheme) option" where
  "PMap_SystemLookup va sz s = PMapLookupEntry (systemAS s) va sz s"

definition PMap_SystemLMap :: "u64 \<Rightarrow> u64 \<Rightarrow> u64 \<Rightarrow> u64 \<Rightarrow> 'a vmem_scheme \<Rightarrow> 'a vmem_scheme option" where
  "PMap_SystemLMap phys virt lpages flags =
     for_each [0..<unat lpages] (\<lambda>i s. do {
       off \<leftarrow> cint_mul 0x200000 (int i);
       (entry, s) \<leftarrow> PMapLookupEntry (systemAS s) (virt + of_int off) LARGE_PGSIZE s;
       Some (set_word entry ((phys + of_int off) OR PTE_P OR PTE_W OR PTE_PS OR flags) s)
     })"

definition PMap_SystemMap :: "u64 \<Rightarrow> u64 \<Rightarrow> u64 \<Rightarrow> u64 \<Rightarrow> 'a vmem_scheme \<Rightarrow> 'a vmem_scheme option" where
  "PMap_SystemMap phys virt pages flags =
     for_each [0..<unat pages] (\<lambda>i s. do {
       off \<leftarrow> cint_mul 4096 (int i);
       (entry, s) \<leftarrow> PMapLookupEntry (systemAS s) (virt + of_int off) PGSIZE s;
       Some (set_word entry ((phys + of_int off) OR PTE_P OR PTE_W OR flags) s)
     })"

definition PMap_SystemUnmap :: "u64 \<Rightarrow> u64 \<Rightarrow> 'a vmem_scheme \<Rightarrow> 'a vmem_scheme option" where
  "PMap_SystemUnmap virt pages s = None"

definition PMap_Init :: "'a vmem_scheme \<Rightarrow> 'a vmem_scheme option" where
  "PMap_Init s = do {
     let s = s\<lparr>currentAS := (\<lambda>c. if c < MAX_CPUS then 0 else currentAS s c)\<rparr>;
     (root, s) \<leftarrow> PAlloc_AllocPage s;
     let s = set_word (systemAS s) root s;
     let s = set_word (systemAS s + 8) (of_nat (PAGETABLE_ENTRIES div 2 + 1)) s;
     let s = set_word (systemAS s + 16) 0 s;
     s \<leftarrow> for_each [0..<PAGETABLE_ENTRIES div 2]
            (\<lambda>i s. Some (set_word (pte_addr (mem s (systemAS s)) (of_nat i)) 0 s)) s;
     s \<leftarrow> for_each [PAGETABLE_ENTRIES div 2..<PAGETABLE_ENTRIES]
            (\<lambda>i s. do {
               (pgtbl, s) \<leftarrow> PAlloc_AllocPage s;
               let pte = DMVA2PA pgtbl OR PTE_W OR PTE_P;
               let s = set_word (pte_addr (mem s (systemAS s)) (of_nat i)) pte s;
               for_each [0..<PAGETABLE_ENTRIES]
                 (\<lambda>j s. Some (set_word (pte_addr pgtbl (of_nat j)) 0 s)) s
             }) s;
     s \<leftarrow> PMap_SystemLMap 0 MEM_DIRECTMAP_BASE (3 * 512) 0 s;
     s \<leftarrow> PMap_SystemLMap 0xC0000000 (MEM_DIRECTMAP_BASE + 0xC0000000) 512 (PTE_NX OR PTE_PCD) s;
     s \<leftarrow> PMap_SystemLMap 0x100000000 (MEM_DIRECTMAP_BASE + 0x100000000) (60 * 512) 0 s;
     Some (PMap_LoadAS 0 (systemAS s) s)
   }"

definition PMap_InitAP :: "nat \<Rightarrow> 'a vmem_scheme \<Rightarrow> 'a vmem_scheme" where
  "PMap_InitAP cpu s = PMap_LoadAS cpu (systemAS s) s"

definition AddrFromIJKL :: "u64 \<Rightarrow> u64 \<Rightarrow> u64 \<Rightarrow> u64 \<Rightarrow> u64" where
  "AddrFromIJKL i j k l = push_bit 39 i OR push_bit HUGE_PGSHIFT j OR
     push_bit LARGE_PGSHIFT k OR push_bit PGSHIFT l"

section \<open>Entries and indices\<close>

lemma PGNUMMASK_mask: "PGNUMMASK = NOT (mask 12)"
  by (simp add: PGNUMMASK_def mask_eq_exp_minus_1)

lemma PGMASK_mask: "PGMASK = mask 12"
  by (simp add: PGMASK_def mask_eq_exp_minus_1)

lemma pte_flags_mask: "PTE_P OR PTE_W OR PTE_U = mask 3"
  by (simp add: PTE_P_def PTE_W_def PTE_U_def mask_eq_exp_minus_1)

lemma pte_table_entry:
  assumes "pg_aligned t"
  shows "pte_table (DMVA2PA t OR PTE_P OR PTE_W OR PTE_U) = t"
proof -
  have "(DMVA2PA t OR mask 3) AND NOT (mask 12) = DMVA2PA t"
    by (rule or_mask_and_not_mask [OF pg_aligned_bit [OF DMVA2PA_aligned [OF assms]]]) simp_all
  then show ?thesis
    unfolding pte_table_def PGNUMMASK_mask pte_flags_mask by (simp add: DMPA2VA_def DMVA2PA_def)
qed

lemma pte_entry_present: "DMVA2PA t OR PTE_P OR PTE_W OR PTE_U \<noteq> 0"
  unfolding pte_flags_mask
  by (rule bit_nonzero [of _ 0]) (simp add: bit_or_iff bit_mask_iff del: mask_numeral)

lemma PTE_PS_bit: "x AND PTE_PS = 0 \<longleftrightarrow> \<not> bit x 7"
proof -
  have "PTE_PS = 2 ^ 7" by (simp add: PTE_PS_def)
  then show ?thesis unfolding \<open>PTE_PS = 2 ^ 7\<close> by (intro and_exp_eq_0_iff_not_bit)
qed

lemma PTE_PS_and: "x AND PTE_PS = 0 \<or> x AND PTE_PS = PTE_PS"
proof -
  have ps: "PTE_PS = 2 ^ 7" by (simp add: PTE_PS_def)
  show ?thesis unfolding ps and_exp_word by (cases "bit x 7") (simp_all only: if_True if_False simp_thms)
qed

lemma pte_entry_not_PS:
  assumes "pg_aligned t"
  shows "(DMVA2PA t OR PTE_P OR PTE_W OR PTE_U) AND PTE_PS = 0"
  using pg_aligned_bit [OF DMVA2PA_aligned [OF assms], of 7]
  unfolding PTE_PS_bit pte_flags_mask by (simp add: bit_or_iff bit_mask_iff del: mask_numeral)

lemma and_PGIDXMASK: "x AND PGIDXMASK < 512"
  using word_and_le1 [of x PGIDXMASK] by (simp add: PGIDXMASK_def word_le_def word_less_def)

lemma idx_bound [simp]: "idx_i va < 512" "idx_j va < 512" "idx_k va < 512" "idx_l va < 512"
  by (simp_all add: idx_i_def idx_j_def idx_k_def idx_l_def and_PGIDXMASK)

section \<open>Well-formed page tables\<close>

text \<open>
  \<open>walk m t is\<close> is the table reached from table \<open>t\<close> along the indices \<open>is\<close>; an empty
  entry or a large-page entry ends the walk.
\<close>

fun walk :: "(u64 \<Rightarrow> u64) \<Rightarrow> u64 \<Rightarrow> u64 list \<Rightarrow> u64 option" where
  "walk m t [] = Some t"
| "walk m t (i # is) =
     (let pte = m (pte_addr t i) in
      if pte = 0 \<or> pte AND PTE_PS \<noteq> 0 then None else walk m (pte_table pte) is)"

abbreviation pt_path :: "u64 list \<Rightarrow> bool" where
  "pt_path p \<equiv> length p \<le> 3 \<and> (\<forall>i\<in>set p. i < 512)"

abbreviation pt_walk :: "u64 \<Rightarrow> 'a kmem_scheme \<Rightarrow> u64 list \<Rightarrow> u64 option" where
  "pt_walk as s \<equiv> walk (mem s) (mem s as)"

text \<open>
  An address space is well formed when its tables are held pages of the allocator, form a
  tree (no table is reached along two paths), have large pages at the third level only, and
  no table and no free page overlaps the root pointer.
\<close>

definition pt_wf :: "u64 set \<Rightarrow> u64 \<Rightarrow> 'a kmem_scheme \<Rightarrow> bool" where
  "pt_wf P as s \<longleftrightarrow>
     palloc_inv P s \<and>
     (\<forall>p t. pt_path p \<longrightarrow> pt_walk as s p = Some t \<longrightarrow>
        t \<in> P \<and> pg_refs t s \<noteq> 0 \<and> \<not> as - t < PGSIZE) \<and>
     (\<forall>p q t. pt_path p \<longrightarrow> pt_path q \<longrightarrow> pt_walk as s p = Some t \<longrightarrow>
        pt_walk as s q = Some t \<longrightarrow> p = q) \<and>
     (\<forall>p t i. pt_path p \<longrightarrow> length p \<le> 1 \<longrightarrow> i < 512 \<longrightarrow>
        pt_walk as s p = Some t \<longrightarrow> mem s (pte_addr t i) AND PTE_PS = 0) \<and>
     (\<forall>q\<in>P. pg_refs q s = 0 \<longrightarrow> \<not> as - q < PGSIZE)"

lemma pt_wfD:
  assumes "pt_wf P as s"
  shows "palloc_inv P s"
    and "pt_path p \<Longrightarrow> pt_walk as s p = Some t \<Longrightarrow> t \<in> P"
    and "pt_path p \<Longrightarrow> pt_walk as s p = Some t \<Longrightarrow> pg_refs t s \<noteq> 0"
    and "pt_path p \<Longrightarrow> pt_walk as s p = Some t \<Longrightarrow> \<not> as - t < PGSIZE"
    and "pt_path p \<Longrightarrow> pt_walk as s p = Some t \<Longrightarrow> pg_aligned t"
    and "pt_path p \<Longrightarrow> pt_path q \<Longrightarrow> pt_walk as s p = Some t \<Longrightarrow> pt_walk as s q = Some t \<Longrightarrow> p = q"
    and "pt_path p \<Longrightarrow> length p \<le> 1 \<Longrightarrow> i < 512 \<Longrightarrow> pt_walk as s p = Some t \<Longrightarrow>
           mem s (pte_addr t i) AND PTE_PS = 0"
    and "r \<in> P \<Longrightarrow> pg_refs r s = 0 \<Longrightarrow> \<not> as - r < PGSIZE"
  using assms unfolding pt_wf_def palloc_inv_def by blast+

lemma walk_append: "walk m t (p @ q) = walk m t p \<bind> (\<lambda>u. walk m u q)"
  by (induction p arbitrary: t) (auto simp: Let_def)

lemma walk_snoc:
  "walk m t (p @ [i]) = (case walk m t p of None \<Rightarrow> None | Some u \<Rightarrow>
     let pte = m (pte_addr u i) in
     if pte = 0 \<or> pte AND PTE_PS \<noteq> 0 then None else Some (pte_table pte))"
  by (simp add: walk_append Let_def split: option.splits)

lemma walk_entry_update:
  fixes m m' :: "u64 \<Rightarrow> u64"
  assumes pth: "walk m r p = Some t" "pt_path p" "i < 512"
    and same: "\<And>q u x. pt_path q \<Longrightarrow> walk m r q = Some u \<Longrightarrow> x < 512 \<Longrightarrow> (q, x) \<noteq> (p, i) \<Longrightarrow>
                 m' (pte_addr u x) = m (pte_addr u x)"
    and q: "pt_path q" "\<not> prefix (p @ [i]) q"
  shows "walk m' r q = walk m r q"
  using q
proof (induction q rule: rev_induct)
  case Nil
  then show ?case by simp
next
  case (snoc x q)
  then have np: "\<not> prefix (p @ [i]) q" by (meson prefix_order.trans prefixI)
  with snoc have IH: "walk m' r q = walk m r q" by simp
  show ?case
  proof (cases "walk m r q")
    case None
    with IH show ?thesis by (simp add: walk_snoc)
  next
    case (Some u)
    have "(q, x) \<noteq> (p, i)" using snoc.prems by auto
    with same [of q u x] Some snoc.prems have "m' (pte_addr u x) = m (pte_addr u x)" by auto
    with IH Some show ?thesis by (simp add: walk_snoc)
  qed
qed

text \<open>\<open>s'\<close> extends the page tables of \<open>s\<close>: tables are added, no entry in use changes.\<close>

definition pt_ext :: "u64 \<Rightarrow> 'a vmem_scheme \<Rightarrow> 'a vmem_scheme \<Rightarrow> bool" where
  "pt_ext as s s' \<longleftrightarrow>
     mem s' as = mem s as \<and> systemAS s' = systemAS s \<and>
     (\<forall>q u. pt_path q \<longrightarrow> pt_walk as s q = Some u \<longrightarrow> pt_walk as s' q = Some u) \<and>
     (\<forall>q u x. pt_path q \<longrightarrow> x < 512 \<longrightarrow> pt_walk as s q = Some u \<longrightarrow>
        length q = 3 \<or> mem s (pte_addr u x) \<noteq> 0 \<longrightarrow> mem s' (pte_addr u x) = mem s (pte_addr u x)) \<and>
     (\<forall>q u x. pt_path q \<longrightarrow> length q = 2 \<longrightarrow> x < 512 \<longrightarrow> pt_walk as s' q = Some u \<longrightarrow>
        mem s' (pte_addr u x) AND PTE_PS \<noteq> 0 \<longrightarrow>
        pt_walk as s q = Some u \<and> mem s (pte_addr u x) = mem s' (pte_addr u x))"

lemma pt_ext_refl [simp]: "pt_ext as s s"
  by (simp add: pt_ext_def)

lemma pt_extD:
  assumes "pt_ext as s s'"
  shows "mem s' as = mem s as" and "systemAS s' = systemAS s"
    and "pt_path q \<Longrightarrow> pt_walk as s q = Some u \<Longrightarrow> pt_walk as s' q = Some u"
    and "pt_path q \<Longrightarrow> x < 512 \<Longrightarrow> pt_walk as s q = Some u \<Longrightarrow>
        length q = 3 \<or> mem s (pte_addr u x) \<noteq> 0 \<Longrightarrow> mem s' (pte_addr u x) = mem s (pte_addr u x)"
    and "pt_path q \<Longrightarrow> length q = 2 \<Longrightarrow> x < 512 \<Longrightarrow> pt_walk as s' q = Some u \<Longrightarrow>
        mem s' (pte_addr u x) AND PTE_PS \<noteq> 0 \<Longrightarrow>
        pt_walk as s q = Some u \<and> mem s (pte_addr u x) = mem s' (pte_addr u x)"
  using assms unfolding pt_ext_def by blast+

lemma pt_ext_trans:
  assumes 1: "pt_ext as s1 s2" and 2: "pt_ext as s2 s3"
  shows "pt_ext as s1 s3"
  unfolding pt_ext_def
proof (intro conjI allI impI)
  show "mem s3 as = mem s1 as" "systemAS s3 = systemAS s1"
    using pt_extD(1,2) [OF 1] pt_extD(1,2) [OF 2] by simp_all
  fix q u and x :: u64
  assume q: "pt_path q"
  show "pt_walk as s1 q = Some u \<Longrightarrow> pt_walk as s3 q = Some u"
    using pt_extD(3) [OF 1 q] pt_extD(3) [OF 2 q] by blast
  assume x: "x < 512"
  show "mem s3 (pte_addr u x) = mem s1 (pte_addr u x)"
    if w: "pt_walk as s1 q = Some u" and c: "length q = 3 \<or> mem s1 (pte_addr u x) \<noteq> 0"
    using pt_extD(4) [OF 1 q x w c] pt_extD(4) [OF 2 q x pt_extD(3) [OF 1 q w]] c by simp
  assume l: "length q = 2" and w: "pt_walk as s3 q = Some u" and ps: "mem s3 (pte_addr u x) AND PTE_PS \<noteq> 0"
  note a = pt_extD(5) [OF 2 q l x w ps]
  note b = pt_extD(5) [OF 1 q l x]
  show "pt_walk as s1 q = Some u" "mem s1 (pte_addr u x) = mem s3 (pte_addr u x)"
    using a b [of u] ps by simp_all
qed

lemma PMapAllocPageTable_eq:
  fixes s :: "'a vmem_scheme"
  assumes "palloc_inv P s" and "freeList s = nt # rest"
  shows "PMapAllocPageTable s = Some (nt, s\<lparr>freeList := rest,
           pageInfo := (pageInfo s)(PAllocGetInfo nt := 1), freePages := freePages s - 1,
           mem := memset_page (mem s) nt\<rparr>)" (is "_ = Some (nt, ?s')")
proof -
  from PAlloc_AllocPage_cases [OF assms] have a: "PAlloc_AllocPage s = Some (nt, ?s')" by auto
  have "for_each [0..<PAGETABLE_ENTRIES] (\<lambda>i s. Some (set_word (pte_addr nt (of_nat i)) 0 s)) ?s' = Some ?s'"
  proof (rule for_each_skip)
    fix i assume "i \<in> set [0..<PAGETABLE_ENTRIES]"
    then have "(of_nat i :: u64) < 512" by (simp add: PAGETABLE_ENTRIES_def word_less_nat_alt unat_of_nat)
    then have "memset_page (mem s) nt (nt + 8 * of_nat i) = 0"
      by (simp add: word_index_lt_page)
    then show "Some (set_word (pte_addr nt (of_nat i)) 0 ?s') = Some ?s'"
      by (simp add: set_word_def pte_addr_def fun_upd_idem)
  qed
  with a show ?thesis by (simp add: PMapAllocPageTable_def)
qed

lemma pte_addr_in_page: "x < 512 \<Longrightarrow> pte_addr t x - t < PGSIZE"
  by (simp add: pte_addr_def word_index_lt_page)

lemma pte_addr_inj:
  "pg_aligned t \<Longrightarrow> pg_aligned u \<Longrightarrow> x < 512 \<Longrightarrow> y < 512 \<Longrightarrow>
     pte_addr t x = pte_addr u y \<longleftrightarrow> t = u \<and> x = y"
  by (simp add: pte_addr_def table_entry_inj)

lemma pte_addr_not_in_page:
  assumes "pg_aligned t" "pg_aligned u" "x < 512" "t \<noteq> u"
  shows "\<not> pte_addr t x - u < PGSIZE"
proof
  assume "pte_addr t x - u < PGSIZE"
  moreover have "t + 8 * x = u + (pte_addr t x - u)" by (simp add: pte_addr_def)
  ultimately show False
    using pg_offset_inj [OF assms(1,2) word_index_lt_page [OF assms(3)]] assms(4) by blast
qed

text \<open>Linking a cleared new table \<open>nt\<close> into the empty entry \<open>i\<close> of the table at path \<open>p\<close>.\<close>

lemma pt_new_table:
  fixes s :: "'a vmem_scheme"
  assumes wf: "pt_wf P as s" and w: "pt_walk as s p = Some t" and p: "pt_path (p @ [i])"
    and z: "mem s (pte_addr t i) = 0" and nt: "nt \<in> P" "pg_refs nt s = 0"
    and m': "m' = (memset_page (mem s) nt)(pte_addr t i := DMVA2PA nt OR PTE_P OR PTE_W OR PTE_U)"
    and x: "x < 512"
  shows "m' (pte_addr nt x) = 0"
    and "pt_path q \<Longrightarrow> pt_walk as s q = Some u \<Longrightarrow> (q, x) \<noteq> (p, i) \<Longrightarrow>
           m' (pte_addr u x) = mem s (pte_addr u x)"
    and "m' as = mem s as"
proof -
  have pp: "pt_path p" and i: "i < 512" using p by auto
  note T = pt_wfD(2-5) [OF wf pp w]
  have al: "pg_aligned nt" using pt_wfD(1) [OF wf] nt by (simp add: palloc_inv_def)
  have "nt \<noteq> t" using T nt by auto
  then have "pte_addr nt x \<noteq> pte_addr t i" using pte_addr_inj [OF al T(4) x i] by simp
  with x show "m' (pte_addr nt x) = 0" by (simp add: m' pte_addr_in_page)
  have "as \<noteq> pte_addr t i" using T(3) i pte_addr_in_page by blast
  moreover have "\<not> as - nt < PGSIZE" using pt_wfD(8) [OF wf] nt by blast
  ultimately show "m' as = mem s as" by (simp add: m' memset_page_def)
  assume q: "pt_path q" and wq: "pt_walk as s q = Some u" and ne: "(q, x) \<noteq> (p, i)"
  note U = pt_wfD(2-5) [OF wf q wq]
  have "u \<noteq> nt" using U nt by auto
  then have 1: "\<not> pte_addr u x - nt < PGSIZE" by (rule pte_addr_not_in_page [OF U(4) al x])
  have "u = t \<Longrightarrow> q = p" using pt_wfD(6) [OF wf q pp wq] w by blast
  then have "pte_addr u x \<noteq> pte_addr t i" using ne pte_addr_inj [OF U(4) T(4) x i] by auto
  with 1 show "m' (pte_addr u x) = mem s (pte_addr u x)" by (simp add: m' memset_page_def)
qed

lemma pt_new_walk:
  fixes s :: "'a vmem_scheme"
  assumes wf: "pt_wf P as s" and w: "pt_walk as s p = Some t" and p: "pt_path (p @ [i])"
    and z: "mem s (pte_addr t i) = 0" and nt: "nt \<in> P" "pg_refs nt s = 0"
    and m': "m' = (memset_page (mem s) nt)(pte_addr t i := DMVA2PA nt OR PTE_P OR PTE_W OR PTE_U)"
    and q: "pt_path q"
  shows "walk m' (mem s as) q =
     (if q = p @ [i] then Some nt else if prefix (p @ [i]) q then None else pt_walk as s q)"
proof -
  note new = pt_new_table [OF wf w p z nt m']
  have pp: "pt_path p" and i: "i < 512" using p by auto
  have al: "pg_aligned nt" using pt_wfD(1) [OF wf] nt by (simp add: palloc_inv_def)
  have other: "walk m' (mem s as) q' = pt_walk as s q'" if "pt_path q'" "\<not> prefix (p @ [i]) q'" for q'
    using walk_entry_update [OF w pp i _ that] new(2) by blast
  have at: "walk m' (mem s as) (p @ [i]) = Some nt"
    using other [of p] pp w pte_entry_present [of nt] pte_entry_not_PS [OF al] pte_table_entry [OF al]
    by (simp add: walk_snoc m')
  show ?thesis
  proof (cases "prefix (p @ [i]) q \<and> q \<noteq> p @ [i]")
    case True
    then obtain x ys where e: "q = (p @ [i]) @ x # ys"
      by (metis append_Nil2 neq_Nil_conv prefixE)
    with q have "x < 512" by auto
    then have "walk m' nt (x # ys) = None" by (simp add: new(1))
    with e at show ?thesis by (simp only: walk_append) simp
  next
    case False
    with other [OF q] at show ?thesis by auto
  qed
qed

lemma pt_new_wf:
  fixes s :: "'a vmem_scheme"
  assumes wf: "pt_wf P as s" and w: "pt_walk as s p = Some t" and p: "pt_path (p @ [i])"
    and z: "mem s (pte_addr t i) = 0" and nt: "nt \<in> P" "pg_refs nt s = 0"
    and m': "mem s' = (memset_page (mem s) nt)(pte_addr t i := DMVA2PA nt OR PTE_P OR PTE_W OR PTE_U)"
    and inv': "palloc_inv P s'" and refs: "pageInfo s' = (pageInfo s)(PAllocGetInfo nt := 1)"
  shows "pt_wf P as s'"
proof -
  note new = pt_new_table [OF wf w p z nt m'] and walk' = pt_new_walk [OF wf w p z nt m']
  have pp: "pt_path p" and i: "i < 512" using p by auto
  have al: "pg_aligned nt" using pt_wfD(1) [OF wf] nt by (simp add: palloc_inv_def)
  have as': "mem s' as = mem s as" using new(3) by (metis i)
  have refs': "pg_refs u s' \<noteq> 0" if "pg_refs u s \<noteq> 0" for u using that by (simp add: refs)
  have cases: "q = p @ [i] \<and> u = nt \<or> \<not> prefix (p @ [i]) q \<and> pt_walk as s q = Some u"
    if "pt_path q" "pt_walk as s' q = Some u" for q u
    using that(2) walk' [OF that(1)] unfolding as' by (auto split: if_splits)
  have nas: "\<not> as - nt < PGSIZE" using pt_wfD(8) [OF wf] nt by blast
  have A: "u \<in> P \<and> pg_refs u s' \<noteq> 0 \<and> \<not> as - u < PGSIZE"
    if "pt_path q" "pt_walk as s' q = Some u" for q u
    using cases [OF that] nt nas pt_wfD(2-4) [OF wf that(1)] refs' by (auto simp: refs)
  have B: "q = r" if "pt_path q" "pt_path r" "pt_walk as s' q = Some u" "pt_walk as s' r = Some u" for q r u
    using cases [OF that(1,3)] cases [OF that(2,4)] pt_wfD(6) [OF wf that(1,2)]
      pt_wfD(3) [OF wf that(1)] pt_wfD(3) [OF wf that(2)] nt(2) by blast
  have D: "mem s' (pte_addr u x) AND PTE_PS = 0"
    if "pt_path q" "length q \<le> 1" "x < 512" "pt_walk as s' q = Some u" for q u x
    using cases [OF that(1,4)]
  proof (elim disjE conjE)
    assume "u = nt"
    then show ?thesis using new(1) that(3) by simp
  next
    assume wq: "pt_walk as s q = Some u"
    show ?thesis
    proof (cases "(q, x) = (p, i)")
      case True
      with wq w have "u = t" by simp
      with True show ?thesis using pte_entry_not_PS [OF al] by (simp add: m')
    next
      case False
      with new(2) [OF that(3,1) wq] pt_wfD(7) [OF wf that(1-3) wq] show ?thesis by simp
    qed
  qed
  have E: "\<not> as - q < PGSIZE" if "q \<in> P" "pg_refs q s' = 0" for q
    using pt_wfD(8) [OF wf that(1)] that(2) refs' by blast
  show ?thesis unfolding pt_wf_def using inv' A B D E by blast
qed

lemma pt_new_ext:
  fixes s s' :: "'a vmem_scheme"
  assumes wf: "pt_wf P as s" and w: "pt_walk as s p = Some t" and p: "pt_path (p @ [i])"
    and z: "mem s (pte_addr t i) = 0" and nt: "nt \<in> P" "pg_refs nt s = 0"
    and m': "mem s' = (memset_page (mem s) nt)(pte_addr t i := DMVA2PA nt OR PTE_P OR PTE_W OR PTE_U)"
    and sys: "systemAS s' = systemAS s"
  shows "pt_ext as s s'"
proof -
  note new = pt_new_table [OF wf w p z nt m'] and walk' = pt_new_walk [OF wf w p z nt m']
  have pp: "pt_path p" and i: "i < 512" and len: "length p < 3" using p by auto
  have al: "pg_aligned nt" using pt_wfD(1) [OF wf] nt by (simp add: palloc_inv_def)
  have as': "mem s' as = mem s as" using new(3) by (metis i)
  have gone: "pt_walk as s q = None" if "prefix (p @ [i]) q" for q
    using that w z by (auto simp: prefix_def walk_append)
  have W: "pt_walk as s' q = Some u" if "pt_path q" "pt_walk as s q = Some u" for q u
    using walk' [OF that(1)] gone [of q] that(2) unfolding as' by auto
  have E: "mem s' (pte_addr u x) = mem s (pte_addr u x)"
    if "pt_path q" "x < 512" "pt_walk as s q = Some u" "length q = 3 \<or> mem s (pte_addr u x) \<noteq> 0" for q u x
  proof -
    have "(q, x) \<noteq> (p, i)" using that(3,4) w z len by auto
    then show ?thesis using new(2) that(1-3) by blast
  qed
  have L: "pt_walk as s q = Some u \<and> mem s (pte_addr u x) = mem s' (pte_addr u x)"
    if q: "pt_path q" "length q = 2" "x < 512" "pt_walk as s' q = Some u"
      and ps: "mem s' (pte_addr u x) AND PTE_PS \<noteq> 0" for q u x
  proof -
    have "u \<noteq> nt" using ps new(1) [OF q(3)] by auto
    with walk' [OF q(1)] q(4) have wq: "pt_walk as s q = Some u" unfolding as' by (simp split: if_splits)
    have "(q, x) \<noteq> (p, i)"
      using ps wq w pte_entry_not_PS [OF al] by (auto simp: m')
    with new(2) [OF q(3,1) wq] wq show ?thesis by simp
  qed
  show ?thesis unfolding pt_ext_def using as' sys W E L by blast
qed

lemma set_word_simps [simp]:
  "mem (set_word a v s) = (mem s)(a := v)"
  "pageInfo (set_word a v s) = pageInfo s" "freeList (set_word a v s) = freeList s"
  "freePages (set_word a v s) = freePages s" "totalPages (set_word a v s) = totalPages s"
  by (simp_all add: set_word_def)

lemma set_word_systemAS [simp]: "systemAS (set_word a v s) = systemAS s"
  by (simp add: set_word_def)

lemma palloc_inv_set_word:
  assumes inv: "palloc_inv P s" and t: "t \<in> P" "pg_refs t s \<noteq> 0" and a: "a - t < PGSIZE"
  shows "palloc_inv P (set_word a v s)"
proof -
  have "p \<noteq> a" if "p \<in> set (freeList s)" for p
  proof
    assume "p = a"
    have "p \<in> P" "pg_refs p s = 0" using inv that by (auto simp: palloc_inv_def)
    then have "\<not> p - t < PGSIZE"
      using inv t by (intro pg_aligned_apart) (auto simp: palloc_inv_def)
    with a \<open>p = a\<close> show False by simp
  qed
  with inv show ?thesis by (auto simp: palloc_inv_def)
qed

lemma pmap_descend_wf:
  assumes wf: "pt_wf P as s" and w: "pt_walk as s p = Some t" and p: "pt_path (p @ [i])"
    and ps: "mem s (pte_addr t i) AND PTE_PS = 0" and fr: "freeList s \<noteq> []"
  shows "\<exists>t' s'. pmap_descend t i s = Some (t', s') \<and> pt_wf P as s' \<and> pt_ext as s s' \<and>
           pt_walk as s' (p @ [i]) = Some t' \<and> length (freeList s) \<le> Suc (length (freeList s')) \<and>
           suffix (freeList s') (freeList s)"
proof (cases "mem s (pte_addr t i) = 0")
  case False
  with w ps have "pt_walk as s (p @ [i]) = Some (pte_table (mem s (pte_addr t i)))"
    by (simp add: walk_snoc)
  with False wf show ?thesis by (auto simp: pmap_descend_def)
next
  case True
  obtain nt rest where fl: "freeList s = nt # rest" using fr by (auto simp: neq_Nil_conv)
  have inv: "palloc_inv P s" using pt_wfD(1) [OF wf] .
  have nt: "nt \<in> P" "pg_refs nt s = 0" using inv fl by (auto simp: palloc_inv_def)
  have al: "pg_aligned nt" using inv nt by (simp add: palloc_inv_def)
  have pp: "pt_path p" and i: "i < 512" using p by auto
  note T = pt_wfD(2-5) [OF wf pp w]
  define s1 where "s1 = s\<lparr>freeList := rest, pageInfo := (pageInfo s)(PAllocGetInfo nt := 1),
    freePages := freePages s - 1, mem := memset_page (mem s) nt\<rparr>"
  define s' where "s' = set_word (pte_addr t i) (DMVA2PA nt OR PTE_P OR PTE_W OR PTE_U) s1"
  have a: "PMapAllocPageTable s = Some (nt, s1)"
    unfolding s1_def by (rule PMapAllocPageTable_eq [OF inv fl])
  have d: "pmap_descend t i s = Some (nt, s')"
    using True a pte_table_entry [OF al] by (simp add: pmap_descend_def s'_def Let_def)
  obtain s2 where "PAlloc_AllocPage s = Some (nt, s2)" and
    s2: "s2 = s\<lparr>freeList := rest, pageInfo := (pageInfo s)(PAllocGetInfo nt := 1),
      freePages := freePages s - 1, mem := memset_page ((mem s)(nt := FREEPAGE_MAGIC_INUSE)) nt\<rparr>"
    using PAlloc_AllocPage_cases [OF inv fl] by blast
  then have "palloc_inv P s2" using PAlloc_AllocPage_inv [OF inv] by blast
  moreover have "s2 = s1" by (simp add: s2 s1_def)
  ultimately have inv1: "palloc_inv P s1" by simp
  have "t \<noteq> nt" using T nt by auto
  then have "pg_refs t s1 \<noteq> 0" using T(2) by (simp add: s1_def)
  then have inv': "palloc_inv P s'"
    unfolding s'_def by (rule palloc_inv_set_word [OF inv1 T(1) _ pte_addr_in_page [OF i]])
  have m': "mem s' = (memset_page (mem s) nt)(pte_addr t i := DMVA2PA nt OR PTE_P OR PTE_W OR PTE_U)"
    and r': "pageInfo s' = (pageInfo s)(PAllocGetInfo nt := 1)" and sys: "systemAS s' = systemAS s"
    by (simp_all add: s'_def s1_def)
  have "mem s' as = mem s as" using pt_new_table(3) [OF wf w p True nt m' i] .
  then have "pt_walk as s' (p @ [i]) = Some nt"
    using pt_new_walk [OF wf w p True nt m' p] by simp
  moreover have "length (freeList s) \<le> Suc (length (freeList s'))" by (simp add: fl s'_def s1_def)
  moreover have "suffix (freeList s') (freeList s)" by (simp add: fl s'_def s1_def suffix_ConsI)
  ultimately show ?thesis
    using d pt_new_wf [OF wf w p True nt m' inv' r'] pt_new_ext [OF wf w p True nt m' sys] by blast
qed

text \<open>The address is not inside a large page.\<close>

definition pt_small :: "u64 \<Rightarrow> u64 \<Rightarrow> 'a kmem_scheme \<Rightarrow> bool" where
  "pt_small as va s \<longleftrightarrow>
     (case pt_walk as s [idx_i va, idx_j va] of None \<Rightarrow> True
      | Some t \<Rightarrow> mem s (pte_addr t (idx_k va)) AND PTE_PS = 0)"

lemma pt_small_ext:
  assumes "pt_ext as s s'" and "pt_small as va s"
  shows "pt_small as va s'"
proof (cases "pt_walk as s' [idx_i va, idx_j va]")
  case None
  then show ?thesis by (simp add: pt_small_def)
next
  case (Some u)
  have "mem s' (pte_addr u (idx_k va)) AND PTE_PS = 0"
  proof (rule ccontr)
    assume "mem s' (pte_addr u (idx_k va)) AND PTE_PS \<noteq> 0"
    note ps = this
    have "pt_walk as s [idx_i va, idx_j va] = Some u \<and>
        mem s (pte_addr u (idx_k va)) = mem s' (pte_addr u (idx_k va))"
      using pt_extD(5) [OF assms(1) _ _ _ Some ps] by simp
    with ps assms(2) show False unfolding pt_small_def by (simp del: walk.simps)
  qed
  with Some show ?thesis by (simp add: pt_small_def)
qed

lemma PMapLookupEntry_wf:
  assumes wf: "pt_wf P as s" and sm: "pt_small as va s" and fr: "3 \<le> length (freeList s)"
  shows "\<exists>t s'. PMapLookupEntry as va PGSIZE s = Some (pte_addr t (idx_l va), s') \<and>
           pt_wf P as s' \<and> pt_ext as s s' \<and> pt_walk as s' [idx_i va, idx_j va, idx_k va] = Some t \<and>
           length (freeList s) \<le> 3 + length (freeList s') \<and> suffix (freeList s') (freeList s)"
proof -
  have ps0: "mem s (pte_addr (mem s as) (idx_i va)) AND PTE_PS = 0"
    by (rule pt_wfD(7) [OF wf, of "[]"]) simp_all
  have "freeList s \<noteq> []" using fr by auto
  from pmap_descend_wf [OF wf _ _ ps0 this, of "[]"]
  obtain t1 s1 where 1: "pmap_descend (mem s as) (idx_i va) s = Some (t1, s1)" "pt_wf P as s1"
    "pt_ext as s s1" "pt_walk as s1 [idx_i va] = Some t1" "length (freeList s) \<le> Suc (length (freeList s1))" "suffix (freeList s1) (freeList s)"
    by auto
  have ps1: "mem s1 (pte_addr t1 (idx_j va)) AND PTE_PS = 0"
    by (rule pt_wfD(7) [OF 1(2) _ _ _ 1(4)]) simp_all
  have "freeList s1 \<noteq> []" using fr 1(5) by auto
  from pmap_descend_wf [OF 1(2,4) _ ps1 this]
  obtain t2 s2 where 2: "pmap_descend t1 (idx_j va) s1 = Some (t2, s2)" "pt_wf P as s2"
    "pt_ext as s1 s2" "pt_walk as s2 [idx_i va, idx_j va] = Some t2"
    "length (freeList s1) \<le> Suc (length (freeList s2))" "suffix (freeList s2) (freeList s1)"
    by auto
  have ps2: "mem s2 (pte_addr t2 (idx_k va)) AND PTE_PS = 0"
    using pt_small_ext [OF 2(3) pt_small_ext [OF 1(3) sm]] 2(4) by (simp add: pt_small_def)
  have "freeList s2 \<noteq> []" using fr 1(5) 2(5) by auto
  from pmap_descend_wf [OF 2(2,4) _ ps2 this]
  obtain t3 s3 where 3: "pmap_descend t2 (idx_k va) s2 = Some (t3, s3)" "pt_wf P as s3"
    "pt_ext as s2 s3" "pt_walk as s3 [idx_i va, idx_j va, idx_k va] = Some t3"
    "length (freeList s2) \<le> Suc (length (freeList s3))" "suffix (freeList s3) (freeList s2)"
    by auto
  have sz: "PGSIZE \<noteq> HUGE_PGSIZE" "PGSIZE \<noteq> LARGE_PGSIZE"
    by (simp_all add: PGSIZE_def HUGE_PGSIZE_def LARGE_PGSIZE_def)
  have "PMapLookupEntry as va PGSIZE s = Some (pte_addr t3 (idx_l va), s3)"
    using sz by (simp add: PMapLookupEntry_def 1(1) 2(1) 3(1))
  moreover have "pt_ext as s s3" using 1(3) 2(3) 3(3) pt_ext_trans by blast
  moreover have "suffix (freeList s3) (freeList s)" using 1(6) 2(6) 3(6) suffix_order.trans by blast
  moreover have "length (freeList s) \<le> 3 + length (freeList s3)" using 1(5) 2(5) 3(5) by simp
  ultimately show ?thesis using 3(2,4) by blast
qed

text \<open>Writing an entry of a last-level table.\<close>

lemma pt_leaf_write:
  fixes s :: "'a vmem_scheme" and v :: u64
  assumes wf: "pt_wf P as s" and w: "pt_walk as s p = Some t" and p: "pt_path p" "length p = 3"
    and l: "l < 512"
  defines "s' \<equiv> set_word (pte_addr t l) v s"
  shows "pt_wf P as s'"
    and "pt_path q \<Longrightarrow> pt_walk as s' q = pt_walk as s q"
    and "pt_path q \<Longrightarrow> pt_walk as s q = Some u \<Longrightarrow> x < 512 \<Longrightarrow> (q, x) \<noteq> (p, l) \<Longrightarrow>
           mem s' (pte_addr u x) = mem s (pte_addr u x)"
proof -
  note T = pt_wfD(2-5) [OF wf p(1) w]
  have other: "mem s' (pte_addr u x) = mem s (pte_addr u x)"
    if "pt_path q" "pt_walk as s q = Some u" "x < 512" "(q, x) \<noteq> (p, l)" for q u x
  proof -
    have "u = t \<Longrightarrow> q = p" using pt_wfD(6) [OF wf that(1) p(1) that(2)] w by blast
    then have "pte_addr u x \<noteq> pte_addr t l"
      using that(4) pte_addr_inj [OF pt_wfD(5) [OF wf that(1,2)] T(4) that(3) l] by auto
    then show ?thesis by (simp add: s'_def)
  qed
  then show "pt_path q \<Longrightarrow> pt_walk as s q = Some u \<Longrightarrow> x < 512 \<Longrightarrow> (q, x) \<noteq> (p, l) \<Longrightarrow>
           mem s' (pte_addr u x) = mem s (pte_addr u x)" .
  have as': "mem s' as = mem s as" using T(3) l pte_addr_in_page by (auto simp: s'_def)
  have walk': "pt_walk as s' q = pt_walk as s q" if "pt_path q" for q
  proof -
    have "\<not> prefix (p @ [l]) q" using that p(2) by (auto simp: prefix_def)
    from walk_entry_update [OF w p(1) l _ that this] other show ?thesis unfolding as' by blast
  qed
  then show "pt_path q \<Longrightarrow> pt_walk as s' q = pt_walk as s q" .
  have "palloc_inv P s'"
    unfolding s'_def by (rule palloc_inv_set_word [OF pt_wfD(1) [OF wf] T(1,2) pte_addr_in_page [OF l]])
  moreover have "mem s' (pte_addr u x) AND PTE_PS = 0"
    if "pt_path q" "length q \<le> 1" "x < 512" "pt_walk as s q = Some u" for q u x
  proof -
    have "(q, x) \<noteq> (p, l)" using that(2) p(2) by auto
    with other [OF that(1,4,3)] pt_wfD(7) [OF wf that] show ?thesis by simp
  qed
  moreover have "pageInfo s' = pageInfo s" by (simp add: s'_def)
  ultimately show "pt_wf P as s'"
    unfolding pt_wf_def using walk' pt_wfD(2-4,6,8) [OF wf] by simp blast
qed

abbreviation pt_idx :: "u64 \<Rightarrow> u64 list" where
  "pt_idx va \<equiv> [idx_i va, idx_j va, idx_k va]"

lemma PMap_Translate_small:
  assumes wf: "pt_wf P as s" and w: "pt_walk as s (pt_idx va) = Some t"
  shows "PMap_Translate as va s =
     Some ((mem s (pte_addr t (idx_l va)) AND NOT (PGMASK OR PTE_NX)) + (va AND PGMASK))"
proof -
  have "PTE_PS \<noteq> 0" by (simp add: PTE_PS_def)
  then show ?thesis using w by (auto simp: PMap_Translate_def Let_def split: if_splits)
qed

lemma PMap_Translate_cases:
  assumes wf: "pt_wf P as s" and tr: "PMap_Translate as va s = Some pa"
  obtains (small) t where "pt_walk as s (pt_idx va) = Some t"
    | (large) t where "pt_walk as s [idx_i va, idx_j va] = Some t"
        "mem s (pte_addr t (idx_k va)) AND PTE_PS = PTE_PS"
        "pa = (mem s (pte_addr t (idx_k va)) AND NOT (LARGE_PGMASK OR PTE_NX)) + (va AND LARGE_PGMASK)"
proof -
  let ?e1 = "mem s (pte_addr (mem s as) (idx_i va))"
  let ?e2 = "mem s (pte_addr (pte_table ?e1) (idx_j va))"
  let ?e3 = "mem s (pte_addr (pte_table ?e2) (idx_k va))"
  have nz: "?e1 \<noteq> 0" "?e2 \<noteq> 0" using tr by (auto simp: PMap_Translate_def Let_def)
  have "?e1 AND PTE_PS = 0" by (rule pt_wfD(7) [OF wf, of "[]"]) simp_all
  with nz have w1: "pt_walk as s [idx_i va] = Some (pte_table ?e1)" by simp
  have "?e2 AND PTE_PS = 0" by (rule pt_wfD(7) [OF wf _ _ _ w1]) simp_all
  with nz w1 have w2: "pt_walk as s [idx_i va, idx_j va] = Some (pte_table ?e2)"
    using walk_snoc [of "mem s" "mem s as" "[idx_i va]" "idx_j va"] by (simp del: walk.simps)
  show thesis
  proof (cases "?e3 AND PTE_PS = PTE_PS")
    case True
    show thesis
    proof (rule large [OF w2 True])
      show "pa = (?e3 AND NOT (LARGE_PGMASK OR PTE_NX)) + (va AND LARGE_PGMASK)"
        using tr True nz by (simp add: PMap_Translate_def Let_def)
    qed
  next
    case False
    have "?e3 AND PTE_PS = 0" using False PTE_PS_and by blast
    moreover have "?e3 \<noteq> 0" using tr False nz by (auto simp: PMap_Translate_def Let_def)
    ultimately have "pt_walk as s (pt_idx va) = Some (pte_table ?e3)"
      using w2 walk_snoc [of "mem s" "mem s as" "[idx_i va, idx_j va]" "idx_k va"]
      by (simp del: walk.simps)
    then show thesis by (rule small)
  qed
qed
lemma PMap_Translate_large:
  assumes wf: "pt_wf P as s" and w: "pt_walk as s [idx_i va, idx_j va] = Some t"
    and ps: "mem s (pte_addr t (idx_k va)) AND PTE_PS = PTE_PS"
  shows "PMap_Translate as va s =
     Some ((mem s (pte_addr t (idx_k va)) AND NOT (LARGE_PGMASK OR PTE_NX)) + (va AND LARGE_PGMASK))"
  using w ps by (auto simp: PMap_Translate_def Let_def split: if_splits)

lemma PMap_Translate_ext:
  assumes wf: "pt_wf P as s" "pt_wf P as s'" and ext: "pt_ext as s s'"
    and tr: "PMap_Translate as va s = Some pa"
  shows "PMap_Translate as va s' = Some pa"
  using wf(1) tr
proof (cases rule: PMap_Translate_cases)
  case (small t)
  have w': "pt_walk as s' (pt_idx va) = Some t" by (rule pt_extD(3) [OF ext _ small]) simp
  have "mem s' (pte_addr t (idx_l va)) = mem s (pte_addr t (idx_l va))"
    by (rule pt_extD(4) [OF ext _ _ small]) simp_all
  with PMap_Translate_small [OF wf(1) small] PMap_Translate_small [OF wf(2) w'] tr
  show ?thesis by simp
next
  case (large t)
  have "mem s (pte_addr t (idx_k va)) \<noteq> 0" using large(2) by (auto simp: PTE_PS_def)
  then have e: "mem s' (pte_addr t (idx_k va)) = mem s (pte_addr t (idx_k va))"
    by (intro pt_extD(4) [OF ext _ _ large(1)]) simp_all
  have w': "pt_walk as s' [idx_i va, idx_j va] = Some t" by (rule pt_extD(3) [OF ext _ large(1)]) simp
  from PMap_Translate_large [OF wf(2) w'] e large show ?thesis by simp
qed

definition va_page :: "u64 \<Rightarrow> u64 list" where
  "va_page va = [idx_i va, idx_j va, idx_k va, idx_l va]"

lemma va_page_eq: "va_page va = va_page va' \<longleftrightarrow> pt_idx va = pt_idx va' \<and> idx_l va = idx_l va'"
  by (auto simp: va_page_def)

lemma PMap_Translate_leaf:
  fixes s :: "'a vmem_scheme" and v :: u64
  assumes wf: "pt_wf P as s" and w: "pt_walk as s (pt_idx va) = Some t"
  defines "s' \<equiv> set_word (pte_addr t (idx_l va)) v s"
  shows "va_page va' = va_page va \<Longrightarrow>
           PMap_Translate as va' s' = Some ((v AND NOT (PGMASK OR PTE_NX)) + (va' AND PGMASK))"
    and "va_page va' \<noteq> va_page va \<Longrightarrow> PMap_Translate as va' s = Some pa \<Longrightarrow>
           PMap_Translate as va' s' = Some pa"
proof -
  have pth: "pt_path (pt_idx va)" "length (pt_idx va) = 3" and l: "idx_l va < 512" by simp_all
  note L = pt_leaf_write [OF wf w pth l, where v = v, folded s'_def]
  have walk': "pt_walk as s' q = pt_walk as s q" if "pt_path q" for q
    using L(2) [OF that] .
  show "PMap_Translate as va' s' = Some ((v AND NOT (PGMASK OR PTE_NX)) + (va' AND PGMASK))"
    if e: "va_page va' = va_page va"
  proof -
    have i: "pt_idx va' = pt_idx va" "idx_l va' = idx_l va" using e by (simp_all only: va_page_eq)
    have "pt_walk as s' (pt_idx va') = Some t" using walk' [OF pth(1)] w unfolding i by simp
    from PMap_Translate_small [OF L(1) this] show ?thesis by (simp add: i(2) s'_def)
  qed
  assume ne: "va_page va' \<noteq> va_page va" and tr: "PMap_Translate as va' s = Some pa"
  from wf tr show "PMap_Translate as va' s' = Some pa"
  proof (cases rule: PMap_Translate_cases)
    case (small u)
    have q: "pt_path (pt_idx va')" by simp
    have w': "pt_walk as s' (pt_idx va') = Some u" using walk' [OF q] small by simp
    have "(pt_idx va', idx_l va') \<noteq> (pt_idx va, idx_l va)" using ne unfolding va_page_eq by simp
    then have "mem s' (pte_addr u (idx_l va')) = mem s (pte_addr u (idx_l va'))"
      by (intro L(3) [OF q small]) simp_all
    with PMap_Translate_small [OF wf small] PMap_Translate_small [OF L(1) w'] tr show ?thesis by simp
  next
    case (large u)
    have q: "pt_path [idx_i va', idx_j va']" by simp
    have w': "pt_walk as s' [idx_i va', idx_j va'] = Some u" using walk' [OF q] large(1) by simp
    have "mem s' (pte_addr u (idx_k va')) = mem s (pte_addr u (idx_k va'))"
      by (intro L(3) [OF q large(1)]) simp_all
    with PMap_Translate_large [OF L(1) w'] large show ?thesis by simp
  qed
qed

lemma pt_small_leaf:
  fixes s :: "'a vmem_scheme"
  assumes wf: "pt_wf P as s" and w: "pt_walk as s (pt_idx va) = Some t" and sm: "pt_small as va' s"
  shows "pt_small as va' (set_word (pte_addr t (idx_l va)) v s)"
proof -
  have pth: "pt_path (pt_idx va)" "length (pt_idx va) = 3" and l: "idx_l va < 512" by simp_all
  note L = pt_leaf_write [OF wf w pth l, where v = v]
  have q: "pt_path [idx_i va', idx_j va']" by simp
  show ?thesis
  proof (cases "pt_walk as s [idx_i va', idx_j va']")
    case None
    with L(2) [OF q] show ?thesis unfolding pt_small_def by (simp del: walk.simps)
  next
    case (Some u)
    have "mem (set_word (pte_addr t (idx_l va)) v s) (pte_addr u (idx_k va')) = mem s (pte_addr u (idx_k va'))"
      by (intro L(3) [OF q Some]) simp_all
    with L(2) [OF q] Some sm show ?thesis unfolding pt_small_def by (simp del: walk.simps)
  qed
qed

section \<open>Mapping ranges\<close>

definition pa_mask :: u64 where
  "pa_mask = PGMASK OR PTE_NX"

lemma pa_mask_flags: "(PTE_P OR PTE_W OR PTE_U) AND NOT pa_mask = 0"
  by (simp add: pa_mask_def PTE_P_def PTE_W_def PTE_U_def PGMASK_def PTE_NX_def)

lemma or_flags_and_not:
  fixes x f m :: u64
  assumes "x AND m = 0" and "f AND NOT m = 0"
  shows "(x OR f) AND NOT m = x"
proof (rule bit_eqI)
  fix n assume "possible_bit TYPE(64 word) n"
  have "\<not> bit (x AND m) n" "\<not> bit (f AND NOT m) n" using assms by simp_all
  then have "\<not> (bit x n \<and> bit m n)" and "n < 64 \<Longrightarrow> \<not> (bit f n \<and> \<not> bit m n)"
    by (simp_all add: bit_and_iff bit_not_iff)
  then show "bit ((x OR f) AND NOT m) n = bit x n"
    using bit_imp_le_length [of x n]
    by (auto simp: bit_and_iff bit_or_iff bit_not_iff dest: bit_imp_le_length)
qed

lemma pte_phys:
  assumes "phys AND pa_mask = 0" and "flags AND NOT pa_mask = 0"
  shows "(phys OR PTE_P OR PTE_W OR PTE_U OR flags) AND NOT (PGMASK OR PTE_NX) = phys"
proof -
  have "(PTE_P OR PTE_W OR PTE_U OR flags) AND NOT pa_mask = 0"
    using assms(2) pa_mask_flags by (simp add: bit.conj_disj_distrib2 or.assoc [symmetric])
  from or_flags_and_not [OF assms(1) this] show ?thesis by (simp add: pa_mask_def)
qed

lemma idx_take_bit:
  "idx_i va = take_bit 9 (drop_bit 39 va)" "idx_j va = take_bit 9 (drop_bit 30 va)"
  "idx_k va = take_bit 9 (drop_bit 21 va)" "idx_l va = take_bit 9 (drop_bit 12 va)"
  by (simp_all add: idx_i_def idx_j_def idx_k_def idx_l_def pmap_consts take_bit_eq_mask
      mask_eq_exp_minus_1)

lemma va_page_bits:
  assumes "va_page x = va_page y"
  shows "take_bit 36 (drop_bit 12 x) = take_bit 36 (drop_bit 12 y)"
proof (rule bit_eqI)
  fix n assume "possible_bit TYPE(64 word) n"
  have "bit (take_bit 9 (drop_bit m x)) (n - k) = bit (take_bit 9 (drop_bit m y)) (n - k)"
    if "m \<in> {12, 21, 30, 39}" for k m
    using assms that by (auto simp: va_page_def idx_take_bit)
  from this [of 12 0] this [of 21 9] this [of 30 18] this [of 39 27]
  have b: "n < 9 \<Longrightarrow> bit x (12 + n) = bit y (12 + n)"
    "9 \<le> n \<Longrightarrow> n < 18 \<Longrightarrow> bit x (12 + n) = bit y (12 + n)"
    "18 \<le> n \<Longrightarrow> n < 27 \<Longrightarrow> bit x (12 + n) = bit y (12 + n)"
    "27 \<le> n \<Longrightarrow> n < 36 \<Longrightarrow> bit x (12 + n) = bit y (12 + n)"
    by (auto simp: bit_take_bit_iff bit_drop_bit_eq)
  then have "n < 36 \<Longrightarrow> bit x (12 + n) = bit y (12 + n)" by linarith
  then show "bit (take_bit 36 (drop_bit 12 x)) n = bit (take_bit 36 (drop_bit 12 y)) n"
    by (auto simp: bit_take_bit_iff bit_drop_bit_eq)
qed

lemma page_number_mod:
  "uint (take_bit 36 (drop_bit 12 (virt + of_int (4096 * k) :: u64))) = (uint virt div 4096 + k) mod 2 ^ 36"
proof -
  have u: "uint (virt + of_int (4096 * k) :: u64) = (uint virt + 4096 * k) mod 2 ^ 64"
    by (simp add: uint_word_ariths unsigned_of_int take_bit_eq_mod mod_simps)
  have "(uint virt + 4096 * k) mod 2 ^ 64 div 2 ^ 12 = (uint virt + 4096 * k) div 2 ^ 12 mod 2 ^ 52"
    using drop_bit_take_bit [of 12 64 "uint virt + 4096 * k"]
    by (simp add: take_bit_eq_mod drop_bit_eq_div)
  then have "((uint virt + 4096 * k) mod 2 ^ 64) div 2 ^ 12 mod 2 ^ 36 = (uint virt div 4096 + k) mod 2 ^ 36"
    by (simp add: mod_mod_cancel add.commute)
  then show ?thesis
    by (simp only: unsigned_take_bit_eq unsigned_drop_bit_eq u) (simp add: take_bit_eq_mod drop_bit_eq_div)
qed

lemma va_page_inj:
  assumes "va_page (virt + of_int (4096 * j)) = va_page (virt + of_int (4096 * k))"
    and "0 \<le> j" "j < 2 ^ 36" "0 \<le> k" "k < 2 ^ 36"
  shows "j = k"
proof -
  have "(uint virt div 4096 + j) mod 2 ^ 36 = (uint virt div 4096 + k) mod 2 ^ 36"
    using va_page_bits [OF assms(1)] page_number_mod by metis
  then have "(uint virt div 4096 + j - uint virt div 4096) mod 2 ^ 36
      = (uint virt div 4096 + k - uint virt div 4096) mod 2 ^ 36"
    by (rule mod_diff_cong) simp
  with assms(2-5) show ?thesis by simp
qed


text \<open>One page: look the entry up, then write it.\<close>

lemma map_page:
  fixes s :: "'a vmem_scheme"
  assumes wf: "pt_wf P as s" and sm: "pt_small as va s" and fr: "3 \<le> length (freeList s)"
  obtains t s1 where "PMapLookupEntry as va PGSIZE s = Some (pte_addr t (idx_l va), s1)"
    and "pt_wf P as (set_word (pte_addr t (idx_l va)) v s1)"
    and "\<And>va'. va_page va' = va_page va \<Longrightarrow>
           PMap_Translate as va' (set_word (pte_addr t (idx_l va)) v s1) =
           Some ((v AND NOT (PGMASK OR PTE_NX)) + (va' AND PGMASK))"
    and "\<And>va' pa. va_page va' \<noteq> va_page va \<Longrightarrow> PMap_Translate as va' s = Some pa \<Longrightarrow>
           PMap_Translate as va' (set_word (pte_addr t (idx_l va)) v s1) = Some pa"
    and "\<And>va'. pt_small as va' s \<Longrightarrow> pt_small as va' (set_word (pte_addr t (idx_l va)) v s1)"
    and "length (freeList s) \<le> 3 + length (freeList s1)" and "suffix (freeList s1) (freeList s)"
proof -
  from PMapLookupEntry_wf [OF assms] obtain t s1 where
    1: "PMapLookupEntry as va PGSIZE s = Some (pte_addr t (idx_l va), s1)"
    "pt_wf P as s1" "pt_ext as s s1" "pt_walk as s1 (pt_idx va) = Some t"
    "length (freeList s) \<le> 3 + length (freeList s1)" "suffix (freeList s1) (freeList s)" by blast
  have wf': "pt_wf P as (set_word (pte_addr t (idx_l va)) v s1)"
    by (rule pt_leaf_write(1) [OF 1(2,4)]) simp_all
  show thesis
    using that [OF 1(1) wf' PMap_Translate_leaf(1) [OF 1(2,4)] PMap_Translate_leaf(2) [OF 1(2,4)]
        pt_small_leaf [OF 1(2,4)] 1(5,6)]
      PMap_Translate_ext [OF wf 1(2,3)] pt_small_ext [OF 1(3)] by blast
qed

text \<open>The loop of \<^verbatim>\<open>PMap_Map\<close>, for the pages from \<open>j\<close> up to \<open>n\<close>.\<close>

abbreviation nth_page :: "u64 \<Rightarrow> nat \<Rightarrow> u64" where
  "nth_page a i \<equiv> a + of_int (4096 * int i)"

lemma map_loop:
  assumes "pt_wf P as s" and "j \<le> n" and "n \<le> 2 ^ 19"
    and "\<And>i. i < n \<Longrightarrow> pt_small as (nth_page virt i) s"
    and "\<And>i. i < n \<Longrightarrow> nth_page phys i AND pa_mask = 0" and "flags AND NOT pa_mask = 0"
    and "3 * (n - j) \<le> length (freeList s)"
  shows "\<exists>s'. for_each [j..<n] (PMap_Map_page as phys virt flags) s = Some s' \<and> pt_wf P as s' \<and>
     (\<forall>i va. j \<le> i \<longrightarrow> i < n \<longrightarrow> va_page va = va_page (nth_page virt i) \<longrightarrow>
        PMap_Translate as va s' = Some (nth_page phys i + (va AND PGMASK))) \<and>
     (\<forall>va pa. (\<forall>i. j \<le> i \<longrightarrow> i < n \<longrightarrow> va_page va \<noteq> va_page (nth_page virt i)) \<longrightarrow>
        PMap_Translate as va s = Some pa \<longrightarrow> PMap_Translate as va s' = Some pa)"
  using assms
proof (induction "n - j" arbitrary: j s)
  case 0
  then show ?case by simp
next
  case (Suc d)
  let ?va = "nth_page virt j"
  let ?v = "nth_page phys j OR PTE_P OR PTE_W OR PTE_U OR flags"
  have j: "j < n" using Suc.hyps(2) by simp
  then have r: "[j..<n] = j # [Suc j..<n]" by (rule upt_conv_Cons)
  have "3 \<le> length (freeList s)" using Suc.prems(7) j by simp
  note mp = map_page [OF Suc.prems(1) Suc.prems(4) [OF j] this, where v = ?v]
  obtain t s1 where
    1: "PMapLookupEntry as ?va PGSIZE s = Some (pte_addr t (idx_l ?va), s1)"
      "pt_wf P as (set_word (pte_addr t (idx_l ?va)) ?v s1)"
    and tr: "\<And>va'. va_page va' = va_page ?va \<Longrightarrow>
           PMap_Translate as va' (set_word (pte_addr t (idx_l ?va)) ?v s1) =
           Some ((?v AND NOT (PGMASK OR PTE_NX)) + (va' AND PGMASK))"
    and fr: "\<And>va' pa. va_page va' \<noteq> va_page ?va \<Longrightarrow> PMap_Translate as va' s = Some pa \<Longrightarrow>
           PMap_Translate as va' (set_word (pte_addr t (idx_l ?va)) ?v s1) = Some pa"
    and sm: "\<And>va'. pt_small as va' s \<Longrightarrow> pt_small as va' (set_word (pte_addr t (idx_l ?va)) ?v s1)"
    and len: "length (freeList s) \<le> 3 + length (freeList s1)" and "suffix (freeList s1) (freeList s)"
    by (rule mp) (rule that)
  define s2 where "s2 = set_word (pte_addr t (idx_l ?va)) ?v s1"
  note tr = tr [folded s2_def] and fr = fr [folded s2_def] and sm = sm [folded s2_def]
  have mul: "cint_mul 4096 (int j) = Some (4096 * int j)" using j Suc.prems(3) by (simp add: cint_mul_def)
  have st: "PMap_Map_page as phys virt flags j s = Some s2"
    by (simp only: PMap_Map_page_def mul bind.bind_lunit 1(1) prod.case s2_def)
  have v: "?v AND NOT (PGMASK OR PTE_NX) = nth_page phys j"
    by (rule pte_phys [OF Suc.prems(5) [OF j] Suc.prems(6)])
  have "pt_wf P as s2" using 1(2) by (simp only: s2_def)
  moreover have "3 * (n - Suc j) \<le> length (freeList s2)" using Suc.prems(7) len j by (simp add: s2_def)
  ultimately obtain s' where s': "for_each [Suc j..<n] (PMap_Map_page as phys virt flags) s2 = Some s'" "pt_wf P as s'"
    "\<forall>i va. Suc j \<le> i \<longrightarrow> i < n \<longrightarrow> va_page va = va_page (nth_page virt i) \<longrightarrow>
        PMap_Translate as va s' = Some (nth_page phys i + (va AND PGMASK))"
    "\<forall>va pa. (\<forall>i. Suc j \<le> i \<longrightarrow> i < n \<longrightarrow> va_page va \<noteq> va_page (nth_page virt i)) \<longrightarrow>
        PMap_Translate as va s2 = Some pa \<longrightarrow> PMap_Translate as va s' = Some pa"
    using Suc.hyps(1) [of "Suc j" s2] Suc.hyps(2) Suc.prems(3,5,6) j sm [OF Suc.prems(4)] by fastforce
  have other: "va_page va \<noteq> va_page (nth_page virt i)"
    if "Suc j \<le> i" "i < n" "va_page va = va_page ?va" for i va
    using va_page_inj [of virt "int j" "int i"] that Suc.prems(3) j by auto
  show ?case
  proof (intro exI conjI allI impI)
    show "for_each [j..<n] (PMap_Map_page as phys virt flags) s = Some s'"
      unfolding r using st s'(1) by (simp only: for_each.simps bind.bind_lunit)
    show "pt_wf P as s'" by (rule s'(2))
    fix i va
    assume i: "j \<le> i" "i < n" "va_page va = va_page (nth_page virt i)"
    show "PMap_Translate as va s' = Some (nth_page phys i + (va AND PGMASK))"
    proof (cases "i = j")
      case True
      with tr [of va] v i have "PMap_Translate as va s2 = Some (nth_page phys i + (va AND PGMASK))" by simp
      with s'(4) other True i show ?thesis by blast
    next
      case False
      with s'(3) i show ?thesis by simp
    qed
  next
    fix va pa
    assume "\<forall>i. j \<le> i \<longrightarrow> i < n \<longrightarrow> va_page va \<noteq> va_page (nth_page virt i)"
      and "PMap_Translate as va s = Some pa"
    with fr j s'(4) show "PMap_Translate as va s' = Some pa" by simp
  qed
qed

lemma pa_mask_clear:
  assumes "pg_aligned x" and "unat x < 2 ^ 63"
  shows "x AND pa_mask = 0"
proof -
  have nx: "PTE_NX = 2 ^ 63" by (simp add: PTE_NX_def)
  have "take_bit 63 (unat x) = unat x" using assms(2) by (rule take_bit_nat_eq_self)
  then have "\<not> bit (unat x) 63" by (metis bit_take_bit_iff less_irrefl)
  then have "\<not> bit x 63" by (simp add: bit_unsigned_iff)
  then have "x AND PTE_NX = 0" unfolding nx by (simp only: and_exp_word if_False)
  moreover have "x AND PGMASK = 0"
    using assms(1) unfolding pg_aligned_take_bit PGMASK_mask by (simp only: take_bit_eq_mask)
  ultimately show ?thesis by (simp add: pa_mask_def bit.conj_disj_distrib)
qed

lemma nth_page_aligned: "pg_aligned a \<Longrightarrow> pg_aligned (nth_page a i)"
proof (rule pg_aligned_add)
  show "pg_aligned (of_int (4096 * int i))"
    by (simp add: pg_aligned_uint uint_word_ariths mod_mod_cancel)
qed

lemma nth_page_unat:
  assumes "unat a + 4096 * i < 2 ^ 64"
  shows "unat (nth_page a i) = unat a + 4096 * i"
proof -
  have "nth_page a i = a + of_nat (4096 * i)" by simp
  then show ?thesis using assms by (simp add: unat_word_ariths unsigned_of_nat take_bit_eq_mod)
qed

lemma nth_page_pa_mask:
  assumes "pg_aligned a" and "unat a + 4096 * n \<le> 2 ^ 63" and "i < n"
  shows "nth_page a i AND pa_mask = 0"
proof (rule pa_mask_clear [OF nth_page_aligned [OF assms(1)]])
  show "unat (nth_page a i) < 2 ^ 63" using assms nth_page_unat [of a i] by simp
qed

text \<open>
  C2. In a well-formed address space with three free pages for each page to map,
  \<^verbatim>\<open>PMap_Map\<close> succeeds for up to 2^19 pages.  Afterwards every address of the \<open>i\<close>-th
  virtual page translates to the same offset of the \<open>i\<close>-th physical page, every other
  translation is as before, and the address space is again well formed.
\<close>

theorem pmap_map_translate:
  assumes "pt_wf P as s"
    and "unat pages \<le> 2 ^ 19" and "3 * unat pages \<le> length (freeList s)"
    and "\<forall>i < unat pages. pt_small as (nth_page virt i) s"
    and "pg_aligned phys" and "unat phys + 4096 * unat pages \<le> 2 ^ 63"
    and "flags AND NOT (PGMASK OR PTE_NX) = 0"
  shows "\<exists>s'. PMap_Map as phys virt pages flags s = Some s' \<and> pt_wf P as s' \<and>
     (\<forall>i va. i < unat pages \<longrightarrow> va_page va = va_page (nth_page virt i) \<longrightarrow>
        PMap_Translate as va s' = Some (nth_page phys i + (va AND PGMASK))) \<and>
     (\<forall>va pa. (\<forall>i < unat pages. va_page va \<noteq> va_page (nth_page virt i)) \<longrightarrow>
        PMap_Translate as va s = Some pa \<longrightarrow> PMap_Translate as va s' = Some pa)"
proof -
  have "\<And>i. i < unat pages \<Longrightarrow> nth_page phys i AND pa_mask = 0"
    using nth_page_pa_mask [OF assms(5,6)] .
  from map_loop [of P as s 0 "unat pages" virt phys flags, OF assms(1) _ assms(2) _ this] assms(3,4,7)
  show ?thesis unfolding PMap_Map_def by (simp add: pa_mask_def)
qed

definition vmem_state :: "'a \<Rightarrow> 'a vmem_scheme" where
  "vmem_state ext = \<lparr>totalPages = 5, freePages = 4, pageInfo = (\<lambda>_. 0)(1 := 1),
     pageInfoTable = 0, pageInfoLength = 0, pageInfoXMem = None,
     freeList = [0xFFFF800000002000, 0xFFFF800000003000, 0xFFFF800000004000, 0xFFFF800000005000],
     mem = (\<lambda>a. if a = 0xFFFF800000100000 then 0xFFFF800000001000
               else if a \<in> {0xFFFF800000002000, 0xFFFF800000003000, 0xFFFF800000004000, 0xFFFF800000005000}
               then FREEPAGE_MAGIC_FREE else 0),
     systemAS = 0xFFFF800000100000, currentAS = (\<lambda>_. 0), cr3 = (\<lambda>_. 0), \<dots> = ext\<rparr>"

abbreviation vmem_example :: vmem where
  "vmem_example \<equiv> vmem_state ()"

definition vpages_example :: "u64 set" where
  "vpages_example = {0xFFFF800000001000, 0xFFFF800000002000, 0xFFFF800000003000, 0xFFFF800000004000,
     0xFFFF800000005000}"

lemma vmem_state_refs:
  "pg_refs 0xFFFF800000001000 (vmem_state ext) = 1"
  "p \<in> set (freeList (vmem_state ext)) \<Longrightarrow> pg_refs p (vmem_state ext) = 0"
  by (auto simp: vmem_state_def PAllocGetInfo_def DMVA2PA_def MEM_DIRECTMAP_BASE_def PGSIZE_def)

lemma vpages_example_free:
  "vpages_example = insert 0xFFFF800000001000 (set (freeList (vmem_state ext)))"
  by (simp add: vpages_example_def vmem_state_def)

lemma vmem_state_inv: "palloc_inv vpages_example (vmem_state ext)"
proof -
  have "set (freeList (vmem_state ext)) = {p \<in> vpages_example. pg_refs p (vmem_state ext) = 0}"
    using vmem_state_refs(1) [of ext] vmem_state_refs(2) [of _ ext] unfolding vpages_example_free [of ext] by auto
  moreover have "\<forall>p\<in>vpages_example. pg_aligned p"
    by (simp add: vpages_example_def pg_aligned_def PGSIZE_def)
  moreover have "card vpages_example = 5" "finite vpages_example" by (simp_all add: vpages_example_def)
  moreover have "\<forall>p\<in>set (freeList (vmem_state ext)). mem (vmem_state ext) p = FREEPAGE_MAGIC_FREE"
    "distinct (freeList (vmem_state ext))" "unat (freePages (vmem_state ext)) = length (freeList (vmem_state ext))"
    "unat (totalPages (vmem_state ext)) = 5"
    by (simp_all add: vmem_state_def)
  ultimately show ?thesis unfolding palloc_inv_def by metis
qed

lemma vmem_state_entry:
  assumes "i < 512"
  shows "mem (vmem_state ext) (pte_addr 0xFFFF800000001000 i) = 0"
proof -
  have "pte_addr 0xFFFF800000001000 i \<noteq> p"
    if "p \<in> {0xFFFF800000100000, 0xFFFF800000002000, 0xFFFF800000003000, 0xFFFF800000004000, 0xFFFF800000005000}" for p
    using that pte_addr_inj [of "0xFFFF800000001000" p i 0] assms
    by (auto simp: pg_aligned_def PGSIZE_def pte_addr_def)
  then show ?thesis by (simp add: vmem_state_def)
qed

lemma vmem_state_walk:
  "pt_path p \<Longrightarrow> pt_walk 0xFFFF800000100000 (vmem_state ext) p = (if p = [] then Some 0xFFFF800000001000 else None)"
  using vmem_state_entry [where ext = ext] by (cases p) (auto simp: vmem_state_def)

lemma vmem_state_wf: "pt_wf vpages_example 0xFFFF800000100000 (vmem_state ext)"
proof -
  show ?thesis
    unfolding pt_wf_def using vmem_state_refs(1) [of ext] vmem_state_inv [of ext] vmem_state_walk [where ext = ext] vmem_state_entry [where ext = ext]
    by (auto simp: vpages_example_def PGSIZE_def split: if_splits)
qed

lemma vmem_state_small: "pt_small 0xFFFF800000100000 va (vmem_state ext)"
  unfolding pt_small_def by (simp add: vmem_state_walk del: walk.simps)

theorem pmap_map_translate_witness:
  "\<exists>s'. PMap_Map 0xFFFF800000100000 0x200000 0x400000 1 PTE_PCD vmem_example = Some s' \<and>
     PMap_Translate 0xFFFF800000100000 0x400123 s' = Some 0x200123"
proof -
  have "\<exists>s'. PMap_Map 0xFFFF800000100000 0x200000 0x400000 1 PTE_PCD vmem_example = Some s' \<and>
     pt_wf vpages_example 0xFFFF800000100000 s' \<and>
     (\<forall>i va. i < unat (1 :: u64) \<longrightarrow> va_page va = va_page (nth_page 0x400000 i) \<longrightarrow>
        PMap_Translate 0xFFFF800000100000 va s' = Some (nth_page 0x200000 i + (va AND PGMASK))) \<and>
     (\<forall>va pa. (\<forall>i < unat (1 :: u64). va_page va \<noteq> va_page (nth_page 0x400000 i)) \<longrightarrow>
        PMap_Translate 0xFFFF800000100000 va vmem_example = Some pa \<longrightarrow>
        PMap_Translate 0xFFFF800000100000 va s' = Some pa)"
  proof (rule pmap_map_translate [OF vmem_state_wf])
    show "\<forall>i < unat (1 :: u64). pt_small 0xFFFF800000100000 (nth_page 0x400000 i) vmem_example"
      by (simp only: vmem_state_small simp_thms)
  qed (simp_all add: vmem_state_def pg_aligned_def PGSIZE_def PGMASK_def PTE_NX_def PTE_PCD_def)
  then obtain s' where s': "PMap_Map 0xFFFF800000100000 0x200000 0x400000 1 PTE_PCD vmem_example = Some s'"
    and tr: "\<forall>i va. i < unat (1 :: u64) \<longrightarrow> va_page va = va_page (nth_page 0x400000 i) \<longrightarrow>
        PMap_Translate 0xFFFF800000100000 va s' = Some (nth_page 0x200000 i + (va AND PGMASK))" by blast
  have "va_page 0x400123 = va_page (nth_page 0x400000 0)"
    by (simp add: va_page_def idx_i_def idx_j_def idx_k_def idx_l_def pmap_consts)
  with tr have "PMap_Translate 0xFFFF800000100000 0x400123 s' = Some (nth_page 0x200000 0 + (0x400123 AND PGMASK))"
    by simp
  with s' show ?thesis by (simp add: PGMASK_def)
qed

lemma SystemLMap_overflow:
  assumes "1024 < unat lpages"
  shows "PMap_SystemLMap phys virt lpages flags s = None"
  unfolding PMap_SystemLMap_def using assms
  by (intro for_each_fails [of 1024]) (simp_all add: cint_mul_def)



section \<open>New address spaces\<close>

lemma of_nat_lt_512: "i < 512 \<Longrightarrow> (of_nat i :: u64) < 512"
  by (simp add: word_less_nat_alt unsigned_of_nat take_bit_eq_mod)

lemma of_nat_inj_512: "i < 512 \<Longrightarrow> j < 512 \<Longrightarrow> (of_nat i :: u64) = of_nat j \<longleftrightarrow> i = j"
  by (simp add: word_of_nat_eq_iff take_bit_eq_mod)

text \<open>The second loop of \<^verbatim>\<open>PMap_NewAS\<close>: \<open>r\<close> is the new root, \<open>q\<close> the system root.\<close>

lemma copy_kernel_loop:
  fixes s :: "'a vmem_scheme" and as :: u64
  defines "body \<equiv> (\<lambda>i (s :: 'a vmem_scheme). Some (set_word (pte_addr (mem s as) (of_nat i))
                     (mem s (pte_addr (mem s (systemAS s)) (of_nat i))) s))"
  assumes r: "mem s as = r" "pg_aligned r" and q: "mem s (systemAS s) = q" "pg_aligned q"
    and ne: "r \<noteq> q" and apart: "\<not> as - r < PGSIZE" "\<not> systemAS s - r < PGSIZE"
    and "m \<le> n" and "n \<le> 512"
  shows "\<exists>m'. for_each [m..<n] body s = Some (s\<lparr>mem := m'\<rparr>) \<and>
     (\<forall>i. m \<le> i \<longrightarrow> i < n \<longrightarrow> m' (pte_addr r (of_nat i)) = mem s (pte_addr q (of_nat i))) \<and>
     (\<forall>a. (\<forall>i. m \<le> i \<longrightarrow> i < n \<longrightarrow> a \<noteq> pte_addr r (of_nat i)) \<longrightarrow> m' a = mem s a)"
  using assms(9,10)
proof (induction rule: dec_induct)
  case base
  show ?case by (rule exI [of _ "mem s"]) simp
next
  case (step n)
  then obtain m1 where s1: "for_each [m..<n] body s = Some (s\<lparr>mem := m1\<rparr>)"
    and new: "\<forall>i. m \<le> i \<longrightarrow> i < n \<longrightarrow> m1 (pte_addr r (of_nat i)) = mem s (pte_addr q (of_nat i))"
    and old: "\<forall>a. (\<forall>i. m \<le> i \<longrightarrow> i < n \<longrightarrow> a \<noteq> pte_addr r (of_nat i)) \<longrightarrow> m1 a = mem s a"
    by auto
  have n: "n < 512" and lt: "\<And>i. i \<le> n \<Longrightarrow> (of_nat i :: u64) < 512" using step of_nat_lt_512 by auto
  have not: "a \<noteq> pte_addr r (of_nat i)" if "\<not> a - r < PGSIZE" "i < n" for a i
    using that pte_addr_in_page [OF lt, of i r] by auto
  have "m1 as = r" using old not [OF apart(1)] r(1) by auto
  moreover have "m1 (systemAS s) = q" using old not [OF apart(2)] q(1) by auto
  moreover have q': "m1 (pte_addr q (of_nat n)) = mem s (pte_addr q (of_nat n))"
    using old pte_addr_inj [OF q(2) r(2) lt lt] ne by simp
  ultimately have b: "body n (s\<lparr>mem := m1\<rparr>) =
      Some (s\<lparr>mem := m1(pte_addr r (of_nat n) := mem s (pte_addr q (of_nat n)))\<rparr>)"
    (is "_ = Some (s\<lparr>mem := ?m2\<rparr>)") by (simp add: body_def set_word_def)
  have "for_each [m..<Suc n] body s = Some (s\<lparr>mem := ?m2\<rparr>)"
    using step(1) s1 b by (simp add: for_each_append)
  moreover have "?m2 (pte_addr r (of_nat i)) = mem s (pte_addr q (of_nat i))" if "m \<le> i" "i < Suc n" for i
    using that new pte_addr_inj [OF r(2) r(2) lt lt, of i n] of_nat_inj_512 [of i n] n
    by (cases "i = n") auto
  moreover have "?m2 a = mem s a" if "\<forall>i. m \<le> i \<longrightarrow> i < Suc n \<longrightarrow> a \<noteq> pte_addr r (of_nat i)" for a
    using that old step(1) by auto
  ultimately show ?case by blast
qed

lemma walk_same:
  assumes same: "\<And>q u x. pt_path q \<Longrightarrow> walk m r q = Some u \<Longrightarrow> x < 512 \<Longrightarrow>
                 m' (pte_addr u x) = m (pte_addr u x)"
  shows "pt_path p \<Longrightarrow> walk m' r p = walk m r p"
proof (induction p rule: rev_induct)
  case (snoc x p)
  then have "walk m' r p = walk m r p" by simp
  with same [of p] snoc.prems show ?case by (auto simp: walk_snoc split: option.splits)
qed simp

lemma pt_wf_frame:
  fixes s :: "'a kmem_scheme" and s' :: "'a kmem_scheme"
  assumes wf: "pt_wf P as s" and inv': "palloc_inv P s'" and root: "mem s' as = mem s as"
    and keep: "\<And>p t x. pt_path p \<Longrightarrow> pt_walk as s p = Some t \<Longrightarrow> x < 512 \<Longrightarrow>
           mem s' (pte_addr t x) = mem s (pte_addr t x)"
    and refs: "\<And>q. pg_refs q s \<noteq> 0 \<Longrightarrow> pg_refs q s' \<noteq> 0"
  shows "pt_wf P as s'" and "pt_path p \<Longrightarrow> pt_walk as s' p = pt_walk as s p"
proof -
  have w: "pt_walk as s' p = pt_walk as s p" if "pt_path p" for p
    unfolding root using walk_same [of "mem s" "mem s as" "mem s'", OF _ that] keep by blast
  then show "pt_path p \<Longrightarrow> pt_walk as s' p = pt_walk as s p" .
  have D: "mem s' (pte_addr t x) AND PTE_PS = 0"
    if "pt_path p" "length p \<le> 1" "x < 512" "pt_walk as s p = Some t" for p t x
    using keep [OF that(1,4,3)] pt_wfD(7) [OF wf that] by simp
  have A: "t \<in> P \<and> pg_refs t s' \<noteq> 0 \<and> \<not> as - t < PGSIZE" if "pt_path p" "pt_walk as s p = Some t" for p t
    using pt_wfD(2-4) [OF wf that] refs by blast
  have E: "\<not> as - t < PGSIZE" if "t \<in> P" "pg_refs t s' = 0" for t
    using that refs pt_wfD(8) [OF wf that(1)] by blast
  show "pt_wf P as s'"
    unfolding pt_wf_def using inv' A D E w pt_wfD(6) [OF wf] by (simp, blast)
qed

definition newas_mem :: "u64 \<Rightarrow> u64 \<Rightarrow> u64 \<Rightarrow> (u64 \<Rightarrow> u64) \<Rightarrow> (u64 \<Rightarrow> u64) \<Rightarrow> bool" where
  "newas_mem as r q m m' \<longleftrightarrow>
     m' as = r \<and> (\<forall>x. x < 256 \<longrightarrow> m' (pte_addr r x) = 0) \<and>
     (\<forall>x. 256 \<le> x \<longrightarrow> x < 512 \<longrightarrow> m' (pte_addr r x) = m (pte_addr q x)) \<and>
     (\<forall>a. \<not> a - as < PGSIZE \<longrightarrow> \<not> a - r < PGSIZE \<longrightarrow> m' a = m a)"

lemma newas_state:
  fixes s :: "'a vmem_scheme"
  assumes inv: "palloc_inv P s" and fl: "freeList s = as # r # rest"
    and q: "mem s (systemAS s) = q" "q \<in> P" "pg_refs q s \<noteq> 0"
    and sys: "\<not> systemAS s - as < PGSIZE" "\<not> systemAS s - r < PGSIZE"
  shows "\<exists>m'. PMap_NewAS s = Some (as, s\<lparr>freeList := rest, freePages := freePages s - 1 - 1,
           pageInfo := (pageInfo s)(PAllocGetInfo as := 1, PAllocGetInfo r := 1), mem := m'\<rparr>) \<and>
         newas_mem as r q (mem s) m' \<and>
         palloc_inv P (s\<lparr>freeList := rest, freePages := freePages s - 1 - 1,
           pageInfo := (pageInfo s)(PAllocGetInfo as := 1, PAllocGetInfo r := 1), mem := m'\<rparr>)"
proof -
  have P: "as \<in> P" "r \<in> P" "as \<noteq> r" and al: "pg_aligned as" "pg_aligned r" "pg_aligned q"
    and ne: "q \<noteq> as" "q \<noteq> r"
    using inv fl q by (auto simp: palloc_inv_def)
  define s1 where "s1 = s\<lparr>freeList := r # rest, pageInfo := (pageInfo s)(PAllocGetInfo as := 1),
    freePages := freePages s - 1, mem := memset_page (mem s) as\<rparr>"
  define s2 where "s2 = s1\<lparr>freeList := rest, pageInfo := (pageInfo s1)(PAllocGetInfo r := 1),
    freePages := freePages s1 - 1, mem := memset_page (mem s1) r\<rparr>"
  have a1: "PAlloc_AllocPage s = Some (as, s1)"
    using PAlloc_AllocPage_cases [OF inv fl] by (simp add: s1_def)
  have inv1: "palloc_inv P s1" by (rule PAlloc_AllocPage_inv [OF inv a1])
  have "freeList s1 = r # rest" by (simp add: s1_def)
  from PAlloc_AllocPage_cases [OF inv1 this] have a2: "PAlloc_AllocPage s1 = Some (r, s2)"
    by (simp add: s2_def)
  define s3 where "s3 = set_word (as + 16) 0 (set_word (as + 8) 1 (set_word as r s2))"
  have sm: "a < PGSIZE \<Longrightarrow> as + a - as < PGSIZE" for a by simp
  have apart: "as + x \<noteq> pte_addr r i" if "x < PGSIZE" "i < 512" for x i
    using that pg_offset_inj [OF al(1,2) that(1) word_index_lt_page [OF that(2)]] P(3)
    by (auto simp: pte_addr_def)
  have apart': "as \<noteq> pte_addr r i" "as + 8 \<noteq> pte_addr r i" "as + 16 \<noteq> pte_addr r i" if "i < 512" for i
    using apart [OF _ that, of 0] apart [OF _ that, of 8] apart [OF _ that, of 16] by (simp_all add: PGSIZE_def)
  have m3as: "mem s3 as = r" by (simp add: s3_def)
  have m3r: "mem s3 (pte_addr r i) = 0" if "i < 512" for i
    using apart' [OF that] that by (simp add: s3_def s2_def pte_addr_in_page)
  have m3o: "mem s3 a = mem s a" if "\<not> a - as < PGSIZE" "\<not> a - r < PGSIZE" for a
    using that sm [of 8] sm [of 16] by (auto simp: s3_def s2_def s1_def memset_page_def PGSIZE_def)
  have m3sys: "mem s3 (systemAS s3) = q"
    using m3o sys q(1) by (simp add: s3_def s2_def s1_def)
  have z: "for_each [0..<PAGETABLE_ENTRIES div 2]
      (\<lambda>i s. Some (set_word (pte_addr (mem s as) (of_nat i)) 0 s)) s3 = Some s3"
  proof (rule for_each_skip)
    fix i assume "i \<in> set [0..<PAGETABLE_ENTRIES div 2]"
    then have "mem s3 (pte_addr r (of_nat i)) = 0"
      by (intro m3r of_nat_lt_512) (simp add: PAGETABLE_ENTRIES_def)
    then show "Some (set_word (pte_addr (mem s3 as) (of_nat i)) 0 s3) = Some s3"
      by (simp add: m3as set_word_def fun_upd_idem)
  qed
  have sys3: "systemAS s3 = systemAS s" by (simp add: s3_def s2_def s1_def)
  from copy_kernel_loop [OF m3as al(2) m3sys al(3) ne(2) [symmetric]
        pg_aligned_apart [OF al(1,2) P(3)] sys(2) [folded sys3], of 256 512]
  obtain m' where m': "for_each [256..<512] (\<lambda>i (s :: 'a vmem_scheme). Some (set_word (pte_addr (mem s as) (of_nat i))
                     (mem s (pte_addr (mem s (systemAS s)) (of_nat i))) s)) s3 = Some (s3\<lparr>mem := m'\<rparr>)"
    "\<forall>i. 256 \<le> i \<longrightarrow> i < 512 \<longrightarrow> m' (pte_addr r (of_nat i)) = mem s3 (pte_addr q (of_nat i))"
    "\<forall>a. (\<forall>i. 256 \<le> i \<longrightarrow> i < 512 \<longrightarrow> a \<noteq> pte_addr r (of_nat i)) \<longrightarrow> m' a = mem s3 a"
    by (auto simp del: upt_rec_numeral)
  have h: "PAGETABLE_ENTRIES = 512" "512 div 2 = (256 :: nat)" by (simp_all add: PAGETABLE_ENTRIES_def)
  have "PMap_NewAS s = Some (as, s3\<lparr>mem := m'\<rparr>)"
    unfolding PMap_NewAS_def a1 bind.bind_lunit prod.case a2 Let_def s3_def [symmetric] z
    by (simp only: h m'(1) bind.bind_lunit)
  moreover have e: "s3\<lparr>mem := m'\<rparr> = s\<lparr>freeList := rest, freePages := freePages s - 1 - 1,
           pageInfo := (pageInfo s)(PAllocGetInfo as := 1, PAllocGetInfo r := 1), mem := m'\<rparr>"
    by (simp add: s3_def s2_def s1_def set_word_def)
  moreover have nm: "newas_mem as r q (mem s) m'"
    unfolding newas_mem_def
  proof (intro conjI allI impI)
    show "m' as = r" using m'(3) apart'(1) of_nat_lt_512 m3as by auto
    fix x :: u64
    show "m' (pte_addr r x) = 0" if "x < 256"
    proof -
      have "pte_addr r x \<noteq> pte_addr r (of_nat i)" if i: "256 \<le> i" "i < 512" for i
      proof -
        have "x \<noteq> of_nat i" using \<open>x < 256\<close> i by (auto simp: word_less_nat_alt unsigned_of_nat take_bit_eq_mod)
        then show ?thesis using pte_addr_inj [OF al(2) al(2), of x "of_nat i"] \<open>x < 256\<close> of_nat_lt_512 [OF i(2)]
          by (simp add: order_less_trans)
      qed
      then show ?thesis using m'(3) m3r [of x] \<open>x < 256\<close> by (simp add: order_less_trans)
    qed
    show "m' (pte_addr r x) = mem s (pte_addr q x)" if "256 \<le> x" "x < 512"
    proof -
      have "256 \<le> unat x" "unat x < 512" using that by (simp_all add: word_le_nat_alt word_less_nat_alt)
      with m'(2) have "m' (pte_addr r x) = mem s3 (pte_addr q x)" by force
      also have "\<dots> = mem s (pte_addr q x)"
        using that ne al by (intro m3o pte_addr_not_in_page) simp_all
      finally show ?thesis .
    qed
    fix a assume a: "\<not> a - as < PGSIZE" "\<not> a - r < PGSIZE"
    then have "a \<noteq> pte_addr r (of_nat i)" if "i < 512" for i
      using pte_addr_in_page [OF of_nat_lt_512 [OF that]] by auto
    with m'(3) m3o [OF a] show "m' a = mem s a" by simp
  qed
  moreover have "palloc_inv P (s3\<lparr>mem := m'\<rparr>)"
  proof -
    have inv2: "palloc_inv P s2" by (rule PAlloc_AllocPage_inv [OF inv1 a2])
    have "m' p = mem s2 p" if p: "p \<in> set (freeList s2)" for p
    proof -
      have "p \<in> P" "p \<noteq> as" "p \<noteq> r" and m: "mem s p = FREEPAGE_MAGIC_FREE"
        using p inv fl by (auto simp: s2_def s1_def palloc_inv_def)
      then have "\<not> p - as < PGSIZE" "\<not> p - r < PGSIZE"
        using pg_aligned_apart [of p as] pg_aligned_apart [of p r] inv al(1,2)
        unfolding palloc_inv_def by blast+
      with nm m inv2 p show ?thesis by (simp add: newas_mem_def palloc_inv_def)
    qed
    from palloc_inv_mem [OF inv2 this] show ?thesis by (simp add: s3_def set_word_def)
  qed
  ultimately show ?thesis by auto
qed

lemma newas_walk:
  fixes s s' :: "'a vmem_scheme"
  assumes wf: "pt_wf P sys s" and q: "mem s sys = q"
    and P: "as \<in> P" "r \<in> P" "as \<noteq> r" "pg_refs as s = 0" "pg_refs r s = 0"
    and nm: "newas_mem as r q (mem s) (mem s')"
  shows "pt_path p \<Longrightarrow> pt_walk sys s p = Some t \<Longrightarrow> x < 512 \<Longrightarrow>
           mem s' (pte_addr t x) = mem s (pte_addr t x)"
    and "pt_path p \<Longrightarrow> walk (mem s') q p = pt_walk sys s p"
    and "pt_path (i # is) \<Longrightarrow> pt_walk as s' (i # is) = (if i < 256 then None else pt_walk sys s (i # is))"
proof -
  have inv: "palloc_inv P s" by (rule pt_wfD(1) [OF wf])
  have al: "pg_aligned as" "pg_aligned r" using inv P by (auto simp: palloc_inv_def)
  have keep: "mem s' (pte_addr t x) = mem s (pte_addr t x)"
    if "pt_path p" "pt_walk sys s p = Some t" "x < 512" for p t x
  proof -
    note T = pt_wfD(3,5) [OF wf that(1,2)]
    have "t \<noteq> as" "t \<noteq> r" using T P by auto
    with T al that(3) have "\<not> pte_addr t x - as < PGSIZE" "\<not> pte_addr t x - r < PGSIZE"
      by (simp_all add: pte_addr_not_in_page)
    with nm show ?thesis by (simp add: newas_mem_def)
  qed
  then show "pt_path p \<Longrightarrow> pt_walk sys s p = Some t \<Longrightarrow> x < 512 \<Longrightarrow>
           mem s' (pte_addr t x) = mem s (pte_addr t x)" .
  have same: "walk (mem s') q p = pt_walk sys s p" if "pt_path p" for p
    using walk_same [of "mem s" q "mem s'", OF _ that] keep unfolding q by blast
  then show "pt_path p \<Longrightarrow> walk (mem s') q p = pt_walk sys s p" .
  assume i: "pt_path (i # is)"
  show "pt_walk as s' (i # is) = (if i < 256 then None else pt_walk sys s (i # is))"
  proof (cases "i < 256")
    case True
    with nm show ?thesis by (simp add: newas_mem_def)
  next
    case False
    with nm i have "mem s' (pte_addr r i) = mem s (pte_addr q i)" "mem s' as = r"
      by (simp_all add: newas_mem_def)
    moreover have "mem s' (pte_addr q i) = mem s (pte_addr q i)"
      using keep [of "[]" q i] i q by simp
    ultimately have "pt_walk as s' (i # is) = walk (mem s') q (i # is)" by simp
    with same [OF i] False show ?thesis by simp
  qed
qed

lemma newas_wf:
  fixes s s' :: "'a vmem_scheme"
  assumes wf: "pt_wf P sys s" and q: "mem s sys = q"
    and P: "as \<in> P" "r \<in> P" "as \<noteq> r" "pg_refs as s = 0" "pg_refs r s = 0"
    and nm: "newas_mem as r q (mem s) (mem s')"
    and inv': "palloc_inv P s'"
    and refs: "pageInfo s' = (pageInfo s)(PAllocGetInfo as := 1, PAllocGetInfo r := 1)"
  shows "pt_wf P as s'"
proof -
  note W = newas_walk [OF wf q P nm]
  have inv: "palloc_inv P s" by (rule pt_wfD(1) [OF wf])
  have al: "\<And>p. p \<in> P \<Longrightarrow> pg_aligned p" using inv by (auto simp: palloc_inv_def)
  have root: "mem s' as = r" using nm by (simp add: newas_mem_def)
  have refs': "pg_refs u s' \<noteq> 0" if "u = as \<or> u = r \<or> pg_refs u s \<noteq> 0" for u using that by (auto simp: refs)
  have cases: "p = [] \<and> t = r \<or> p \<noteq> [] \<and> pt_walk sys s p = Some t"
    if "pt_path p" "pt_walk as s' p = Some t" for p t
    using that W(3) root by (cases p) (auto split: if_splits)
  have A: "t \<in> P \<and> pg_refs t s' \<noteq> 0 \<and> \<not> as - t < PGSIZE" if "pt_path p" "pt_walk as s' p = Some t" for p t
  proof -
    have "t = r \<or> t \<in> P \<and> pg_refs t s \<noteq> 0" using cases [OF that] pt_wfD(2,3) [OF wf that(1)] by blast
    then have "t \<in> P" "pg_refs t s' \<noteq> 0" "t \<noteq> as" using P refs' by auto
    then show ?thesis using pg_aligned_apart [of as t] al P(1) by blast
  qed
  have B: "p = p'" if "pt_path p" "pt_path p'" "pt_walk as s' p = Some t" "pt_walk as s' p' = Some t" for p p' t
    using cases [OF that(1,3)] cases [OF that(2,4)] pt_wfD(6) [OF wf that(1,2)]
      pt_wfD(3) [OF wf that(1)] pt_wfD(3) [OF wf that(2)] P(5) by blast
  have D: "mem s' (pte_addr t x) AND PTE_PS = 0"
    if "pt_path p" "length p \<le> 1" "x < 512" "pt_walk as s' p = Some t" for p t x
    using cases [OF that(1,4)]
  proof (elim disjE conjE)
    assume "p = []" "t = r"
    have "mem s (pte_addr q x) AND PTE_PS = 0" using pt_wfD(7) [OF wf, of "[]" x q] that q by simp
    then show ?thesis using nm \<open>t = r\<close> that(3) by (cases "x < 256") (simp_all add: newas_mem_def)
  next
    assume w: "pt_walk sys s p = Some t"
    then show ?thesis using W(1) [OF that(1) w that(3)] pt_wfD(7) [OF wf that(1-3) w] by simp
  qed
  have E: "\<not> as - t < PGSIZE" if "t \<in> P" "pg_refs t s' = 0" for t
    using that refs' [of t] al P(1) pg_aligned_apart [of as t] by blast
  show ?thesis unfolding pt_wf_def using inv' A B D E by blast
qed

lemma newas_system_wf:
  fixes s s' :: "'a vmem_scheme"
  assumes wf: "pt_wf P sys s" and q: "mem s sys = q"
    and P: "as \<in> P" "r \<in> P" "as \<noteq> r" "pg_refs as s = 0" "pg_refs r s = 0"
    and nm: "newas_mem as r q (mem s) (mem s')"
    and inv': "palloc_inv P s'"
    and refs: "pageInfo s' = (pageInfo s)(PAllocGetInfo as := 1, PAllocGetInfo r := 1)"
  shows "pt_wf P sys s'" and "mem s' sys = mem s sys"
proof -
  note W = newas_walk [OF wf q P nm]
  have "\<not> sys - as < PGSIZE" "\<not> sys - r < PGSIZE" using pt_wfD(8) [OF wf] P by blast+
  with nm show sys: "mem s' sys = mem s sys" by (simp add: newas_mem_def)
  have "\<And>u. pg_refs u s \<noteq> 0 \<Longrightarrow> pg_refs u s' \<noteq> 0" by (auto simp: refs)
  with pt_wf_frame(1) [OF wf inv' sys] W(1) show "pt_wf P sys s'" by blast
qed

lemma PMap_Translate_cong:
  assumes e: "mem s' (pte_addr (mem s' as') (idx_i va)) = mem s (pte_addr (mem s as) (idx_i va))"
    and wf: "pt_wf P as s"
    and same: "\<And>p t x. pt_path p \<Longrightarrow> pt_walk as s p = Some t \<Longrightarrow> x < 512 \<Longrightarrow>
           mem s' (pte_addr t x) = mem s (pte_addr t x)"
  shows "PMap_Translate as' va s' = PMap_Translate as va s"
proof -
  let ?e1 = "mem s (pte_addr (mem s as) (idx_i va))"
  let ?e2 = "mem s (pte_addr (pte_table ?e1) (idx_j va))"
  let ?e3 = "mem s (pte_addr (pte_table ?e2) (idx_k va))"
  have ps1: "?e1 AND PTE_PS = 0" by (rule pt_wfD(7) [OF wf, of "[]"]) simp_all
  have w1: "pt_walk as s [idx_i va] = Some (pte_table ?e1)" if "?e1 \<noteq> 0" using that ps1 by simp
  have ps2: "?e2 AND PTE_PS = 0" if "?e1 \<noteq> 0"
    by (rule pt_wfD(7) [OF wf _ _ _ w1 [OF that]]) simp_all
  have w2: "pt_walk as s [idx_i va, idx_j va] = Some (pte_table ?e2)" if "?e1 \<noteq> 0" "?e2 \<noteq> 0"
    using walk_snoc [of "mem s" "mem s as" "[idx_i va]" "idx_j va"] w1 ps2 that by (simp del: walk.simps)
  have w3: "pt_walk as s (pt_idx va) = Some (pte_table ?e3)"
    if "?e1 \<noteq> 0" "?e2 \<noteq> 0" "?e3 \<noteq> 0" "?e3 AND PTE_PS \<noteq> PTE_PS"
    using walk_snoc [of "mem s" "mem s as" "[idx_i va, idx_j va]" "idx_k va"] w2 that PTE_PS_and [of ?e3]
    by (simp del: walk.simps)
  have s2: "?e1 \<noteq> 0 \<Longrightarrow> mem s' (pte_addr (pte_table ?e1) (idx_j va)) = ?e2"
    using same [OF _ w1] by simp
  have s3: "?e1 \<noteq> 0 \<Longrightarrow> ?e2 \<noteq> 0 \<Longrightarrow> mem s' (pte_addr (pte_table ?e2) (idx_k va)) = ?e3"
    using same [OF _ w2] by simp
  have s4: "?e1 \<noteq> 0 \<Longrightarrow> ?e2 \<noteq> 0 \<Longrightarrow> ?e3 \<noteq> 0 \<Longrightarrow> ?e3 AND PTE_PS \<noteq> PTE_PS \<Longrightarrow>
      mem s' (pte_addr (pte_table ?e3) (idx_l va)) = mem s (pte_addr (pte_table ?e3) (idx_l va))"
    using same [OF _ w3] by simp
  show ?thesis
    using s2 s3 s4
    by (cases "?e1 = 0"; cases "?e2 = 0"; cases "?e3 = 0"; cases "?e3 AND PTE_PS = PTE_PS")
       (simp_all add: PMap_Translate_def e)
qed

text \<open>
  C19. \<^verbatim>\<open>PMap_NewAS\<close> on a well-formed system address space with two free pages returns a
  well-formed address space and keeps the system one.  The new space translates every
  address of the upper half as the system space does, and none of the lower half.
\<close>

theorem pmap_new_as:
  assumes wf: "pt_wf P (systemAS s) s" and free: "2 \<le> length (freeList s)"
  shows "\<exists>as s'. PMap_NewAS s = Some (as, s') \<and> pt_wf P as s' \<and>
     pt_wf P (systemAS s) s' \<and> systemAS s' = systemAS s \<and>
     (\<forall>va. 256 \<le> idx_i va \<longrightarrow> PMap_Translate as va s' = PMap_Translate (systemAS s) va s) \<and>
     (\<forall>va. idx_i va < 256 \<longrightarrow> PMap_Translate as va s' = None)"
proof -
  obtain as r rest where fl: "freeList s = as # r # rest"
    using free by (metis One_nat_def Suc_1 Suc_le_length_iff)
  have inv: "palloc_inv P s" by (rule pt_wfD(1) [OF wf])
  have P: "as \<in> P" "r \<in> P" "as \<noteq> r" "pg_refs as s = 0" "pg_refs r s = 0"
    using inv fl by (auto simp: palloc_inv_def)
  have q: "mem s (systemAS s) \<in> P" "pg_refs (mem s (systemAS s)) s \<noteq> 0"
    using pt_wfD(2,3) [OF wf, of "[]"] by auto
  have sys: "\<not> systemAS s - as < PGSIZE" "\<not> systemAS s - r < PGSIZE" using pt_wfD(8) [OF wf] P by blast+
  let ?S = "\<lambda>m'. s\<lparr>freeList := rest, freePages := freePages s - 1 - 1,
           pageInfo := (pageInfo s)(PAllocGetInfo as := 1, PAllocGetInfo r := 1), mem := m'\<rparr>"
  from newas_state [OF inv fl refl q sys] obtain m' where
    n: "PMap_NewAS s = Some (as, ?S m')" and nm: "newas_mem as r (mem s (systemAS s)) (mem s) m'"
    and inv': "palloc_inv P (?S m')" by blast
  let ?s' = "?S m'"
  have nm': "newas_mem as r (mem s (systemAS s)) (mem s) (mem ?s')" using nm by simp
  have refs: "pageInfo ?s' = (pageInfo s)(PAllocGetInfo as := 1, PAllocGetInfo r := 1)" by simp
  note W = newas_walk(1) [OF wf refl P nm']
  have "PMap_Translate as va ?s' = PMap_Translate (systemAS s) va s" if "256 \<le> idx_i va" for va
    using that nm by (intro PMap_Translate_cong [OF _ wf W]) (simp_all add: newas_mem_def)
  moreover have "PMap_Translate as va ?s' = None" if "idx_i va < 256" for va
    using that nm by (simp add: PMap_Translate_def newas_mem_def)
  ultimately show ?thesis
    using n newas_wf [OF wf refl P nm' inv' refs] newas_system_wf [OF wf refl P nm' inv' refs] by auto
qed

theorem pmap_new_as_witness:
  "\<exists>as s'. PMap_NewAS vmem_example = Some (as, s') \<and> pt_wf vpages_example as s' \<and>
     PMap_Translate as 0x400000 s' = None"
proof -
  have sys: "systemAS vmem_example = 0xFFFF800000100000" by (simp add: vmem_state_def)
  have "2 \<le> length (freeList vmem_example)" by (simp add: vmem_state_def)
  from pmap_new_as [OF _ this] vmem_state_wf [of "()"] obtain as s' where
    "PMap_NewAS vmem_example = Some (as, s')" "pt_wf vpages_example as s'"
    "\<forall>va. idx_i va < 256 \<longrightarrow> PMap_Translate as va s' = None"
    unfolding sys by blast
  moreover have "idx_i 0x400000 < 256" by (simp add: idx_i_def pmap_consts)
  ultimately show ?thesis by blast
qed

text \<open>
  C32. A created and at once destroyed address space does not give back all its memory:
  of the two pages that \<^verbatim>\<open>PMap_NewAS\<close> takes, \<^verbatim>\<open>PMap_DestroyAS\<close> releases the one of the
  \<^verbatim>\<open>AS\<close> structure only, and the root table stays allocated.
\<close>

theorem pmap_destroy_leaks_root:
  assumes wf: "pt_wf P (systemAS s) s" and free: "freeList s = as # root # rest"
  shows "\<exists>s1 s2. PMap_NewAS s = Some (as, s1) \<and> PMap_DestroyAS as s1 = Some s2 \<and>
     freeList s2 = as # rest \<and> pg_refs root s2 = 1"
proof -
  have inv: "palloc_inv P s" by (rule pt_wfD(1) [OF wf])
  have P: "as \<in> P" "root \<in> P" "as \<noteq> root" "pg_aligned as" "pg_aligned root"
    using inv free by (auto simp: palloc_inv_def)
  have q: "mem s (systemAS s) \<in> P" "pg_refs (mem s (systemAS s)) s \<noteq> 0"
    using pt_wfD(2,3) [OF wf, of "[]"] by auto
  have "as \<in> set (freeList s)" "root \<in> set (freeList s)" using free by simp_all
  then have z: "pg_refs as s = 0" "pg_refs root s = 0" using inv by (auto simp: palloc_inv_def)
  have sys: "\<not> systemAS s - as < PGSIZE" "\<not> systemAS s - root < PGSIZE" using pt_wfD(8) [OF wf] P z by blast+
  let ?S = "\<lambda>m'. s\<lparr>freeList := rest, freePages := freePages s - 1 - 1,
           pageInfo := (pageInfo s)(PAllocGetInfo as := 1, PAllocGetInfo root := 1), mem := m'\<rparr>"
  from newas_state [OF inv free refl q sys] obtain m' where
    n: "PMap_NewAS s = Some (as, ?S m')" and nm: "newas_mem as root (mem s (systemAS s)) (mem s) m'" by blast
  let ?s1 = "?S m'"
  have "for_each [0..<PAGETABLE_ENTRIES div 2] (destroy_l1 as) ?s1 = Some ?s1"
  proof (rule for_each_skip)
    fix i assume "i \<in> set [0..<PAGETABLE_ENTRIES div 2]"
    then have "(of_nat i :: u64) < 256"
      by (simp add: PAGETABLE_ENTRIES_def word_less_nat_alt unsigned_of_nat take_bit_eq_mod)
    with nm show "destroy_l1 as i ?s1 = Some ?s1" by (simp add: destroy_l1_def newas_mem_def)
  qed
  moreover have ne: "PAllocGetInfo as \<noteq> PAllocGetInfo root" using PAllocGetInfo_inj P by blast
  moreover have "as mod PGSIZE = 0" using P(4) by (simp add: pg_aligned_def)
  ultimately have "PMap_DestroyAS as ?s1 = Some (?s1\<lparr>freeList := as # rest,
       pageInfo := (pageInfo ?s1)(PAllocGetInfo as := 0), mem := m'(as := FREEPAGE_MAGIC_FREE),
       freePages := freePages ?s1 + 1\<rparr>)"
    by (simp add: PMap_DestroyAS_def PAlloc_Release_def PAllocFreePage_def)
  with n ne show ?thesis by simp
qed

theorem pmap_destroy_leaks_root_witness:
  "\<exists>s1 s2. PMap_NewAS vmem_example = Some (0xFFFF800000002000, s1) \<and>
     PMap_DestroyAS 0xFFFF800000002000 s1 = Some s2 \<and> pg_refs 0xFFFF800000003000 s2 = 1"
proof -
  have sys: "systemAS vmem_example = 0xFFFF800000100000"
    and fl: "freeList vmem_example = 0xFFFF800000002000 # 0xFFFF800000003000 # [0xFFFF800000004000, 0xFFFF800000005000]"
    by (simp_all add: vmem_state_def)
  from pmap_destroy_leaks_root [OF _ fl] vmem_state_wf [of "()"] show ?thesis unfolding sys by blast
qed

end
