(* ===== verification/XMem.thy ===== *)
theory XMem
  imports PMap
begin

text \<open>
  Extensible kernel memory regions, \<^verbatim>\<open>src/sys/amd64/xmem.c\<close>, and the parts of the page
  allocator that build its table inside one of them (\<^verbatim>\<open>PAlloc_AddRegion\<close>,
  \<^verbatim>\<open>PAlloc_LateInit\<close> of \<^verbatim>\<open>src/sys/kern/palloc.c\<close>).

  A pointer to an \<^verbatim>\<open>XMem\<close> is its index in the array \<^verbatim>\<open>regions\<close>.
\<close>

section \<open>State\<close>

record XMem_region =
  inUse :: bool
  base :: u64
  maxLength :: u64
  xlength :: u64

record xmem = vmem +
  regions :: "nat \<Rightarrow> XMem_region"

definition MAX_XMEM_REGIONS :: nat where
  "MAX_XMEM_REGIONS = 1024"

definition MEM_XMAP_BASE :: u64 where
  "MEM_XMAP_BASE = 0xFFFF810000000000"

definition MEM_XMAP_LEN :: u64 where
  "MEM_XMAP_LEN = 0x0000002000000000"

section \<open>Operations\<close>

definition XMem_Init :: "'a xmem_scheme \<Rightarrow> 'a xmem_scheme" where
  "XMem_Init s =
     (let regionSize = MEM_XMAP_LEN div of_nat MAX_XMEM_REGIONS in
      s\<lparr>regions := (\<lambda>r. if r < MAX_XMEM_REGIONS
          then \<lparr>inUse = False, base = MEM_XMAP_BASE + of_nat r * regionSize,
                 maxLength = regionSize, xlength = 0\<rparr>
          else regions s r)\<rparr>)"

definition XMem_New :: "'a xmem_scheme \<Rightarrow> nat option \<times> 'a xmem_scheme" where
  "XMem_New s =
     (case filter (\<lambda>r. \<not> inUse (regions s r)) [0..<MAX_XMEM_REGIONS] of
        [] \<Rightarrow> (None, s)
      | r # _ \<Rightarrow> (Some r, s\<lparr>regions := (regions s)(r := (regions s r)\<lparr>inUse := True\<rparr>)\<rparr>))"

text \<open>
  \<^verbatim>\<open>XMem_Destroy\<close> only looks the entries up, which allocates missing page tables.  Its
  loop and that of \<^verbatim>\<open>XMem_Allocate\<close> may wrap around for absurd lengths; not returning is
  \<open>None\<close>, like a panic.
\<close>

partial_function (option) XMem_Destroy_loop ::
  "nat \<Rightarrow> u64 \<Rightarrow> 'a xmem_scheme \<Rightarrow> 'a xmem_scheme option" where
  "XMem_Destroy_loop x off s =
     (if off < xlength (regions s x) then
        Option.bind (PMap_SystemLookup (base (regions s x) + off) PGSIZE s)
          (\<lambda>(entry, s). XMem_Destroy_loop x (off + PGSIZE) s)
      else Some s)"

definition XMem_Destroy :: "nat \<Rightarrow> 'a xmem_scheme \<Rightarrow> 'a xmem_scheme option" where
  "XMem_Destroy x s = XMem_Destroy_loop x 0 s"

definition XMem_GetBase :: "nat \<Rightarrow> 'a xmem_scheme \<Rightarrow> u64" where
  "XMem_GetBase x s = base (regions s x)"

definition XMem_GetLength :: "nat \<Rightarrow> 'a xmem_scheme \<Rightarrow> u64" where
  "XMem_GetLength x s = xlength (regions s x)"

text \<open>One iteration of the loop of \<^verbatim>\<open>XMem_Allocate\<close>.\<close>

definition XMem_grow :: "nat \<Rightarrow> u64 \<Rightarrow> 'a xmem_scheme \<Rightarrow> 'a xmem_scheme option" where
  "XMem_grow x off s = do {
     (pg, s) \<leftarrow> PAlloc_AllocPage s;
     s \<leftarrow> PMap_SystemMap (DMVA2PA pg) (base (regions s x) + off) 1 0 s;
     Some (s\<lparr>regions := (regions s)(x := (regions s x)\<lparr>xlength := xlength (regions s x) + PGSIZE\<rparr>)\<rparr>)
   }"

partial_function (option) XMem_Allocate_loop ::
  "nat \<Rightarrow> u64 \<Rightarrow> u64 \<Rightarrow> 'a xmem_scheme \<Rightarrow> 'a xmem_scheme option" where
  "XMem_Allocate_loop x off len s =
     (if off < len then Option.bind (XMem_grow x off s) (XMem_Allocate_loop x (off + PGSIZE) len)
      else Some s)"

definition XMem_Allocate :: "nat \<Rightarrow> u64 \<Rightarrow> 'a xmem_scheme \<Rightarrow> (bool \<times> 'a xmem_scheme) option" where
  "XMem_Allocate x len s =
     (if len < xlength (regions s x) then Some (True, s)
      else if maxLength (regions s x) < len then Some (False, s)
      else do {
        s \<leftarrow> XMem_Allocate_loop x (xlength (regions s x)) len s;
        Some (True, s)
      })"

text \<open>
  \<^verbatim>\<open>PAlloc_LateInit\<close>: the table moves into the region; the reference counts are copied,
  so \<^term>\<open>pageInfo\<close> does not change.  \<^verbatim>\<open>XMem_New\<close> returning \<^verbatim>\<open>NULL\<close> would be dereferenced.
\<close>

definition PAlloc_LateInit :: "'a xmem_scheme \<Rightarrow> 'a xmem_scheme option" where
  "PAlloc_LateInit s = do {
     let (x, s) = XMem_New s;
     x \<leftarrow> x;
     let s = s\<lparr>pageInfoXMem := Some x\<rparr>;
     (ok, s) \<leftarrow> XMem_Allocate x (pageInfoLength s) s;
     kassert ok;
     Some (s\<lparr>pageInfoTable := XMem_GetBase x s\<rparr>)
   }"

text \<open>\<^verbatim>\<open>pageInfoTable[i].refCount = v\<close> for \<^verbatim>\<open>lo <= i < hi\<close>.\<close>

definition set_refs :: "u64 \<Rightarrow> u64 \<Rightarrow> u64 \<Rightarrow> (u64 \<Rightarrow> u64) \<Rightarrow> u64 \<Rightarrow> u64" where
  "set_refs lo hi v f = (\<lambda>i. if lo \<le> i \<and> i < hi then v else f i)"

partial_function (option) AddRegion_loop ::
  "u64 \<Rightarrow> u64 \<Rightarrow> u64 \<Rightarrow> 'a xmem_scheme \<Rightarrow> 'a xmem_scheme option" where
  "AddRegion_loop start len i s =
     (if i < len then
        AddRegion_loop start len (i + PGSIZE)
          (s\<lparr>mem := (mem s)(start + i := FREEPAGE_MAGIC_FREE),
             totalPages := totalPages s + 1, freePages := freePages s + 1,
             freeList := (start + i) # freeList s\<rparr>)
      else Some s)"

definition AddRegion_first :: "u64 \<Rightarrow> u64 \<Rightarrow> 'a xmem_scheme \<Rightarrow> 'a xmem_scheme" where
  "AddRegion_first start len s =
     (let pbase = DMVA2PA start; pend = pbase + len;
          tlen = ROUNDUP (pend div PGSIZE * 8) PGSIZE;
          info = set_refs 0 (pbase div PGSIZE) 1 (pageInfo s);
          info = set_refs (pbase div PGSIZE) (pend div PGSIZE) 0 info;
          info = set_refs (pbase div PGSIZE) (pbase div PGSIZE + tlen div PGSIZE) 1 info
      in s\<lparr>pageInfoLength := tlen, pageInfoTable := start, pageInfo := info\<rparr>)"

definition PAlloc_AddRegion :: "u64 \<Rightarrow> u64 \<Rightarrow> 'a xmem_scheme \<Rightarrow> 'a xmem_scheme option" where
  "PAlloc_AddRegion start len s = do {
     kassert (start mod PGSIZE = 0);
     kassert (len mod PGSIZE = 0);
     if pageInfoTable s = 0 then
       let s = AddRegion_first start len s
       in AddRegion_loop (start + pageInfoLength s) (len - pageInfoLength s) 0 s
     else do {
       x \<leftarrow> pageInfoXMem s;
       let pbase = DMVA2PA start;
       let pend = pbase + len;
       (ok, s) \<leftarrow> XMem_Allocate x (ROUNDUP (pend div PGSIZE * 8) PGSIZE) s;
       kassert ok;
       let s = s\<lparr>pageInfo := set_refs (pbase div PGSIZE) (pend div PGSIZE) 0 (pageInfo s)\<rparr>;
       AddRegion_loop start len 0 s
     }
   }"

section \<open>Adding the first region\<close>

lemma AddRegion_loop_result:
  assumes "k \<le> n" and "4096 * n < 2 ^ 64"
  shows "AddRegion_loop start (of_nat (4096 * n)) (of_nat (4096 * k)) s =
     Some (s\<lparr>mem := (\<lambda>a. if a \<in> (\<lambda>i. start + of_nat (4096 * i)) ` {k..<n} then FREEPAGE_MAGIC_FREE else mem s a),
             totalPages := totalPages s + of_nat (n - k), freePages := freePages s + of_nat (n - k),
             freeList := rev (map (\<lambda>i. start + of_nat (4096 * i)) [k..<n]) @ freeList s\<rparr>)"
  using assms
proof (induction "n - k" arbitrary: k s)
  case 0
  then show ?case by (simp add: AddRegion_loop.simps)
next
  case (Suc d)
  then have k: "k < n" by simp
  have lt: "(of_nat (4096 * k) :: u64) < of_nat (4096 * n)"
    by (rule word_of_nat_page [OF k Suc.prems(2)])
  have nx: "(of_nat (4096 * k) :: u64) + PGSIZE = of_nat (4096 * Suc k)" by (simp add: PGSIZE_def)
  have r: "[k..<n] = k # [Suc k..<n]" using k by (rule upt_conv_Cons)
  have i: "{k..<n} = insert k {Suc k..<n}" using k by auto
  have d: "of_nat (n - k) = (1 :: u64) + of_nat (n - Suc k)"
    using k by (metis of_nat_Suc Suc_diff_Suc)
  let ?f = "\<lambda>i. start + of_nat (4096 * i) :: u64"
  let ?s1 = "s\<lparr>mem := (mem s)(?f k := FREEPAGE_MAGIC_FREE), totalPages := totalPages s + 1,
    freePages := freePages s + 1, freeList := ?f k # freeList s\<rparr>"
  have "AddRegion_loop start (of_nat (4096 * n)) (of_nat (4096 * k)) s =
      AddRegion_loop start (of_nat (4096 * n)) (of_nat (4096 * Suc k)) ?s1"
    by (subst AddRegion_loop.simps) (simp only: lt if_True nx)
  also have "\<dots> = Some (?s1\<lparr>mem := (\<lambda>a. if a \<in> ?f ` {Suc k..<n} then FREEPAGE_MAGIC_FREE else mem ?s1 a),
      totalPages := totalPages ?s1 + of_nat (n - Suc k), freePages := freePages ?s1 + of_nat (n - Suc k),
      freeList := rev (map ?f [Suc k..<n]) @ freeList ?s1\<rparr>)"
    using Suc.hyps k by (intro Suc.hyps(1) Suc.prems(2)) simp_all
  also have "(\<lambda>a. if a \<in> ?f ` {Suc k..<n} then FREEPAGE_MAGIC_FREE else mem ?s1 a) =
      (\<lambda>a. if a \<in> ?f ` {k..<n} then FREEPAGE_MAGIC_FREE else mem s a)"
    unfolding i by (simp add: fun_eq_iff del: of_nat_mult)
  finally show ?case unfolding r d by (simp add: add.assoc)
qed

lemma AddRegion_first_refs:
  fixes s :: "'a xmem_scheme"
  assumes B: "unat (DMVA2PA start) = 4096 * B" and L: "unat len = 4096 * L" and bnd: "4096 * (B + L) < 2 ^ 64"
    and T: "unat (ROUNDUP ((DMVA2PA start + len) div PGSIZE * 8) PGSIZE) = 4096 * T" and "T \<le> L" and i: "i < L - T"
  shows "pg_refs (start + pageInfoLength (AddRegion_first start len s) + of_nat (4096 * i))
           (AddRegion_first start len s) = 0"
proof -
  let ?tlen = "ROUNDUP ((DMVA2PA start + len) div PGSIZE * 8) PGSIZE"
  let ?p = "start + ?tlen + of_nat (4096 * i)"
  have ni: "unat (of_nat (4096 * i) :: u64) = 4096 * i"
    using i bnd by (simp only: unsigned_of_nat) (simp add: take_bit_eq_mod)
  have 1: "unat (DMVA2PA start + ?tlen) = 4096 * (B + T)"
    using B T assms(5) bnd by (simp add: unat_word_ariths)
  have "DMVA2PA ?p = DMVA2PA start + ?tlen + of_nat (4096 * i)" by (simp add: DMVA2PA_def)
  then have "unat (DMVA2PA ?p) = 4096 * (B + T + i)"
    using 1 ni i bnd by (simp add: unat_word_ariths)
  then have p: "unat (PAllocGetInfo ?p) = B + T + i" by (simp add: PAllocGetInfo_def unat_div_PGSIZE)
  have lo: "unat (DMVA2PA start div PGSIZE) = B" "unat (?tlen div PGSIZE) = T" using B T by (simp_all add: unat_div_PGSIZE)
  have "unat (DMVA2PA start + len) = 4096 * (B + L)" using B L bnd by (simp add: unat_word_ariths)
  then have hi: "unat ((DMVA2PA start + len) div PGSIZE) = B + L" by (simp add: unat_div_PGSIZE)
  have "unat (DMVA2PA start div PGSIZE + ?tlen div PGSIZE) = B + T"
    using lo bnd assms(5) by (simp add: unat_word_ariths)
  moreover have "T + i < L" using i by simp
  ultimately show ?thesis
    using p lo hi by (simp add: AddRegion_first_def set_refs_def Let_def word_le_nat_alt word_less_nat_alt)
qed

definition region_pages :: "u64 \<Rightarrow> nat \<Rightarrow> u64 set" where
  "region_pages start n = (\<lambda>i. start + of_nat (4096 * i)) ` {0..<n}"

lemma region_inv:
  fixes s :: "'a kmem_scheme"
  assumes st: "pg_aligned start" and n: "4096 * n < 2 ^ 64"
    and emp: "freeList s = []" "freePages s = 0" "totalPages s = 0"
    and refs: "\<And>i. i < n \<Longrightarrow> pg_refs (start + of_nat (4096 * i)) s = 0"
  shows "palloc_inv (region_pages start n)
     (s\<lparr>mem := (\<lambda>a. if a \<in> (\<lambda>i. start + of_nat (4096 * i)) ` {0..<n} then FREEPAGE_MAGIC_FREE else mem s a),
        totalPages := totalPages s + of_nat n, freePages := freePages s + of_nat n,
        freeList := rev (map (\<lambda>i. start + of_nat (4096 * i)) [0..<n]) @ freeList s\<rparr>)"
proof -
  let ?f = "\<lambda>i. start + of_nat (4096 * i) :: u64"
  have inj: "inj_on ?f {0..<n}"
    using of_nat_page_inj [OF n] by (auto simp: inj_on_def simp del: of_nat_mult)
  have al: "pg_aligned (?f i)" for i
  proof (rule pg_aligned_add [OF st])
    show "pg_aligned (of_nat (4096 * i))" by (simp add: pg_aligned_uint uint_word_ariths mod_mod_cancel)
  qed
  have "distinct (rev (map ?f [0..<n]))" using inj by (simp add: distinct_map)
  moreover have "set (rev (map ?f [0..<n])) = region_pages start n" by (simp add: region_pages_def)
  moreover have "card (region_pages start n) = n"
    unfolding region_pages_def using inj by (simp add: card_image)
  moreover have "unat (of_nat n :: u64) = n" using n by (simp add: unsigned_of_nat take_bit_eq_mod)
  moreover have "\<forall>p \<in> region_pages start n. pg_refs p s = 0 \<and> pg_aligned p"
    using refs al by (auto simp: region_pages_def simp del: of_nat_mult)
  moreover have "finite (region_pages start n)" by (simp add: region_pages_def)
  ultimately show ?thesis
    using emp unfolding palloc_inv_def
    by (auto simp: region_pages_def simp del: of_nat_mult)
qed

text \<open>
  C21. Boot: \<^verbatim>\<open>PAlloc_Init\<close> and the first \<^verbatim>\<open>PAlloc_AddRegion\<close> on an aligned region of the
  direct map that has room for the table leave the allocator in its invariant: the pages
  behind the table are all free and counted, whatever was in memory before.
\<close>

theorem palloc_first_region:
  fixes s :: "'a xmem_scheme"
  assumes "pg_aligned start" and "pg_aligned len"
    and "unat (DMVA2PA start) + unat len \<le> 2 ^ 40"
    and "unat (ROUNDUP ((DMVA2PA start + len) div PGSIZE * 8) PGSIZE) \<le> unat len"
  shows "\<exists>s'. PAlloc_AddRegion start len (PAlloc_Init s) = Some s' \<and>
     palloc_inv (region_pages (start + pageInfoLength s') (unat (len - pageInfoLength s') div 4096)) s' \<and>
     unat (freePages s') = unat (len - pageInfoLength s') div 4096"
proof -
  let ?tlen = "ROUNDUP ((DMVA2PA start + len) div PGSIZE * 8) PGSIZE"
  let ?s = "AddRegion_first start len (PAlloc_Init s)"
  obtain B where B: "unat (DMVA2PA start) = 4096 * B" using pg_aligned_unat DMVA2PA_aligned assms(1) by blast
  obtain L where L: "unat len = 4096 * L" using pg_aligned_unat assms(2) by blast
  obtain T where T: "unat ?tlen = 4096 * T" using pg_aligned_unat ROUNDUP_aligned by blast
  have TL: "T \<le> L" using assms(4) L T by simp
  have bnd: "4096 * (B + L) < 2 ^ 64" using assms(3) B L by simp
  have u: "unat (len - ?tlen) = 4096 * (L - T)"
    using TL L T by (simp add: unat_sub_if_size word_le_nat_alt diff_mult_distrib2)
  then have len: "len - ?tlen = of_nat (4096 * (L - T))" by (metis u64_of_nat_unat)
  have tl: "pageInfoLength ?s = ?tlen" by (simp add: AddRegion_first_def Let_def)
  have n: "4096 * (L - T) < 2 ^ 64" using bnd by simp
  let ?n = "L - T"
  let ?s' = "?s\<lparr>mem := (\<lambda>a. if a \<in> (\<lambda>i. start + ?tlen + of_nat (4096 * i)) ` {0..<?n} then FREEPAGE_MAGIC_FREE else mem ?s a),
        totalPages := totalPages ?s + of_nat ?n, freePages := freePages ?s + of_nat ?n,
        freeList := rev (map (\<lambda>i. start + ?tlen + of_nat (4096 * i)) [0..<?n]) @ freeList ?s\<rparr>"
  have "PAlloc_AddRegion start len (PAlloc_Init s) = AddRegion_loop (start + ?tlen) (of_nat (4096 * ?n)) (of_nat (4096 * 0)) ?s"
    using assms(1,2) by (simp add: PAlloc_AddRegion_def pg_aligned_def PAlloc_Init_def tl [unfolded PAlloc_Init_def] len Let_def)
  also have "\<dots> = Some ?s'" using AddRegion_loop_result [of 0 ?n "start + ?tlen" ?s] n by simp
  finally have r: "PAlloc_AddRegion start len (PAlloc_Init s) = Some ?s'" .
  have inv: "palloc_inv (region_pages (start + ?tlen) ?n) ?s'"
  proof (rule region_inv [OF _ n])
    show "pg_aligned (start + ?tlen)" using assms(1) ROUNDUP_aligned by blast
    show "pg_refs (start + ?tlen + of_nat (4096 * i)) ?s = 0" if "i < ?n" for i
      using AddRegion_first_refs [OF B L bnd T TL that, of "PAlloc_Init s"] unfolding tl .
  qed (simp_all add: AddRegion_first_def PAlloc_Init_def Let_def)
  moreover have "unat (freePages ?s') = ?n"
    using n by (simp add: AddRegion_first_def PAlloc_Init_def Let_def unsigned_of_nat take_bit_eq_mod)
  moreover have pl: "pageInfoLength ?s' = ?tlen" using tl by simp
  moreover have "unat (len - pageInfoLength ?s') div 4096 = ?n" unfolding pl u by simp
  ultimately show ?thesis using r by (intro exI [of _ ?s']) (simp only: simp_thms)
qed

definition xmem_example :: xmem where
  "xmem_example = \<lparr>totalPages = 4, freePages = 0, pageInfo = (\<lambda>_. 7), pageInfoTable = 0,
     pageInfoLength = 0, pageInfoXMem = None, freeList = [], mem = (\<lambda>_. 0),
     systemAS = 0, currentAS = (\<lambda>_. 0), cr3 = (\<lambda>_. 0),
     regions = (\<lambda>_. \<lparr>inUse = False, base = 0, maxLength = 0, xlength = 0\<rparr>)\<rparr>"

theorem palloc_first_region_witness:
  "\<exists>s'. PAlloc_AddRegion 0xFFFF800001000000 0x1000000 (PAlloc_Init xmem_example) = Some s' \<and>
     palloc_inv (region_pages (0xFFFF800001000000 + pageInfoLength s')
       (unat (0x1000000 - pageInfoLength s') div 4096)) s'"
proof -
  have "pg_aligned 0xFFFF800001000000" "pg_aligned 0x1000000"
    by (simp_all add: pg_aligned_def PGSIZE_def)
  moreover have "unat (DMVA2PA 0xFFFF800001000000) + unat (0x1000000 :: u64) \<le> 2 ^ 40"
    by (simp add: DMVA2PA_def MEM_DIRECTMAP_BASE_def)
  moreover have "unat (ROUNDUP ((DMVA2PA 0xFFFF800001000000 + 0x1000000) div PGSIZE * 8) PGSIZE)
      \<le> unat (0x1000000 :: u64)"
    by (simp add: DMVA2PA_def MEM_DIRECTMAP_BASE_def PGSIZE_def ROUNDUP_def)
  ultimately show ?thesis using palloc_first_region by blast
qed

section \<open>Growing a region\<close>

lemma pt_wf_alloc:
  fixes s :: "'a vmem_scheme"
  assumes wf: "pt_wf P as s" and fl: "freeList s = pg # rest"
  obtains s' where "PAlloc_AllocPage s = Some (pg, s')" "pt_wf P as s'" "freeList s' = rest"
    "systemAS s' = systemAS s" "vmem.more s' = vmem.more s" "pageInfo s' = (pageInfo s)(PAllocGetInfo pg := 1)"
    "\<And>va. PMap_Translate as va s' = PMap_Translate as va s" "\<And>va. pt_small as va s' = pt_small as va s"
proof -
  have inv: "palloc_inv P s" by (rule pt_wfD(1) [OF wf])
  define s' where "s' = s\<lparr>freeList := rest, pageInfo := (pageInfo s)(PAllocGetInfo pg := 1),
                  freePages := freePages s - 1, mem := memset_page (mem s) pg\<rparr>"
  have a: "PAlloc_AllocPage s = Some (pg, s')" and pg: "pg \<in> P" "pg_refs pg s = 0"
    using PAlloc_AllocPage_cases [OF inv fl] by (auto simp: s'_def)
  have al: "pg_aligned pg" using inv pg by (simp add: palloc_inv_def)
  have keep: "mem s' (pte_addr t x) = mem s (pte_addr t x)"
    if "pt_path p" "pt_walk as s p = Some t" "x < 512" for p t x
  proof -
    note T = pt_wfD(3,5) [OF wf that(1,2)]
    have "t \<noteq> pg" using T pg by auto
    then show ?thesis using pte_addr_not_in_page [OF T(2) al that(3)] by (simp add: s'_def memset_page_def)
  qed
  have root: "mem s' as = mem s as" using pt_wfD(8) [OF wf pg] by (simp add: s'_def memset_page_def)
  have refs: "pg_refs q s' \<noteq> 0" if "pg_refs q s \<noteq> 0" for q using that by (simp add: s'_def)
  note ainv = PAlloc_AllocPage_inv [OF inv a]
  have "pt_wf P as s'" using pt_wf_frame(1) [OF wf ainv root] keep refs by blast
  have w: "pt_walk as s' p = pt_walk as s p" if "pt_path p" for p
    using pt_wf_frame(2) [OF wf ainv root _ _ that] keep refs by blast
  have tr: "PMap_Translate as va s' = PMap_Translate as va s" for va
  proof (rule PMap_Translate_cong [OF _ wf])
    show "mem s' (pte_addr (mem s' as) (idx_i va)) = mem s (pte_addr (mem s as) (idx_i va))"
      unfolding root by (rule keep [of "[]"]) simp_all
  qed (rule keep)
  have sm: "pt_small as va s' = pt_small as va s" for va
    using w [of "[idx_i va, idx_j va]"] keep [of "[idx_i va, idx_j va]" _ "idx_k va"]
    unfolding pt_small_def by (auto simp del: walk.simps split: option.split)
  show thesis by (rule that [OF a \<open>pt_wf P as s'\<close> _ _ _ _ tr sm]) (simp_all add: s'_def)
qed

lemma set_word_more [simp]: "vmem.more (set_word a v s) = vmem.more s"
  by (simp add: set_word_def)

lemma PAlloc_AllocPage_more:
  fixes s :: "'a vmem_scheme"
  shows "PAlloc_AllocPage s = Some (pg, s') \<Longrightarrow> vmem.more s' = vmem.more s \<and> systemAS s' = systemAS s"
  by (auto simp: PAlloc_AllocPage_def Let_def split: list.splits)

lemma PMapAllocPageTable_more:
  "PMapAllocPageTable s = Some (pg, s') \<Longrightarrow> vmem.more s' = vmem.more s \<and> systemAS s' = systemAS s"
  by (auto simp: PMapAllocPageTable_def bind_eq_Some_conv dest!: PAlloc_AllocPage_more
      dest: for_each_more [where g = vmem.more, rotated] for_each_more [where g = systemAS, rotated])

lemma pmap_descend_more:
  "pmap_descend t i s = Some (pg, s') \<Longrightarrow> vmem.more s' = vmem.more s \<and> systemAS s' = systemAS s"
  by (auto simp: pmap_descend_def Let_def bind_eq_Some_conv dest!: PMapAllocPageTable_more split: if_splits)

lemma PMapLookupEntry_more:
  "PMapLookupEntry as va sz s = Some (e, s') \<Longrightarrow> vmem.more s' = vmem.more s \<and> systemAS s' = systemAS s"
  by (auto simp: PMapLookupEntry_def bind_eq_Some_conv dest!: pmap_descend_more split: if_splits)

lemma regions_more: "vmem.more s' = vmem.more s \<Longrightarrow> regions s' = regions s"
  by (cases s; cases s') simp

lemma cint_mul_0 [simp]: "cint_mul a 0 = Some 0"
  by (simp add: cint_mul_def)

lemma PMap_SystemMap_one:
  "PMap_SystemMap phys va 1 flags s = PMapLookupEntry (systemAS s) va PGSIZE s \<bind>
     (\<lambda>(entry, s). Some (set_word entry (phys OR PTE_P OR PTE_W OR flags) s))"
  by (simp add: PMap_SystemMap_def split_def)

lemma pte_phys_kernel:
  assumes "phys AND pa_mask = 0"
  shows "(phys OR PTE_P OR PTE_W OR 0) AND NOT (PGMASK OR PTE_NX) = phys"
proof -
  have "(PTE_P OR PTE_W OR 0) AND NOT pa_mask = 0"
    by (simp add: pa_mask_def PTE_P_def PTE_W_def PGMASK_def PTE_NX_def)
  from or_flags_and_not [OF assms this] show ?thesis by (simp add: pa_mask_def)
qed

lemma PMap_Translate_mem: "mem s' = mem s \<Longrightarrow> PMap_Translate as va s' = PMap_Translate as va s"
  by (simp only: PMap_Translate_def)

lemma pt_small_mem: "mem s' = mem s \<Longrightarrow> pt_small as va s' = pt_small as va s"
  by (simp only: pt_small_def)

lemma pt_wf_regions [simp]: "pt_wf P as (s\<lparr>regions := r\<rparr>) = pt_wf P as s"
  by (simp add: pt_wf_def palloc_inv_def)

lemma XMem_grow_page:
  fixes s :: "'a xmem_scheme"
  assumes wf: "pt_wf P (systemAS s) s" and sm: "pt_small (systemAS s) (base (regions s x) + off) s"
    and fl: "freeList s = pg # rest" "3 \<le> length rest" and pa: "DMVA2PA pg AND pa_mask = 0"
  obtains s' where "XMem_grow x off s = Some s'" "pt_wf P (systemAS s) s'" "systemAS s' = systemAS s"
    "regions s' = (regions s)(x := (regions s x)\<lparr>xlength := xlength (regions s x) + PGSIZE\<rparr>)"
    "suffix (freeList s') rest" "length rest \<le> 3 + length (freeList s')"
    "\<And>va. va_page va = va_page (base (regions s x) + off) \<Longrightarrow>
       PMap_Translate (systemAS s) va s' = Some (DMVA2PA pg + (va AND PGMASK))"
    "\<And>va pa. va_page va \<noteq> va_page (base (regions s x) + off) \<Longrightarrow>
       PMap_Translate (systemAS s) va s = Some pa \<Longrightarrow> PMap_Translate (systemAS s) va s' = Some pa"
    "\<And>va. pt_small (systemAS s) va s \<Longrightarrow> pt_small (systemAS s) va s'"
proof -
  obtain s1 where s1: "PAlloc_AllocPage s = Some (pg, s1)" "pt_wf P (systemAS s) s1" "freeList s1 = rest"
    "systemAS s1 = systemAS s" "vmem.more s1 = vmem.more s" "pageInfo s1 = (pageInfo s)(PAllocGetInfo pg := 1)"
    and t1: "\<And>va. PMap_Translate (systemAS s) va s1 = PMap_Translate (systemAS s) va s"
    and m1: "\<And>va. pt_small (systemAS s) va s1 = pt_small (systemAS s) va s"
    by (rule pt_wf_alloc [OF wf fl(1)]) (rule that)
  have r1: "regions s1 = regions s" using s1(5) by (rule regions_more)
  let ?va = "base (regions s x) + off"
  let ?v = "DMVA2PA pg OR PTE_P OR PTE_W OR 0"
  have "3 \<le> length (freeList s1)" using fl s1(3) by simp
  note mp = map_page [OF s1(2) sm [folded m1] this, where v = ?v]
  obtain t s2 where s2: "PMapLookupEntry (systemAS s) ?va PGSIZE s1 = Some (pte_addr t (idx_l ?va), s2)"
      "pt_wf P (systemAS s) (set_word (pte_addr t (idx_l ?va)) ?v s2)"
    and tr: "\<And>va'. va_page va' = va_page ?va \<Longrightarrow>
           PMap_Translate (systemAS s) va' (set_word (pte_addr t (idx_l ?va)) ?v s2) =
           Some ((?v AND NOT (PGMASK OR PTE_NX)) + (va' AND PGMASK))"
    and fr: "\<And>va' pa. va_page va' \<noteq> va_page ?va \<Longrightarrow> PMap_Translate (systemAS s) va' s1 = Some pa \<Longrightarrow>
           PMap_Translate (systemAS s) va' (set_word (pte_addr t (idx_l ?va)) ?v s2) = Some pa"
    and sm': "\<And>va'. pt_small (systemAS s) va' s1 \<Longrightarrow> pt_small (systemAS s) va' (set_word (pte_addr t (idx_l ?va)) ?v s2)"
    and len: "length (freeList s1) \<le> 3 + length (freeList s2)" and suf: "suffix (freeList s2) (freeList s1)"
    by (rule mp) (rule that)
  have m2: "regions s2 = regions s" "systemAS s2 = systemAS s"
    using PMapLookupEntry_more [OF s2(1)] regions_more [of s2 s1] r1 s1(4) by simp_all
  let ?s3 = "set_word (pte_addr t (idx_l ?va)) ?v s2"
  define s' where "s' = ?s3\<lparr>regions := (regions s)(x := (regions s x)\<lparr>xlength := xlength (regions s x) + PGSIZE\<rparr>)\<rparr>"
  have r3: "regions ?s3 = regions s" using m2 regions_more [of ?s3 s2] by simp
  have g: "XMem_grow x off s = Some s'"
    using s1 s2(1) r1 r3 by (simp add: XMem_grow_def PMap_SystemMap_one s'_def)
  have e: "mem s' = mem ?s3" "freeList s' = freeList s2" "pageInfo s' = pageInfo ?s3" by (simp_all add: s'_def)
  note tre = PMap_Translate_mem [OF e(1)] and sme = pt_small_mem [OF e(1)]
  have wf': "pt_wf P (systemAS s) s'" unfolding s'_def pt_wf_regions by (rule s2(2))
  show thesis
  proof (rule that [OF g wf'])
    show "suffix (freeList s') rest" "length rest \<le> 3 + length (freeList s')"
      using suf len s1(3) e by simp_all
    show "PMap_Translate (systemAS s) va s' = Some (DMVA2PA pg + (va AND PGMASK))" if "va_page va = va_page ?va" for va
      unfolding tre tr [OF that] pte_phys_kernel [OF pa] ..
    show "PMap_Translate (systemAS s) va s' = Some pa"
      if "va_page va \<noteq> va_page ?va" "PMap_Translate (systemAS s) va s = Some pa" for va pa
      unfolding tre by (rule fr [OF that(1)]) (simp only: t1 that(2))
    show "pt_small (systemAS s) va s'" if "pt_small (systemAS s) va s" for va
      unfolding sme by (rule sm') (simp only: m1 that)
  qed (simp_all add: s'_def m2)
qed

lemma nth_page_less:
  assumes "j < n" "unat a + 4096 * n < 2 ^ 64"
  shows "nth_page a j < nth_page a n"
  using assms nth_page_unat [of a j] nth_page_unat [of a n] by (simp add: word_less_nat_alt)

lemma XMem_Allocate_loop_grows:
  fixes s :: "'a xmem_scheme"
  assumes "pt_wf P sys s" "systemAS s = sys" "base (regions s x) = b" "xlength (regions s x) = nth_page l j"
    and "j \<le> n" "n \<le> 2 ^ 36" "unat l + 4096 * n < 2 ^ 64"
    and "\<And>i. i < n \<Longrightarrow> pt_small sys (nth_page (b + l) i) s"
    and "\<And>p. p \<in> set (freeList s) \<Longrightarrow> DMVA2PA p AND pa_mask = 0" and "4 * (n - j) \<le> length (freeList s)"
  shows "\<exists>s' pgs. XMem_Allocate_loop x (nth_page l j) (nth_page l n) s = Some s' \<and> pt_wf P sys s' \<and>
     regions s' = (regions s)(x := (regions s x)\<lparr>xlength := nth_page l n\<rparr>) \<and>
     length pgs = n - j \<and> distinct pgs \<and> set pgs \<subseteq> set (freeList s) \<and>
     (\<forall>i va. j \<le> i \<longrightarrow> i < n \<longrightarrow> va_page va = va_page (nth_page (b + l) i) \<longrightarrow>
        PMap_Translate sys va s' = Some (DMVA2PA (pgs ! (i - j)) + (va AND PGMASK))) \<and>
     (\<forall>va pa. (\<forall>i. j \<le> i \<longrightarrow> i < n \<longrightarrow> va_page va \<noteq> va_page (nth_page (b + l) i)) \<longrightarrow>
        PMap_Translate sys va s = Some pa \<longrightarrow> PMap_Translate sys va s' = Some pa)"
  using assms
proof (induction "n - j" arbitrary: j s)
  case 0
  then have "regions s = (regions s)(x := (regions s x)\<lparr>xlength := nth_page l n\<rparr>)" by (simp add: fun_eq_iff)
  with 0 show ?case by (intro exI [of _ s] exI [of _ "[]"]) (simp add: XMem_Allocate_loop.simps)
next
  case (Suc d)
  have j: "j < n" using Suc.hyps(2) by simp
  have lt: "nth_page l j < nth_page l n" by (rule nth_page_less [OF j Suc.prems(7)])
  have "4 \<le> length (freeList s)" using Suc.prems(10) j by simp
  then obtain pg rest where fl: "freeList s = pg # rest" "3 \<le> length rest"
    by (cases "freeList s") auto
  let ?va = "base (regions s x) + nth_page l j"
  have va: "?va = nth_page (b + l) j" using Suc.prems(3) by (simp add: algebra_simps)
  have nx: "nth_page l j + PGSIZE = nth_page l (Suc j)" by (simp add: PGSIZE_def algebra_simps)
  note g = XMem_grow_page [OF Suc.prems(1) [folded Suc.prems(2)] _ fl, of x "nth_page l j", unfolded va Suc.prems(2)]
  obtain s1 where s1: "XMem_grow x (nth_page l j) s = Some s1" "pt_wf P sys s1" "systemAS s1 = sys"
    "regions s1 = (regions s)(x := (regions s x)\<lparr>xlength := xlength (regions s x) + PGSIZE\<rparr>)"
    "suffix (freeList s1) rest" "length rest \<le> 3 + length (freeList s1)"
    and tr: "\<And>va. va_page va = va_page (nth_page (b + l) j) \<Longrightarrow>
       PMap_Translate sys va s1 = Some (DMVA2PA pg + (va AND PGMASK))"
    and fr: "\<And>va pa. va_page va \<noteq> va_page (nth_page (b + l) j) \<Longrightarrow>
       PMap_Translate sys va s = Some pa \<Longrightarrow> PMap_Translate sys va s1 = Some pa"
    and sm: "\<And>va. pt_small sys va s \<Longrightarrow> pt_small sys va s1"
    by (rule g [OF Suc.prems(8) [OF j] Suc.prems(9)]) (use fl in simp, rule that)
  have sub: "set (freeList s1) \<subseteq> set rest" using s1(5) by (rule set_mono_suffix)
  have "pg \<notin> set rest" using pt_wfD(1) [OF Suc.prems(1)] fl by (auto simp: palloc_inv_def)
  have "\<exists>s' pgs. XMem_Allocate_loop x (nth_page l (Suc j)) (nth_page l n) s1 = Some s' \<and> pt_wf P sys s' \<and>
     regions s' = (regions s1)(x := (regions s1 x)\<lparr>xlength := nth_page l n\<rparr>) \<and>
     length pgs = n - Suc j \<and> distinct pgs \<and> set pgs \<subseteq> set (freeList s1) \<and>
     (\<forall>i va. Suc j \<le> i \<longrightarrow> i < n \<longrightarrow> va_page va = va_page (nth_page (b + l) i) \<longrightarrow>
        PMap_Translate sys va s' = Some (DMVA2PA (pgs ! (i - Suc j)) + (va AND PGMASK))) \<and>
     (\<forall>va pa. (\<forall>i. Suc j \<le> i \<longrightarrow> i < n \<longrightarrow> va_page va \<noteq> va_page (nth_page (b + l) i)) \<longrightarrow>
        PMap_Translate sys va s1 = Some pa \<longrightarrow> PMap_Translate sys va s' = Some pa)"
  proof (rule Suc.hyps(1))
    show "xlength (regions s1 x) = nth_page l (Suc j)" using s1(4) Suc.prems(4) nx by simp
    show "base (regions s1 x) = b" using s1(4) Suc.prems(3) by simp
    show "4 * (n - Suc j) \<le> length (freeList s1)" using Suc.prems(10) s1(6) fl(1) j by simp
    show "DMVA2PA p AND pa_mask = 0" if "p \<in> set (freeList s1)" for p
      using that sub fl(1) Suc.prems(9) by auto
    show "pt_small sys (nth_page (b + l) i) s1" if "i < n" for i by (rule sm [OF Suc.prems(8) [OF that]])
  qed (use Suc.hyps(2) Suc.prems j s1 in simp_all)
  then obtain s' pgs where s': "XMem_Allocate_loop x (nth_page l (Suc j)) (nth_page l n) s1 = Some s'" "pt_wf P sys s'"
     "regions s' = (regions s1)(x := (regions s1 x)\<lparr>xlength := nth_page l n\<rparr>)"
     "length pgs = n - Suc j" "distinct pgs" "set pgs \<subseteq> set (freeList s1)"
    and tr': "\<forall>i va. Suc j \<le> i \<longrightarrow> i < n \<longrightarrow> va_page va = va_page (nth_page (b + l) i) \<longrightarrow>
        PMap_Translate sys va s' = Some (DMVA2PA (pgs ! (i - Suc j)) + (va AND PGMASK))"
    and fr': "\<forall>va pa. (\<forall>i. Suc j \<le> i \<longrightarrow> i < n \<longrightarrow> va_page va \<noteq> va_page (nth_page (b + l) i)) \<longrightarrow>
        PMap_Translate sys va s1 = Some pa \<longrightarrow> PMap_Translate sys va s' = Some pa"
    by blast
  have other: "va_page va \<noteq> va_page (nth_page (b + l) i)"
    if "Suc j \<le> i" "i < n" "va_page va = va_page (nth_page (b + l) j)" for i va
    using va_page_inj [of "b + l" "int j" "int i"] that Suc.prems(6) j by auto
  show ?case
  proof (intro exI conjI allI impI)
    show "XMem_Allocate_loop x (nth_page l j) (nth_page l n) s = Some s'"
      by (subst XMem_Allocate_loop.simps) (simp only: lt if_True s1(1) bind.bind_lunit nx s'(1))
    show "pt_wf P sys s'" by (rule s'(2))
    show "regions s' = (regions s)(x := (regions s x)\<lparr>xlength := nth_page l n\<rparr>)" using s'(3) s1(4) by simp
    show "length (pg # pgs) = n - j" using s'(4) j by simp
    show "distinct (pg # pgs)" using s'(5,6) sub \<open>pg \<notin> set rest\<close> by auto
    show "set (pg # pgs) \<subseteq> set (freeList s)" using s'(6) sub fl(1) by auto
    fix i va
    assume i: "j \<le> i" "i < n" "va_page va = va_page (nth_page (b + l) i)"
    show "PMap_Translate sys va s' = Some (DMVA2PA ((pg # pgs) ! (i - j)) + (va AND PGMASK))"
    proof (cases "i = j")
      case True
      with tr [of va] i have "PMap_Translate sys va s1 = Some (DMVA2PA pg + (va AND PGMASK))" by simp
      with fr' other i True show ?thesis by simp
    next
      case False
      with i have "Suc j \<le> i" "i - j = Suc (i - Suc j)" by auto
      with tr' i show ?thesis by simp
    qed
  next
    fix va pa
    assume "\<forall>i. j \<le> i \<longrightarrow> i < n \<longrightarrow> va_page va \<noteq> va_page (nth_page (b + l) i)" "PMap_Translate sys va s = Some pa"
    with fr [of va pa] fr' j show "PMap_Translate sys va s' = Some pa" by simp
  qed
qed

text \<open>
  C20. Growing a region: with four free pages for each page to add, \<^verbatim>\<open>XMem_Allocate\<close> to a
  page-aligned length within the region's limit succeeds.  The new addresses translate to
  distinct pages that were free before, all other translations stay, the page tables stay
  well formed and the recorded length is the requested one.
\<close>

theorem xmem_allocate_grows:
  fixes s :: "'a xmem_scheme"
  assumes wf: "pt_wf P (systemAS s) s"
    and lens: "xlength (regions s x) = l" "len = nth_page l n" "n \<le> 2 ^ 36" "unat l + 4096 * n < 2 ^ 64"
    and limit: "len \<le> maxLength (regions s x)"
    and small: "\<forall>i < n. pt_small (systemAS s) (nth_page (base (regions s x) + l) i) s"
    and phys: "\<forall>p \<in> set (freeList s). unat (DMVA2PA p) < 2 ^ 63" and free: "4 * n \<le> length (freeList s)"
  shows "\<exists>s' pgs. XMem_Allocate x len s = Some (True, s') \<and> pt_wf P (systemAS s) s' \<and>
     regions s' = (regions s)(x := (regions s x)\<lparr>xlength := len\<rparr>) \<and>
     length pgs = n \<and> distinct pgs \<and> set pgs \<subseteq> set (freeList s) \<and>
     (\<forall>i va. i < n \<longrightarrow> va_page va = va_page (nth_page (base (regions s x) + l) i) \<longrightarrow>
        PMap_Translate (systemAS s) va s' = Some (DMVA2PA (pgs ! i) + (va AND PGMASK))) \<and>
     (\<forall>va pa. (\<forall>i < n. va_page va \<noteq> va_page (nth_page (base (regions s x) + l) i)) \<longrightarrow>
        PMap_Translate (systemAS s) va s = Some pa \<longrightarrow> PMap_Translate (systemAS s) va s' = Some pa)"
proof -
  have al: "DMVA2PA p AND pa_mask = 0" if "p \<in> set (freeList s)" for p
    using that phys pt_wfD(1) [OF wf] by (intro pa_mask_clear DMVA2PA_aligned) (auto simp: palloc_inv_def)
  have "l \<le> len" using nth_page_unat [OF lens(4)] unfolding lens(2) by (simp add: word_le_nat_alt)
  then have "\<not> len < xlength (regions s x)" "\<not> maxLength (regions s x) < len"
    using limit lens(1) by (simp_all add: not_less)
  then have "XMem_Allocate x len s = XMem_Allocate_loop x l len s \<bind> (\<lambda>s. Some (True, s))"
    using lens(1) by (simp add: XMem_Allocate_def)
  then have alloc: "XMem_Allocate x len s = XMem_Allocate_loop x (nth_page l 0) (nth_page l n) s \<bind> (\<lambda>s. Some (True, s))"
    unfolding lens(2) by simp
  have "xlength (regions s x) = nth_page l 0" using lens(1) by simp
  from XMem_Allocate_loop_grows [OF wf refl refl this _ lens(3,4) _ al] small free
  obtain s' pgs where "XMem_Allocate_loop x (nth_page l 0) (nth_page l n) s = Some s'" and
    r: "pt_wf P (systemAS s) s' \<and> regions s' = (regions s)(x := (regions s x)\<lparr>xlength := nth_page l n\<rparr>) \<and>
     length pgs = n - 0 \<and> distinct pgs \<and> set pgs \<subseteq> set (freeList s) \<and>
     (\<forall>i va. 0 \<le> i \<longrightarrow> i < n \<longrightarrow> va_page va = va_page (nth_page (base (regions s x) + l) i) \<longrightarrow>
        PMap_Translate (systemAS s) va s' = Some (DMVA2PA (pgs ! (i - 0)) + (va AND PGMASK))) \<and>
     (\<forall>va pa. (\<forall>i. 0 \<le> i \<longrightarrow> i < n \<longrightarrow> va_page va \<noteq> va_page (nth_page (base (regions s x) + l) i)) \<longrightarrow>
        PMap_Translate (systemAS s) va s = Some pa \<longrightarrow> PMap_Translate (systemAS s) va s' = Some pa)"
    by auto
  then have "XMem_Allocate x len s = Some (True, s')" using alloc by simp
  with r show ?thesis unfolding lens(2) by auto
qed

definition xmem_state :: "'a \<Rightarrow> 'a xmem_scheme" where
  "xmem_state ext = vmem_state \<lparr>regions =
     (\<lambda>_. \<lparr>inUse = True, base = MEM_XMAP_BASE, maxLength = 0x8000000, xlength = 0\<rparr>), \<dots> = ext\<rparr>"

theorem xmem_allocate_grows_witness:
  "\<exists>s' pgs pa. XMem_Allocate 0 PGSIZE (xmem_state ()) = Some (True, s') \<and>
     PMap_Translate 0xFFFF800000100000 (MEM_XMAP_BASE + 8) s' = Some pa"
proof -
  let ?s = "xmem_state () :: xmem"
  have e: "systemAS ?s = 0xFFFF800000100000" "regions ?s 0 = \<lparr>inUse = True, base = MEM_XMAP_BASE, maxLength = 0x8000000, xlength = 0\<rparr>"
    by (simp_all add: xmem_state_def vmem_state_def)
  have "\<exists>s' pgs. XMem_Allocate 0 PGSIZE ?s = Some (True, s') \<and> pt_wf vpages_example (systemAS ?s) s' \<and>
     regions s' = (regions ?s)(0 := (regions ?s 0)\<lparr>xlength := PGSIZE\<rparr>) \<and>
     length pgs = 1 \<and> distinct pgs \<and> set pgs \<subseteq> set (freeList ?s) \<and>
     (\<forall>i va. i < 1 \<longrightarrow> va_page va = va_page (nth_page (base (regions ?s 0) + 0) i) \<longrightarrow>
        PMap_Translate (systemAS ?s) va s' = Some (DMVA2PA (pgs ! i) + (va AND PGMASK))) \<and>
     (\<forall>va pa. (\<forall>i < 1. va_page va \<noteq> va_page (nth_page (base (regions ?s 0) + 0) i)) \<longrightarrow>
        PMap_Translate (systemAS ?s) va ?s = Some pa \<longrightarrow> PMap_Translate (systemAS ?s) va s' = Some pa)"
  proof (rule xmem_allocate_grows)
    show "pt_wf vpages_example (systemAS ?s) ?s" unfolding e(1) unfolding xmem_state_def by (rule vmem_state_wf)
    show "\<forall>i < 1. pt_small (systemAS ?s) (nth_page (base (regions ?s 0) + 0) i) ?s"
      unfolding e(1) unfolding xmem_state_def by (simp only: vmem_state_small simp_thms)
    show "\<forall>p \<in> set (freeList ?s). unat (DMVA2PA p) < 2 ^ 63"
      by (simp add: xmem_state_def vmem_state_def DMVA2PA_def MEM_DIRECTMAP_BASE_def)
    show "4 * 1 \<le> length (freeList ?s)" by (simp add: xmem_state_def vmem_state_def)
  qed (simp_all add: e PGSIZE_def)
  then obtain s' pgs where a: "XMem_Allocate 0 PGSIZE ?s = Some (True, s')" and
    tr: "\<forall>i va. i < 1 \<longrightarrow> va_page va = va_page (nth_page (base (regions ?s 0) + 0) i) \<longrightarrow>
        PMap_Translate (systemAS ?s) va s' = Some (DMVA2PA (pgs ! i) + (va AND PGMASK))" by blast
  have "va_page (MEM_XMAP_BASE + 8) = va_page (nth_page (base (regions ?s 0) + 0) 0)"
    by (simp add: e va_page_def idx_i_def idx_j_def idx_k_def idx_l_def pmap_consts MEM_XMAP_BASE_def)
  with tr have "PMap_Translate (systemAS ?s) (MEM_XMAP_BASE + 8) s' = Some (DMVA2PA (pgs ! 0) + ((MEM_XMAP_BASE + 8) AND PGMASK))"
    by blast
  with a show ?thesis unfolding e by blast
qed

end
