(* ===== verification/Slab.thy ===== *)
theory Slab
  imports XMem
begin

text \<open>
  The slab allocator of kernel objects, \<^verbatim>\<open>src/sys/kern/slab.c\<close>.

  A slab is a value; the list links that a free object holds in its first words are
  abstracted to the list \<open>slabFree\<close> of object addresses in list order.
\<close>

section \<open>State\<close>

record slab =
  objsz :: u64
  align :: u64
  slabXMem :: nat
  objs :: u64
  freeObjs :: u64
  slabFree :: "u64 list"
  allocs :: u64
  frees :: u64
  slabName :: string

record kslabs = xmem +
  slabList :: "string list"

definition SLAB_NAMELEN :: nat where
  "SLAB_NAMELEN = 32"

text \<open>\<^verbatim>\<open>sizeof(SlabElement)\<close>: the two pointers of a \<^verbatim>\<open>LIST_ENTRY\<close>.\<close>

definition sizeof_SlabElement :: u64 where
  "sizeof_SlabElement = 16"

section \<open>Operations\<close>

definition Slab_Init :: "string \<Rightarrow> u64 \<Rightarrow> u64 \<Rightarrow> 'a kslabs_scheme \<Rightarrow> (slab \<times> 'a kslabs_scheme) option" where
  "Slab_Init name sz al s = do {
     kassert (sizeof_SlabElement \<le> sz);
     let (x, s) = XMem_New s;
     x \<leftarrow> x;
     Some (\<lparr>objsz = sz, align = al, slabXMem = x, objs = 0, freeObjs = 0, slabFree = [],
            allocs = 0, frees = 0, slabName = take SLAB_NAMELEN name\<rparr>,
           s\<lparr>slabList := take SLAB_NAMELEN name # slabList s\<rparr>)
   }"

definition realObjSz :: "slab \<Rightarrow> u64" where
  "realObjSz sl = ROUNDUP (objsz sl) (align sl)"

definition slab_inc :: "slab \<Rightarrow> u64" where
  "slab_inc sl =
     (let inc = ROUNDUP (realObjSz sl * 64) PGSIZE in if inc < 4 * PGSIZE then 4 * PGSIZE else inc)"

text \<open>The addresses of the new objects, in the order of the loop.\<close>

definition slab_elems :: "slab \<Rightarrow> u64 \<Rightarrow> u64 list" where
  "slab_elems sl start =
     map (\<lambda>i. start + of_nat i * realObjSz sl) [0..<unat (slab_inc sl div realObjSz sl)]"

definition SlabExtend :: "slab \<Rightarrow> 'a kslabs_scheme \<Rightarrow> (int \<times> slab \<times> 'a kslabs_scheme) option" where
  "SlabExtend sl s = do {
     let b = XMem_GetBase (slabXMem sl) s;
     let len = XMem_GetLength (slabXMem sl) s;
     (ok, s) \<leftarrow> XMem_Allocate (slabXMem sl) (len + slab_inc sl) s;
     if \<not> ok then Some (- 1, sl, s)
     else do {
       kassert (realObjSz sl \<noteq> 0);
       let n = slab_inc sl div realObjSz sl;
       Some (0, sl\<lparr>slabFree := rev (slab_elems sl (b + len)) @ slabFree sl,
                   objs := objs sl + n, freeObjs := freeObjs sl + n\<rparr>, s)
     }
   }"

definition Slab_Alloc :: "slab \<Rightarrow> 'a kslabs_scheme \<Rightarrow> (u64 option \<times> slab \<times> 'a kslabs_scheme) option" where
  "Slab_Alloc sl s = do {
     (sl, s) \<leftarrow> (if freeObjs sl = 0 then map_option snd (SlabExtend sl s) else Some (sl, s));
     case slabFree sl of
       [] \<Rightarrow> Some (None, sl, s)
     | e # es \<Rightarrow> Some (Some e, sl\<lparr>slabFree := es, allocs := allocs sl + 1, freeObjs := freeObjs sl - 1\<rparr>, s)
   }"

definition Slab_Free :: "slab \<Rightarrow> u64 \<Rightarrow> slab" where
  "Slab_Free sl region =
     sl\<lparr>slabFree := region # slabFree sl, frees := frees sl + 1, freeObjs := freeObjs sl + 1\<rparr>"

section \<open>The contract of an object pool\<close>

text \<open>
  What the users of a slab rely on.  \<open>inv L s\<close> relates the state to the set \<open>L\<close> of objects
  handed out and not yet freed.  An allocation may fail (\<open>Some (None, _)\<close>), but an object it
  returns is not in use; freeing an object in use is always possible.
\<close>

datatype pool_op = PoolAlloc | PoolFree u64

fun pool_run :: "('s \<Rightarrow> (u64 option \<times> 's) option) \<Rightarrow> (u64 \<Rightarrow> 's \<Rightarrow> 's) \<Rightarrow>
    pool_op list \<Rightarrow> u64 set \<Rightarrow> 's \<Rightarrow> (u64 set \<times> 's) option" where
  "pool_run al fr [] L s = Some (L, s)"
| "pool_run al fr (PoolAlloc # ops) L s =
     (case al s of
        None \<Rightarrow> None
      | Some (None, s') \<Rightarrow> pool_run al fr ops L s'
      | Some (Some obj, s') \<Rightarrow> pool_run al fr ops (insert obj L) s')"
| "pool_run al fr (PoolFree obj # ops) L s =
     (if obj \<in> L then pool_run al fr ops (L - {obj}) (fr obj s) else None)"

locale object_pool =
  fixes al :: "'s \<Rightarrow> (u64 option \<times> 's) option"
    and fr :: "u64 \<Rightarrow> 's \<Rightarrow> 's"
    and inv :: "u64 set \<Rightarrow> 's \<Rightarrow> bool"
  assumes alloc_fresh: "inv L s \<Longrightarrow> al s = Some (Some obj, s') \<Longrightarrow> obj \<notin> L \<and> inv (insert obj L) s'"
    and alloc_fail: "inv L s \<Longrightarrow> al s = Some (None, s') \<Longrightarrow> inv L s'"
    and free_inv: "inv L s \<Longrightarrow> obj \<in> L \<Longrightarrow> inv (L - {obj}) (fr obj s)"
begin

lemma pool_run_inv:
  "inv L s \<Longrightarrow> pool_run al fr ops L s = Some (L', s') \<Longrightarrow> inv L' s'"
proof (induction ops arbitrary: L s)
  case Nil
  then show ?case by simp
next
  case (Cons op ops)
  show ?case
  proof (cases op)
    case PoolAlloc
    with Cons.prems(2) obtain r s1 where a: "al s = Some (r, s1)"
      by (auto split: option.splits)
    show ?thesis
    proof (cases r)
      case None
      with a PoolAlloc Cons.prems(2) have "pool_run al fr ops L s1 = Some (L', s')" by simp
      with Cons.IH alloc_fail [OF Cons.prems(1)] a None show ?thesis by blast
    next
      case (Some obj)
      with a PoolAlloc Cons.prems(2) have "pool_run al fr ops (insert obj L) s1 = Some (L', s')" by simp
      with Cons.IH alloc_fresh [OF Cons.prems(1)] a Some show ?thesis by blast
    qed
  next
    case (PoolFree obj)
    with Cons.prems(2) have "obj \<in> L" "pool_run al fr ops (L - {obj}) (fr obj s) = Some (L', s')"
      by (simp_all split: if_splits)
    with Cons.IH free_inv [OF Cons.prems(1)] show ?thesis by blast
  qed
qed

end

lemma XMem_grow_regions:
  assumes "XMem_grow x off s = Some s'"
  shows "regions s' = (regions s)(x := (regions s x)\<lparr>xlength := xlength (regions s x) + PGSIZE\<rparr>)"
proof -
  from assms obtain pg s1 s2 where 1: "PAlloc_AllocPage s = Some (pg, s1)"
    and 2: "PMap_SystemMap (DMVA2PA pg) (base (regions s1 x) + off) 1 0 s1 = Some s2"
    and 3: "s' = s2\<lparr>regions := (regions s2)(x := (regions s2 x)\<lparr>xlength := xlength (regions s2 x) + PGSIZE\<rparr>)\<rparr>"
    by (auto simp: XMem_grow_def bind_eq_Some_conv)
  from 2 obtain e s3 where e: "PMapLookupEntry (systemAS s1) (base (regions s1 x) + off) PGSIZE s1 = Some (e, s3)"
    and s2: "vmem.more s2 = vmem.more s3"
    by (auto simp: PMap_SystemMap_one bind_eq_Some_conv)
  have "vmem.more s2 = vmem.more s"
    using s2 PMapLookupEntry_more [OF e] PAlloc_AllocPage_more [OF 1] by simp
  then have "regions s2 = regions s" by (rule regions_more)
  with 3 show ?thesis by simp
qed

lemma XMem_Allocate_loop_for_each:
  fixes s :: "'a xmem_scheme"
  assumes "j \<le> n" and "unat l + 4096 * n < 2 ^ 64"
  shows "XMem_Allocate_loop x (nth_page l j) (nth_page l n) s =
           for_each [j..<n] (\<lambda>i. XMem_grow x (nth_page l i)) s"
  using assms
proof (induction "n - j" arbitrary: j s)
  case 0
  then show ?case by (simp add: XMem_Allocate_loop.simps)
next
  case (Suc d)
  then have j: "j < n" by simp
  have lt: "nth_page l j < nth_page l n" by (rule nth_page_less [OF j Suc.prems(2)])
  have nx: "nth_page l j + PGSIZE = nth_page l (Suc j)" by (simp add: PGSIZE_def algebra_simps)
  have IH: "XMem_Allocate_loop x (nth_page l (Suc j)) (nth_page l n) s =
      for_each [Suc j..<n] (\<lambda>i. XMem_grow x (nth_page l i)) s" for s :: "'a xmem_scheme"
    by (rule Suc.hyps(1)) (use Suc.hyps(2) Suc.prems j in simp_all)
  show ?case
    by (subst XMem_Allocate_loop.simps)
       (simp only: lt if_True nx upt_conv_Cons [OF j] for_each.simps IH [abs_def] eta_contract_eq)
qed

lemma XMem_Allocate_loop_regions:
  assumes "for_each [j..<n] (\<lambda>i. XMem_grow x (nth_page l i)) s = Some s'" and "j \<le> n"
    and "xlength (regions s x) = nth_page l j"
  shows "regions s' = (regions s)(x := (regions s x)\<lparr>xlength := nth_page l n\<rparr>)"
  using assms
proof (induction "n - j" arbitrary: j s)
  case 0
  then show ?case by (simp add: fun_eq_iff)
next
  case (Suc d)
  then have j: "j < n" by simp
  with Suc.prems(1) obtain s1 where 1: "XMem_grow x (nth_page l j) s = Some s1"
    and 2: "for_each [Suc j..<n] (\<lambda>i. XMem_grow x (nth_page l i)) s1 = Some s'"
    by (auto simp: upt_conv_Cons bind_eq_Some_conv)
  note r = XMem_grow_regions [OF 1]
  have "xlength (regions s1 x) = nth_page l (Suc j)"
    using r Suc.prems(3) by (simp add: PGSIZE_def algebra_simps)
  with Suc.hyps(1) [of "Suc j" s1] Suc.hyps(2) 2 j r show ?case by simp
qed

lemma XMem_Allocate_regions:
  assumes "XMem_Allocate x (nth_page l n) s = Some (True, s')" and "xlength (regions s x) = l"
    and "unat l + 4096 * n < 2 ^ 64"
  shows "regions s' = (regions s)(x := (regions s x)\<lparr>xlength := nth_page l n\<rparr>)"
    and "nth_page l n \<le> maxLength (regions s x)"
proof -
  have "\<not> nth_page l n < l" using nth_page_unat [OF assms(3)] by (simp add: word_less_nat_alt)
  then have m: "\<not> maxLength (regions s x) < nth_page l n"
    and a: "XMem_Allocate_loop x (nth_page l 0) (nth_page l n) s = Some s'"
    using assms(1,2) by (auto simp: XMem_Allocate_def bind_eq_Some_conv split: if_splits)
  then show "nth_page l n \<le> maxLength (regions s x)" by (simp add: not_less)
  show "regions s' = (regions s)(x := (regions s x)\<lparr>xlength := nth_page l n\<rparr>)"
    using XMem_Allocate_loop_regions [of 0 n x l s s'] a assms(2)
    unfolding XMem_Allocate_loop_for_each [OF le0 assms(3)] by simp
qed

lemma XMem_Allocate_false:
  assumes "XMem_Allocate x len s = Some (False, s')"
  shows "s' = s"
  using assms by (auto simp: XMem_Allocate_def bind_eq_Some_conv split: if_splits)

section \<open>Invariant\<close>

text \<open>Two objects do not overlap, and an object lies inside the region.\<close>

definition obj_apart :: "nat \<Rightarrow> u64 \<Rightarrow> u64 \<Rightarrow> bool" where
  "obj_apart z x y \<longleftrightarrow> unat x + z \<le> unat y \<or> unat y + z \<le> unat x"

definition obj_inside :: "nat \<Rightarrow> XMem_region \<Rightarrow> u64 \<Rightarrow> bool" where
  "obj_inside z r x \<longleftrightarrow> unat (base r) \<le> unat x \<and> unat x + z \<le> unat (base r) + unat (xlength r)"

definition slab_inv :: "slab \<Rightarrow> u64 set \<Rightarrow> 'a xmem_scheme \<Rightarrow> bool" where
  "slab_inv sl L s \<longleftrightarrow>
     (let r = regions s (slabXMem sl); z = unat (realObjSz sl); All = set (slabFree sl) \<union> L in
      0 < z \<and> unat (base r) + unat (maxLength r) + unat (slab_inc sl) < 2 ^ 64 \<and>
      xlength r \<le> maxLength r \<and> finite L \<and> distinct (slabFree sl) \<and> set (slabFree sl) \<inter> L = {} \<and>
      unat (freeObjs sl) = length (slabFree sl) \<and> unat (objs sl) = length (slabFree sl) + card L \<and>
      (length (slabFree sl) + card L) * z \<le> unat (xlength r) \<and>
      (\<forall>x\<in>All. obj_inside z r x) \<and> (\<forall>x\<in>All. \<forall>y\<in>All. x \<noteq> y \<longrightarrow> obj_apart z x y))"

lemma slab_inc_aligned: "pg_aligned (slab_inc sl)"
  by (simp add: slab_inc_def Let_def ROUNDUP_aligned) (simp add: pg_aligned_def PGSIZE_def)

lemma slab_elems_unat:
  assumes z: "0 < unat (realObjSz sl)" and b: "unat st + unat (slab_inc sl) < 2 ^ 64"
    and i: "i < unat (slab_inc sl div realObjSz sl)"
  shows "unat (st + of_nat i * realObjSz sl) = unat st + i * unat (realObjSz sl)"
    and "Suc i * unat (realObjSz sl) \<le> unat (slab_inc sl)"
proof -
  have "Suc i \<le> unat (slab_inc sl) div unat (realObjSz sl)" using i by (simp add: unat_div)
  then have "Suc i * unat (realObjSz sl) \<le> unat (slab_inc sl) div unat (realObjSz sl) * unat (realObjSz sl)"
    by (rule mult_le_mono1)
  then show le: "Suc i * unat (realObjSz sl) \<le> unat (slab_inc sl)"
    using div_times_less_eq_dividend order_trans by blast
  have "i \<le> i * unat (realObjSz sl)" using z by simp
  moreover have "i * unat (realObjSz sl) \<le> unat (slab_inc sl)" using le by simp
  ultimately have "i < 2 ^ 64" using b by linarith
  then have ui: "unat (of_nat i :: u64) = i" by (simp add: unsigned_of_nat take_bit_eq_mod)
  have "unat (of_nat i * realObjSz sl) = i * unat (realObjSz sl)"
    using le b ui by (simp add: unat_word_ariths)
  then show "unat (st + of_nat i * realObjSz sl) = unat st + i * unat (realObjSz sl)"
    using le b by (simp add: unat_word_ariths)
qed

lemma slab_elems_props:
  assumes z: "0 < unat (realObjSz sl)" and b: "unat st + unat (slab_inc sl) < 2 ^ 64"
  shows "length (slab_elems sl st) = unat (slab_inc sl div realObjSz sl)"
    and "distinct (slab_elems sl st)"
    and "x \<in> set (slab_elems sl st) \<Longrightarrow> unat st \<le> unat x \<and> unat x + unat (realObjSz sl) \<le> unat st + unat (slab_inc sl)"
    and "x \<in> set (slab_elems sl st) \<Longrightarrow> y \<in> set (slab_elems sl st) \<Longrightarrow> x \<noteq> y \<Longrightarrow> obj_apart (unat (realObjSz sl)) x y"
proof -
  let ?z = "unat (realObjSz sl)" and ?n = "unat (slab_inc sl div realObjSz sl)"
  note U = slab_elems_unat [OF z b]
  show "length (slab_elems sl st) = ?n" by (simp add: slab_elems_def)
  have inj: "i = j" if "i < ?n" "j < ?n" "st + of_nat i * realObjSz sl = st + of_nat j * realObjSz sl" for i j
  proof -
    have "i * ?z = j * ?z" using U(1) [OF that(1)] U(1) [OF that(2)] unfolding that(3) by linarith
    with z show ?thesis by auto
  qed
  then show "distinct (slab_elems sl st)" by (auto simp: slab_elems_def distinct_map inj_on_def)
  show "unat st \<le> unat x \<and> unat x + ?z \<le> unat st + unat (slab_inc sl)" if x: "x \<in> set (slab_elems sl st)"
  proof -
    obtain i where "i < ?n" "x = st + of_nat i * realObjSz sl" using x by (auto simp: slab_elems_def)
    with U [of i] show ?thesis by simp
  qed
  show "obj_apart ?z x y" if x: "x \<in> set (slab_elems sl st)" and y: "y \<in> set (slab_elems sl st)" and ne: "x \<noteq> y"
  proof -
    obtain i where i: "i < ?n" "x = st + of_nat i * realObjSz sl" using x by (auto simp: slab_elems_def)
    obtain j where j: "j < ?n" "y = st + of_nat j * realObjSz sl" using y by (auto simp: slab_elems_def)
    have "i \<noteq> j" using ne i j by auto
    then have "Suc i \<le> j \<or> Suc j \<le> i" by auto
    then have "Suc i * ?z \<le> j * ?z \<or> Suc j * ?z \<le> i * ?z" using mult_le_mono1 by blast
    then show ?thesis using U(1) [OF i(1)] U(1) [OF j(1)] i(2) j(2) by (auto simp: obj_apart_def)
  qed
qed

lemma obj_apart_sym: "obj_apart z x y = obj_apart z y x"
  by (auto simp: obj_apart_def)

lemma realObjSz_free [simp]:
  "realObjSz (sl\<lparr>slabFree := f, objs := a, freeObjs := b\<rparr>) = realObjSz sl"
  "realObjSz (sl\<lparr>slabFree := f, allocs := a, freeObjs := b\<rparr>) = realObjSz sl"
  "realObjSz (sl\<lparr>slabFree := f, frees := a, freeObjs := b\<rparr>) = realObjSz sl"
  by (simp_all add: realObjSz_def)

lemma slab_inc_free [simp]:
  "slab_inc (sl\<lparr>slabFree := f, objs := a, freeObjs := b\<rparr>) = slab_inc sl"
  "slab_inc (sl\<lparr>slabFree := f, allocs := a, freeObjs := b\<rparr>) = slab_inc sl"
  "slab_inc (sl\<lparr>slabFree := f, frees := a, freeObjs := b\<rparr>) = slab_inc sl"
  by (simp_all add: slab_inc_def)

lemma slab_inv_grow:
  fixes s :: "'a kslabs_scheme"
  assumes inv: "slab_inv sl L s"
    and r': "regions s' (slabXMem sl) = (regions s (slabXMem sl))\<lparr>xlength := l'\<rparr>"
    and ul: "unat l' = unat (xlength (regions s (slabXMem sl))) + unat (slab_inc sl)"
    and lm: "l' \<le> maxLength (regions s (slabXMem sl))"
    and st: "st = base (regions s (slabXMem sl)) + xlength (regions s (slabXMem sl))"
  shows "slab_inv (sl\<lparr>slabFree := rev (slab_elems sl st) @ slabFree sl,
     objs := objs sl + slab_inc sl div realObjSz sl, freeObjs := freeObjs sl + slab_inc sl div realObjSz sl\<rparr>) L s'"
proof -
  let ?z = "unat (realObjSz sl)" and ?inc = "slab_inc sl" and ?r = "regions s (slabXMem sl)"
  let ?E = "slab_elems sl st" and ?N = "unat (slab_inc sl div realObjSz sl)"
  note I = inv [unfolded slab_inv_def Let_def]
  have z: "0 < ?z" using I by blast
  have big: "unat (base ?r) + unat (maxLength ?r) + unat ?inc < 2 ^ 64" using I by blast
  have "xlength ?r \<le> maxLength ?r" using I by blast
  then have lm0: "unat (xlength ?r) \<le> unat (maxLength ?r)" by (simp add: word_le_nat_alt)
  have lm': "unat l' \<le> unat (maxLength ?r)" using lm by (simp add: word_le_nat_alt)
  have ub: "unat st = unat (base ?r) + unat (xlength ?r)"
    unfolding st using big lm0 by (simp add: unat_word_ariths)
  have sb: "unat st + unat ?inc < 2 ^ 64" using ub big lm0 by linarith
  note E = slab_elems_props [OF z sb]
  have N: "?N * ?z \<le> unat ?inc" by (simp add: unat_div div_times_less_eq_dividend)
  have cnt: "(length (slabFree sl) + card L) * ?z \<le> unat (xlength ?r)" using I by blast
  have cnt': "(?N + length (slabFree sl) + card L) * ?z \<le> unat l'"
    using N cnt ul by (simp add: add_mult_distrib)
  have "?N + length (slabFree sl) + card L \<le> (?N + length (slabFree sl) + card L) * ?z" using z by simp
  then have few: "?N + length (slabFree sl) + card L < 2 ^ 64" using cnt' lm' big by linarith
  have old: "unat x + ?z \<le> unat st" if "x \<in> set (slabFree sl) \<union> L" for x
    using I that ub by (auto simp: obj_inside_def)
  have new: "unat st \<le> unat x" if "x \<in> set ?E" for x using E(3) [OF that] by simp
  have cross: "obj_apart ?z x y" if "x \<in> set (slabFree sl) \<union> L" "y \<in> set ?E" for x y
    using old [OF that(1)] new [OF that(2)] by (simp add: obj_apart_def)
  then have disj: "set ?E \<inter> (set (slabFree sl) \<union> L) = {}"
    using z by (fastforce simp: obj_apart_def)
  have D: "distinct (rev ?E @ slabFree sl)" using E(2) disj I by auto
  have F: "unat (freeObjs sl + ?inc div realObjSz sl) = length (rev ?E @ slabFree sl)"
    "unat (objs sl + ?inc div realObjSz sl) = length (rev ?E @ slabFree sl) + card L"
    using few I E(1) by (simp_all add: unat_word_ariths)
  have in': "obj_inside ?z (?r\<lparr>xlength := l'\<rparr>) x" if "x \<in> set ?E \<union> (set (slabFree sl) \<union> L)" for x
    using that
  proof
    assume "x \<in> set ?E"
    then show ?thesis using E(3) [of x] ub ul by (simp add: obj_inside_def)
  next
    assume "x \<in> set (slabFree sl) \<union> L"
    then have "obj_inside ?z ?r x" using I by blast
    then show ?thesis using ul by (simp add: obj_inside_def)
  qed
  have ap: "obj_apart ?z x y" if "x \<in> set ?E \<union> (set (slabFree sl) \<union> L)" "y \<in> set ?E \<union> (set (slabFree sl) \<union> L)" "x \<noteq> y" for x y
    using that cross E(4) I by (meson Un_iff obj_apart_sym)
  have sets: "set (rev ?E @ slabFree sl) \<union> L = set ?E \<union> (set (slabFree sl) \<union> L)" by auto
  let ?sl = "sl\<lparr>slabFree := rev ?E @ slabFree sl, objs := objs sl + ?inc div realObjSz sl,
    freeObjs := freeObjs sl + ?inc div realObjSz sl\<rparr>"
  have p: "slabXMem ?sl = slabXMem sl" "slabFree ?sl = rev ?E @ slabFree sl"
    "freeObjs ?sl = freeObjs sl + ?inc div realObjSz sl" "objs ?sl = objs sl + ?inc div realObjSz sl" by simp_all
  show ?thesis
    unfolding slab_inv_def Let_def p realObjSz_free slab_inc_free r' sets
  proof (intro conjI)
    show "finite L" using I by blast
    show "set (rev ?E @ slabFree sl) \<inter> L = {}" using disj I by auto
    show "(length (rev ?E @ slabFree sl) + card L) * ?z \<le> unat (xlength (?r\<lparr>xlength := l'\<rparr>))"
      using cnt' E(1) by simp
    show "\<forall>x\<in>set ?E \<union> (set (slabFree sl) \<union> L). obj_inside ?z (?r\<lparr>xlength := l'\<rparr>) x" using in' by blast
    show "\<forall>x\<in>set ?E \<union> (set (slabFree sl) \<union> L). \<forall>y\<in>set ?E \<union> (set (slabFree sl) \<union> L). x \<noteq> y \<longrightarrow> obj_apart ?z x y"
      using ap by blast
  qed (use z big lm D F in simp_all)
qed

lemma SlabExtend_inv:
  fixes s :: "'a kslabs_scheme"
  assumes inv: "slab_inv sl L s" and e: "SlabExtend sl s = Some (r, sl', s')"
  shows "slab_inv sl' L s'"
proof -
  let ?inc = "slab_inc sl" and ?r = "regions s (slabXMem sl)"
  obtain ok s1 where a: "XMem_Allocate (slabXMem sl) (xlength ?r + ?inc) s = Some (ok, s1)" and
    rest: "if ok then s' = s1 \<and>
        sl' = sl\<lparr>slabFree := rev (slab_elems sl (base ?r + xlength ?r)) @ slabFree sl,
          objs := objs sl + ?inc div realObjSz sl, freeObjs := freeObjs sl + ?inc div realObjSz sl\<rparr>
      else s' = s1 \<and> sl' = sl"
    using e by (auto simp: SlabExtend_def XMem_GetBase_def XMem_GetLength_def Let_def bind_eq_Some_conv split: if_splits)
  show ?thesis
  proof (cases ok)
    case False
    with a rest XMem_Allocate_false inv show ?thesis by auto
  next
    case True
    note I = inv [unfolded slab_inv_def Let_def]
    obtain n where n: "unat ?inc = 4096 * n" using pg_aligned_unat slab_inc_aligned by blast
    have np: "xlength ?r + ?inc = nth_page (xlength ?r) n"
    proof -
      have "?inc = of_nat (4096 * n)" using n by (metis u64_of_nat_unat)
      then show ?thesis by simp
    qed
    have "xlength ?r \<le> maxLength ?r" "unat (base ?r) + unat (maxLength ?r) + unat ?inc < 2 ^ 64"
      using I by blast+
    then have bnd: "unat (xlength ?r) + 4096 * n < 2 ^ 64" using n by (simp add: word_le_nat_alt)
    have a': "XMem_Allocate (slabXMem sl) (nth_page (xlength ?r) n) s = Some (True, s1)"
      using a True unfolding np by simp
    note R = XMem_Allocate_regions [OF a' refl bnd]
    have "unat (nth_page (xlength ?r) n) = unat (xlength ?r) + unat ?inc" using nth_page_unat [OF bnd] n by simp
    moreover have "regions s1 (slabXMem sl) = ?r\<lparr>xlength := nth_page (xlength ?r) n\<rparr>" using R(1) by simp
    ultimately show ?thesis using slab_inv_grow [OF inv _ _ R(2) refl] rest True by simp
  qed
qed

lemma slab_inv_take:
  assumes inv: "slab_inv sl L s" and f: "slabFree sl = e # es"
  shows "e \<notin> L" and "slab_inv (sl\<lparr>slabFree := es, allocs := a, freeObjs := freeObjs sl - 1\<rparr>) (insert e L) s"
proof -
  note I = inv [unfolded slab_inv_def Let_def f]
  have e: "e \<notin> L" "e \<notin> set es" "finite L" using I by auto
  then show "e \<notin> L" by simp
  have "unat (freeObjs sl) = Suc (length es)" using I by simp
  then have "unat (freeObjs sl - 1) = length es" by (subst unat_u64_dec) auto
  with I e show "slab_inv (sl\<lparr>slabFree := es, allocs := a, freeObjs := freeObjs sl - 1\<rparr>) (insert e L) s"
    unfolding slab_inv_def Let_def by auto
qed

lemma Slab_Alloc_inv:
  fixes s :: "'a kslabs_scheme"
  assumes inv: "slab_inv sl L s" and a: "Slab_Alloc sl s = Some (r, sl', s')"
  shows "case r of None \<Rightarrow> slab_inv sl' L s' | Some e \<Rightarrow> e \<notin> L \<and> slab_inv sl' (insert e L) s'"
proof -
  obtain sl1 s1 where
    ex: "(if freeObjs sl = 0 then map_option snd (SlabExtend sl s) else Some (sl, s)) = Some (sl1, s1)" and
    r: "(case slabFree sl1 of [] \<Rightarrow> Some (None, sl1, s1)
        | e # es \<Rightarrow> Some (Some e, sl1\<lparr>slabFree := es, allocs := allocs sl1 + 1, freeObjs := freeObjs sl1 - 1\<rparr>, s1))
        = Some (r, sl', s')"
    using a by (auto simp: Slab_Alloc_def bind_eq_Some_conv)
  have 1: "slab_inv sl1 L s1"
    using ex inv SlabExtend_inv [OF inv] by (auto split: if_splits)
  show ?thesis
  proof (cases "slabFree sl1")
    case Nil
    with 1 r show ?thesis by auto
  next
    case (Cons e es)
    with r slab_inv_take [OF 1 Cons] show ?thesis by auto
  qed
qed

lemma Slab_Free_inv:
  fixes s :: "'a kslabs_scheme"
  assumes inv: "slab_inv sl L s" and e: "e \<in> L"
  shows "slab_inv (Slab_Free sl e) (L - {e}) s"
proof -
  let ?z = "unat (realObjSz sl)" and ?r = "regions s (slabXMem sl)"
  note I = inv [unfolded slab_inv_def Let_def]
  have fin: "finite L" using I by blast
  then have c: "card L = Suc (card (L - {e}))" using e by (metis card_Suc_Diff1)
  have "1 \<le> ?z" using I by simp
  then have "Suc (length (slabFree sl)) * 1 \<le> Suc (length (slabFree sl)) * ?z" by (rule mult_le_mono2)
  also have "\<dots> \<le> (length (slabFree sl) + card L) * ?z" using c by (intro mult_le_mono1) simp
  also have "\<dots> \<le> unat (xlength ?r)" using I by blast
  finally have "length (slabFree sl) < 18446744073709551615" using unat_u64_less [of "xlength ?r"] by simp
  moreover have "unat (freeObjs sl) = length (slabFree sl)" using I by blast
  ultimately have "unat (freeObjs sl + 1) = Suc (length (slabFree sl))" by (simp add: unat_u64_inc)
  note fo = this
  have all: "set (e # slabFree sl) \<union> (L - {e}) = set (slabFree sl) \<union> L" using e by auto
  have en: "e \<notin> set (slabFree sl)" using I e by auto
  let ?sl = "sl\<lparr>slabFree := e # slabFree sl, frees := frees sl + 1, freeObjs := freeObjs sl + 1\<rparr>"
  have p: "slabXMem ?sl = slabXMem sl" "slabFree ?sl = e # slabFree sl" "freeObjs ?sl = freeObjs sl + 1"
    "objs ?sl = objs sl" by simp_all
  show ?thesis
    unfolding slab_inv_def Let_def Slab_Free_def p realObjSz_free slab_inc_free all
  proof (intro conjI)
    show "distinct (e # slabFree sl)" using I en by simp
    show "set (e # slabFree sl) \<inter> (L - {e}) = {}" using I by auto
    show "unat (objs sl) = length (e # slabFree sl) + card (L - {e})"
      "(length (e # slabFree sl) + card (L - {e})) * ?z \<le> unat (xlength ?r)" using I c by simp_all
    show "unat (freeObjs sl + 1) = length (e # slabFree sl)" using fo by simp
    show "finite (L - {e})" using fin by simp
  qed (use I in blast)+
qed

lemma Slab_Init_inv:
  fixes s :: "'a kslabs_scheme"
  assumes i: "Slab_Init name sz al s = Some (sl, s')"
    and reg: "\<And>x. xlength (regions s x) = 0"
      "\<And>x. unat (base (regions s x)) + unat (maxLength (regions s x)) + unat (slab_inc sl) < 2 ^ 64"
    and z: "ROUNDUP sz al \<noteq> 0"
  shows "slab_inv sl {} s'"
proof -
  obtain x where x: "slabXMem sl = x" "slabFree sl = []" "freeObjs sl = 0" "objs sl = 0" "objsz sl = sz" "align sl = al"
    and r: "xlength (regions s' x) = 0" "base (regions s' x) = base (regions s x)"
      "maxLength (regions s' x) = maxLength (regions s x)"
    using i reg(1) by (auto simp: Slab_Init_def XMem_New_def split: list.splits)
  have "0 < unat (realObjSz sl)" using z x by (simp add: realObjSz_def unat_gt_0)
  then show ?thesis using x r reg(2) [of x] by (simp add: slab_inv_def Let_def)
qed

interpretation kobjects: object_pool "\<lambda>(sl, s). Slab_Alloc sl s" "\<lambda>obj (sl, s). (Slab_Free sl obj, s)"
  "\<lambda>L (sl, s). slab_inv sl L s"
proof
  fix L obj
  fix s s' :: "slab \<times> 'a kslabs_scheme"
  assume inv: "case s of (sl, s) \<Rightarrow> slab_inv sl L s"
  show "obj \<notin> L \<and> (case s' of (sl, s) \<Rightarrow> slab_inv sl (insert obj L) s)"
    if "(case s of (sl, s) \<Rightarrow> Slab_Alloc sl s) = Some (Some obj, s')"
    using that inv Slab_Alloc_inv [of "fst s" L "snd s" "Some obj" "fst s'" "snd s'"] by (auto split: prod.splits)
  show "case s' of (sl, s) \<Rightarrow> slab_inv sl L s"
    if "(case s of (sl, s) \<Rightarrow> Slab_Alloc sl s) = Some (None, s')"
    using that inv Slab_Alloc_inv [of "fst s" L "snd s" None "fst s'" "snd s'"] by (auto split: prod.splits)
  show "case (case s of (sl, s) \<Rightarrow> (Slab_Free sl obj, s)) of (sl, s) \<Rightarrow> slab_inv sl (L - {obj}) s"
    if "obj \<in> L"
    using inv Slab_Free_inv [OF _ that] by (auto split: prod.splits)
qed

abbreviation slab_run where
  "slab_run \<equiv> pool_run (\<lambda>(sl, s). Slab_Alloc sl s) (\<lambda>obj (sl, s). (Slab_Free sl obj, s))"

section \<open>Properties\<close>

text \<open>
  C7. After any sequence of allocations and of frees of objects in use that runs, the
  objects in use lie inside the slab's region, do not overlap each other or an object of
  the free list, and their number is the difference of the slab's two counters.
\<close>

theorem slab_run_disjoint:
  fixes s :: "'a kslabs_scheme"
  assumes "slab_inv sl L s" and "slab_run ops L (sl, s) = Some (L', sl', s')"
  shows "(\<forall>x\<in>L'. obj_inside (unat (realObjSz sl')) (regions s' (slabXMem sl')) x) \<and>
     (\<forall>x\<in>L'. \<forall>y\<in>L' \<union> set (slabFree sl'). x \<noteq> y \<longrightarrow> obj_apart (unat (realObjSz sl')) x y) \<and>
     L' \<inter> set (slabFree sl') = {} \<and> unat (objs sl') - unat (freeObjs sl') = card L'"
proof -
  have "slab_inv sl' L' s'" using kobjects.pool_run_inv [of L "(sl, s)" ops L' "(sl', s')"] assms by simp
  then show ?thesis unfolding slab_inv_def Let_def by auto
qed

definition slab_example :: slab where
  "slab_example = \<lparr>objsz = 40, align = 16, slabXMem = 0, objs = 3, freeObjs = 3,
     slabFree = [0xFFFF810000000060, 0xFFFF810000000030, 0xFFFF810000000000],
     allocs = 0, frees = 0, slabName = ''Example''\<rparr>"

definition kslabs_example :: kslabs where
  "kslabs_example = vmem_state \<lparr>regions =
     (\<lambda>_. \<lparr>inUse = True, base = MEM_XMAP_BASE, maxLength = 0x8000000, xlength = 0x4000\<rparr>),
     slabList = [''Example'']\<rparr>"

lemma slab_example_size: "realObjSz slab_example = 48" "slab_inc slab_example = 16384"
  by (simp_all add: realObjSz_def slab_inc_def slab_example_def ROUNDUP_def PGSIZE_def)

lemma slab_example_inv: "slab_inv slab_example {} kslabs_example"
  unfolding slab_inv_def Let_def slab_example_size
  by (auto simp: slab_example_def kslabs_example_def vmem_state_def MEM_XMAP_BASE_def obj_inside_def obj_apart_def)

theorem slab_run_disjoint_witness:
  "\<exists>L' sl' s'. slab_run [PoolAlloc, PoolAlloc, PoolFree 0xFFFF810000000060] {} (slab_example, kslabs_example)
       = Some (L', sl', s') \<and> L' = {0xFFFF810000000030} \<and> unat (objs sl') - unat (freeObjs sl') = card L'"
proof -
  obtain sl' where r: "slab_run [PoolAlloc, PoolAlloc, PoolFree 0xFFFF810000000060] {} (slab_example, kslabs_example)
       = Some ({0xFFFF810000000030}, sl', kslabs_example)"
    by (simp add: Slab_Alloc_def slab_example_def insert_Diff_if)
  have "unat (objs sl') - unat (freeObjs sl') = card {0xFFFF810000000030 :: u64}"
    using slab_run_disjoint [OF slab_example_inv r] by (elim conjE)
  with r show ?thesis by (intro exI conjI) (rule r, simp_all)
qed

text \<open>
  A freed object is the next one to be handed out, and the slab's counters are then
  as before the free, whatever the state of the rest of the kernel.
\<close>

theorem slab_free_alloc:
  fixes s :: "'a kslabs_scheme"
  assumes "slab_inv sl L s" and "obj \<in> L"
  shows "\<exists>sl'. Slab_Alloc (Slab_Free sl obj) s = Some (Some obj, sl', s) \<and>
           slabFree sl' = slabFree sl \<and> freeObjs sl' = freeObjs sl \<and> objs sl' = objs sl \<and> slab_inv sl' L s"
proof -
  have i: "slab_inv (Slab_Free sl obj) (L - {obj}) s" by (rule Slab_Free_inv [OF assms])
  then have "unat (freeObjs (Slab_Free sl obj)) = Suc (length (slabFree sl))"
    by (simp add: slab_inv_def Let_def Slab_Free_def)
  then have "freeObjs (Slab_Free sl obj) \<noteq> 0" by auto
  then obtain sl' where a: "Slab_Alloc (Slab_Free sl obj) s = Some (Some obj, sl', s)"
    and f: "slabFree sl' = slabFree sl" "freeObjs sl' = freeObjs sl" "objs sl' = objs sl"
    by (simp add: Slab_Alloc_def Slab_Free_def)
  have "insert obj (L - {obj}) = L" using assms(2) by auto
  with Slab_Alloc_inv [OF i a] a f show ?thesis by simp
qed

theorem slab_free_alloc_witness:
  "\<exists>sl' sl''. Slab_Alloc slab_example kslabs_example = Some (Some 0xFFFF810000000060, sl', kslabs_example) \<and>
     Slab_Alloc (Slab_Free sl' 0xFFFF810000000060) kslabs_example = Some (Some 0xFFFF810000000060, sl'', kslabs_example)"
proof -
  obtain sl' where a: "Slab_Alloc slab_example kslabs_example = Some (Some 0xFFFF810000000060, sl', kslabs_example)"
    by (simp add: Slab_Alloc_def slab_example_def)
  from Slab_Alloc_inv [OF slab_example_inv a] have "slab_inv sl' {0xFFFF810000000060} kslabs_example" by simp
  moreover have "0xFFFF810000000060 \<in> {0xFFFF810000000060 :: u64}" by simp
  ultimately obtain sl'' where
    "Slab_Alloc (Slab_Free sl' 0xFFFF810000000060) kslabs_example = Some (Some 0xFFFF810000000060, sl'', kslabs_example)"
    using slab_free_alloc by blast
  with a show ?thesis by blast
qed

end
