(* ===== verification/Clock.thy ===== *)
theory Clock
  imports Slab
begin

text \<open>
  The kernel's clock and calendar, \<^verbatim>\<open>src/sys/kern/ktime.c\<close>.

  The time stamp counter that \<^verbatim>\<open>Time_GetTSC\<close> reads is the component \<open>tsc\<close> of the state,
  which the environment may advance at any time.  A division by a zero
  \<^verbatim>\<open>ticksPerSecond\<close> and a read outside of the table \<^verbatim>\<open>days\<close> are \<open>None\<close>.  The \<^verbatim>\<open>int\<close>
  fields of \<^verbatim>\<open>KTime\<close> are 32-bit words; C converts them to \<^verbatim>\<open>uint64_t\<close> with sign
  extension (\<^verbatim>\<open>scast\<close>) and truncates in the other direction (\<^verbatim>\<open>ucast\<close>).
\<close>

section \<open>State\<close>

record KTime =
  tm_sec :: u32
  tm_min :: u32
  tm_hour :: u32
  tm_month :: u32
  tm_year :: u32
  tm_mday :: u32
  tm_wday :: u32
  tm_yday :: u32

record kclock = kslabs +
  ktimeLastEpoch :: u64
  ktimeLastTSC :: u64
  ticksPerSecond :: u64
  tsc :: u64

section \<open>Operations\<close>

definition KTime_Init :: "'a kclock_scheme \<Rightarrow> 'a kclock_scheme" where
  "KTime_Init s = s\<lparr>ktimeLastEpoch := 0, ktimeLastTSC := 0, ticksPerSecond := 0\<rparr>"

definition KTimeIsLeapYear :: "u64 \<Rightarrow> bool" where
  "KTimeIsLeapYear year =
     (if year mod 4 \<noteq> 0 then False
      else if year mod 100 \<noteq> 0 then True
      else if year mod 400 \<noteq> 0 then False
      else True)"

definition month_days :: "u64 list" where
  "month_days = [31, 28, 31, 30, 31, 30, 31, 31, 30, 31, 30, 31]"

definition KTimeDaysInMonth :: "u64 \<Rightarrow> u64 \<Rightarrow> u64 option" where
  "KTimeDaysInMonth year month =
     (if month = 2 \<and> KTimeIsLeapYear year then Some 29
      else if unat month < length month_days then Some (month_days ! unat month)
      else None)"

text \<open>The loop \<^verbatim>\<open>for (m = 0; m < tm->month; m++) yday += KTimeDaysInMonth(tm->year, m)\<close>.\<close>

function sum_months :: "u64 \<Rightarrow> u64 \<Rightarrow> u64 \<Rightarrow> u64 \<Rightarrow> u64 option" where
  "sum_months year mend m yday =
     (if m < mend then
        case KTimeDaysInMonth year m of
          None \<Rightarrow> None
        | Some d \<Rightarrow> sum_months year mend (m + 1) (yday + d)
      else Some yday)"
  by auto

termination
  by (relation "measure (\<lambda>(year, mend, m, yday). unat mend - unat m)")
     (auto simp: loop_measure)

declare sum_months.simps [simp del]

definition KTime_Fixup :: "KTime \<Rightarrow> KTime option" where
  "KTime_Fixup tm =
     (if tm_yday tm = - 1 then do {
        y \<leftarrow> sum_months (scast (tm_year tm)) (scast (tm_month tm)) 0 0;
        Some (tm\<lparr>tm_yday := ucast (y + scast (tm_mday tm))\<rparr>)
      } else Some tm)"

definition days_of_year :: "u64 \<Rightarrow> u64" where
  "days_of_year y = (if KTimeIsLeapYear y then 366 else 365)"

text \<open>The loop over the years of \<^verbatim>\<open>KTime_ToEpoch\<close>.\<close>

function sum_years :: "u64 \<Rightarrow> u64 \<Rightarrow> u64 \<Rightarrow> u64" where
  "sum_years yend y days =
     (if y < yend then sum_years yend (y + 1) (days + days_of_year y) else days)"
  by auto

termination
  by (relation "measure (\<lambda>(yend, y, days). unat yend - unat y)")
     (auto simp: loop_measure)

declare sum_years.simps [simp del]

definition KTime_ToEpoch :: "KTime \<Rightarrow> u64 option" where
  "KTime_ToEpoch tm = do {
     let days = sum_years (scast (tm_year tm)) 1970 0;
     days \<leftarrow> (if tm_yday tm = - 1 then do {
                yd \<leftarrow> sum_months (scast (tm_year tm)) (scast (tm_month tm)) 0 0;
                Some (days + (yd + scast (tm_mday tm)))
              } else Some (days + scast (tm_yday tm)));
     let secs = 24 * days + scast (tm_hour tm);
     let secs = secs * 60 + scast (tm_min tm);
     let secs = secs * 60 + scast (tm_sec tm);
     Some secs
   }"

text \<open>The two loops of \<^verbatim>\<open>KTime_FromEpoch\<close>.\<close>

function find_year :: "u64 \<Rightarrow> u64 \<Rightarrow> u64 \<times> u64" where
  "find_year y days =
     (if days < days_of_year y then (y, days) else find_year (y + 1) (days - days_of_year y))"
  by auto

termination
  by (relation "measure (\<lambda>(y, days). unat days)")
     (auto simp: days_of_year_def word_less_nat_alt unat_sub word_le_nat_alt)

declare find_year.simps [simp del]

lemma KTimeDaysInMonth_pos: "KTimeDaysInMonth y m = Some d \<Longrightarrow> 0 < d"
  by (auto simp: KTimeDaysInMonth_def month_days_def nth_Cons' split: if_splits)

function find_month :: "u64 \<Rightarrow> u64 \<Rightarrow> u64 \<Rightarrow> (u64 \<times> u64) option" where
  "find_month year m days =
     (case KTimeDaysInMonth year m of
        None \<Rightarrow> None
      | Some d \<Rightarrow> if days < d then Some (m, days) else find_month year (m + 1) (days - d))"
  by auto

termination
  by (relation "measure (\<lambda>(year, m, days). unat days)")
     (auto simp: word_less_nat_alt unat_sub word_le_nat_alt dest!: KTimeDaysInMonth_pos)

declare find_month.simps [simp del]

definition KTime_FromEpoch :: "u64 \<Rightarrow> KTime option" where
  "KTime_FromEpoch epoch = do {
     let secs = epoch mod (60 * 60 * 24);
     let days = epoch div (60 * 60 * 24);
     let mins = secs div 60;
     let secs = secs mod 60;
     let hours = mins div 60;
     let mins = mins mod 60;
     let hours = hours mod 24;
     let wd = (days + 3) mod 7;
     let (y, yd) = find_year 1970 days;
     let yr = (ucast y :: u32);
     (m, md) \<leftarrow> find_month (scast yr) 0 yd;
     Some \<lparr>tm_sec = ucast secs, tm_min = ucast mins, tm_hour = ucast hours, tm_month = ucast m, tm_year = yr,
           tm_mday = ucast md, tm_wday = ucast wd, tm_yday = ucast yd\<rparr>
   }"

definition KTime_SetTime :: "u64 \<Rightarrow> u64 \<Rightarrow> u64 \<Rightarrow> 'a kclock_scheme \<Rightarrow> 'a kclock_scheme" where
  "KTime_SetTime epoch t tps s = s\<lparr>ktimeLastEpoch := epoch, ktimeLastTSC := t, ticksPerSecond := tps\<rparr>"

definition KTime_GetEpoch :: "'a kclock_scheme \<Rightarrow> u64 option" where
  "KTime_GetEpoch s = do {
     let tscDiff = tsc s - ktimeLastTSC s;
     kassert (ticksPerSecond s \<noteq> 0);
     Some (ktimeLastEpoch s + tscDiff div ticksPerSecond s)
   }"

definition KTime_GetEpochNS :: "'a kclock_scheme \<Rightarrow> u64 option" where
  "KTime_GetEpochNS s = do {
     let tscDiff = tsc s - ktimeLastTSC s;
     kassert (ticksPerSecond s \<noteq> 0);
     Some (ktimeLastEpoch s * 1000000000 + tscDiff * 1000000 div ticksPerSecond s * 1000)
   }"

definition KTime_GetTime :: "'a kclock_scheme \<Rightarrow> KTime option" where
  "KTime_GetTime s = KTime_GetEpoch s \<bind> KTime_FromEpoch"

section \<open>The calendar loops\<close>

lemma days_of_year_bounds: "365 \<le> days_of_year y" "days_of_year y \<le> 366"
  by (simp_all add: days_of_year_def)

lemma find_year_sum:
  assumes "find_year y d = (y', d')" and "unat y + unat d < 2 ^ 64"
  shows "y \<le> y' \<and> d' < days_of_year y' \<and> unat y' \<le> unat y + unat d div 365 \<and>
     sum_years y' y a = a + (d - d')"
  using assms
proof (induction y d arbitrary: a rule: find_year.induct)
  case (1 y d)
  show ?case
  proof (cases "d < days_of_year y")
    case True
    with 1(2) show ?thesis by (simp add: find_year.simps [of y] sum_years.simps [of y'])
  next
    case False
    let ?n = "days_of_year y"
    have n: "365 \<le> unat ?n" using days_of_year_bounds(1) [of y] by (simp add: word_le_nat_alt)
    have d: "unat (d - ?n) = unat d - unat ?n" "unat ?n \<le> unat d"
      using False by (simp_all add: unat_sub word_le_nat_alt not_less)
    have y: "unat (y + 1) = Suc (unat y)" using 1(3) n d(2) by (intro unat_u64_inc) simp
    have "find_year (y + 1) (d - ?n) = (y', d')" using 1(2) False by (simp add: find_year.simps [of y])
    moreover have "unat (y + 1) + unat (d - ?n) < 2 ^ 64" using 1(3) n d y by simp
    ultimately have IH: "y + 1 \<le> y'" "d' < days_of_year y'"
        "unat y' \<le> unat (y + 1) + unat (d - ?n) div 365"
        "sum_years y' (y + 1) (a + ?n) = a + ?n + (d - ?n - d')"
      using 1(1) [OF False, of "a + ?n"] by blast+
    have "y < y'" using IH(1) y by (simp add: word_le_nat_alt word_less_nat_alt)
    moreover have "unat (d - ?n) div 365 + 1 \<le> unat d div 365"
    proof -
      have "unat (d - ?n) \<le> unat d - 365" using n d by simp
      then have "unat (d - ?n) div 365 \<le> (unat d - 365) div 365" by (rule div_le_mono)
      also have "\<dots> + 1 = unat d div 365" using n d(2) by (simp add: div_if [of "unat d"])
      finally show ?thesis by simp
    qed
    ultimately show ?thesis
      using IH y by (simp add: sum_years.simps [of y' y] algebra_simps)
  qed
qed

lemma KTimeDaysInMonth_Some: "KTimeDaysInMonth y m = Some d \<Longrightarrow> unat m < 12 \<and> 0 < d \<and> d \<le> 31"
  by (auto simp: KTimeDaysInMonth_def month_days_def nth_Cons' split: if_splits)

lemma find_month_sum:
  assumes "find_month y m d = Some (m', d')"
  shows "m \<le> m' \<and> unat m' < 12 \<and> d' < 31 \<and> sum_months y m' m a = Some (a + (d - d')) \<and>
     (\<exists>n. KTimeDaysInMonth y m' = Some n \<and> d' < n)"
  using assms
proof (induction y m d arbitrary: a rule: find_month.induct)
  case (1 y m d)
  then obtain n where n: "KTimeDaysInMonth y m = Some n"
    by (auto simp: find_month.simps [of y] split: option.splits)
  note b = KTimeDaysInMonth_Some [OF n]
  show ?case
  proof (cases "d < n")
    case True
    then have "d < 31" using b less_le_trans by blast
    with True 1(2) n b show ?thesis
      by (simp add: find_month.simps [of y] sum_months.simps [of y m'])
  next
    case False
    have m: "unat (m + 1) = Suc (unat m)" using b by (intro unat_u64_inc) simp
    have "find_month y (m + 1) (d - n) = Some (m', d')"
      using 1(2) False n by (simp add: find_month.simps [of y m])
    from 1(1) [OF n False this, of "a + n"] have IH: "m + 1 \<le> m'" "unat m' < 12" "d' < 31"
        "sum_months y m' (m + 1) (a + n) = Some (a + n + (d - n - d'))"
        "\<exists>n. KTimeDaysInMonth y m' = Some n \<and> d' < n"
      by blast+
    have "m < m'" using IH(1) m by (simp add: word_le_nat_alt word_less_nat_alt)
    with IH n show ?thesis by (simp add: sum_months.simps [of y m' m] algebra_simps)
  qed
qed

lemma scast_ucast_small: "unat x < 2 ^ 31 \<Longrightarrow> scast (ucast x :: u32) = (x :: u64)"
proof -
  assume "unat x < 2 ^ 31"
  then have u: "uint x < 2 ^ 31" by (metis of_nat_less_numeral_power_cancel_iff uint_nat)
  have "signed_take_bit 31 (uint x) = uint x"
    by (rule signed_take_bit_int_eq_self) (use u uint_ge_0 [of x] in linarith)+
  with u have "sint (ucast x :: u32) = uint x"
    by (simp add: sint_uint unsigned_ucast_eq take_bit_int_eq_self)
  then show ?thesis by (metis word_of_int_uint scast_eq)
qed

lemma FromEpoch_cases:
  assumes "KTime_FromEpoch e = Some tm" and "e < 2 ^ 55"
  obtains y yd m md where "find_year 1970 (e div 86400) = (y, yd)" and "unat y < 2 ^ 31" and "1970 \<le> y"
    and "yd < days_of_year y" and "sum_years y 1970 0 = e div 86400 - yd"
    and "find_month y 0 yd = Some (m, md)"
    and "scast (tm_year tm) = y" and "scast (tm_month tm) = m" and "scast (tm_mday tm) = md"
    and "scast (tm_yday tm) = yd" and "tm_yday tm \<noteq> - 1"
    and "24 * 60 * 60 * (e div 86400) + (60 * (60 * scast (tm_hour tm) + scast (tm_min tm)) + scast (tm_sec tm)) = e"
proof -
  let ?d = "e div 86400"
  obtain y yd where fy: "find_year 1970 ?d = (y, yd)" by force
  have d: "unat ?d < 2 ^ 39"
  proof -
    have "unat e < 2 ^ 55" using assms(2) by (simp add: word_less_nat_alt)
    then have "unat e div 86400 < 2 ^ 39" by simp
    then show ?thesis by (simp add: unat_div)
  qed
  have "unat (1970 :: u64) + unat ?d < 2 ^ 64" using d by simp
  from find_year_sum [OF fy this, of 0] have y: "1970 \<le> y" "yd < days_of_year y"
      "unat y \<le> unat (1970 :: u64) + unat ?d div 365" "sum_years y 1970 0 = 0 + (?d - yd)"
    by blast+
  have y31: "unat y < 2 ^ 31" using y(3) d by simp
  have yd: "unat yd < 366" using less_le_trans [OF y(2) days_of_year_bounds(2)] by (simp add: word_less_nat_alt)
  have ys: "scast (ucast y :: u32) = y" by (rule scast_ucast_small [OF y31])
  obtain m md where fm: "find_month y 0 yd = Some (m, md)"
    and tm: "tm = \<lparr>tm_sec = ucast (e mod 86400 mod 60), tm_min = ucast (e mod 86400 div 60 mod 60),
      tm_hour = ucast (e mod 86400 div 60 div 60 mod 24), tm_month = ucast m, tm_year = ucast y,
      tm_mday = ucast md, tm_wday = ucast ((?d + 3) mod 7), tm_yday = ucast yd\<rparr>"
    using assms(1) by (auto simp: KTime_FromEpoch_def fy ys Let_def bind_eq_Some_conv)
  from find_month_sum [OF fm] have m: "unat m < 12" "unat md < 31" by (auto simp: word_less_nat_alt)
  have small: "unat (a mod b) < 2 ^ 31" if "0 < unat b" "unat b < 2 ^ 31" for a b :: u64
    using that by (simp add: unat_mod order.strict_trans [OF mod_less_divisor])
  have yds: "scast (tm_yday tm) = yd" unfolding tm by (simp, rule scast_ucast_small) (use yd in simp)
  have "tm_yday tm \<noteq> - 1"
  proof
    assume "tm_yday tm = - 1"
    then have "yd = scast (- 1 :: u32)" using yds by simp
    then have "yd = - 1" by simp
    with y(2) show False using word_n1_ge [of "days_of_year y"] by (simp add: not_less)
  qed
  moreover have "24 * 60 * 60 * ?d + (60 * (60 * scast (tm_hour tm) + scast (tm_min tm)) + scast (tm_sec tm)) = e"
  proof -
    let ?s = "e mod 86400"
    have s: "unat ?s < 86400" by (simp add: unat_mod)
    have h: "?s div 60 div 60 mod 24 = ?s div 60 div 60"
    proof -
      have "unat (?s div 60 div 60) < 24" using s by (simp add: unat_div)
      then show ?thesis by (simp add: word_arith_nat_mod u64_of_nat_unat)
    qed
    have "scast (tm_hour tm) = ?s div 60 div 60 mod 24" "scast (tm_min tm) = ?s div 60 mod 60"
        "scast (tm_sec tm) = ?s mod 60"
      unfolding tm KTime.simps by (rule scast_ucast_small, rule small, simp_all)+
    then have "60 * (60 * scast (tm_hour tm) + scast (tm_min tm)) + scast (tm_sec tm) =
        60 * (?s div 60 div 60 * 60 + ?s div 60 mod 60) + ?s mod 60" using h by (simp add: mult.commute)
    also have "\<dots> = 60 * (?s div 60) + ?s mod 60" by (simp only: div_mult_mod_eq)
    also have "\<dots> = ?s" by (simp only: mult_div_mod_eq)
    finally have "60 * (60 * scast (tm_hour tm) + scast (tm_min tm)) + scast (tm_sec tm) = ?s" .
    moreover have "86400 * ?d + ?s = e" by (simp only: mult_div_mod_eq)
    ultimately show ?thesis by simp
  qed
  moreover have "scast (tm_month tm) = m" "scast (tm_mday tm) = md"
    unfolding tm KTime.simps by (rule scast_ucast_small, use m in simp)+
  ultimately show ?thesis
    using that [OF fy y31 y(1,2) _ fm] y(4) yds ys tm by simp
qed

text \<open>The month loop runs off the table exactly when the day lies beyond the sum of the lengths.\<close>

lemma find_month_None_list:
  assumes "\<forall>i < length ns. KTimeDaysInMonth y (m + of_nat i) = Some (of_nat (ns ! i)) \<and> ns ! i < 2 ^ 64"
    and "KTimeDaysInMonth y (m + of_nat (length ns)) = None" and "k < 2 ^ 64"
  shows "find_month y m (of_nat k) = None \<longleftrightarrow> sum_list ns \<le> k"
  using assms
proof (induction ns arbitrary: m k)
  case Nil
  then show ?case by (simp add: find_month.simps [of y m])
next
  case (Cons n ns)
  have n: "KTimeDaysInMonth y m = Some (of_nat n)" "n < 2 ^ 64" using Cons.prems(1) by fastforce+
  have c: "(of_nat k :: u64) < of_nat n \<longleftrightarrow> k < n"
    using Cons.prems(3) n(2) by (simp add: word_less_nat_alt unsigned_of_nat take_bit_eq_mod)
  show ?case
  proof (cases "k < n")
    case True
    then show ?thesis using c n by (simp add: find_month.simps [of y m])
  next
    case False
    have "KTimeDaysInMonth y (m + 1 + of_nat i) = Some (of_nat (ns ! i)) \<and> ns ! i < 2 ^ 64"
      if "i < length ns" for i
      using Cons.prems(1) [rule_format, of "Suc i"] that by (simp add: add.assoc)
    then have "find_month y (m + 1) (of_nat (k - n)) = None \<longleftrightarrow> sum_list ns \<le> k - n"
      using Cons.prems(2,3) by (intro Cons.IH) (simp_all add: add.assoc)
    moreover have "(of_nat (k - n) :: u64) = of_nat k - of_nat n" using False by (simp add: of_nat_diff)
    ultimately show ?thesis using False c n by (simp add: find_month.simps [of y m]) arith
  qed
qed

lemma find_month_None:
  assumes "k < 366"
  shows "find_month y 0 (of_nat k) = None \<longleftrightarrow> (if KTimeIsLeapYear y then 363 \<le> k else 365 \<le> k)"
proof -
  let ?ns = "[31, 28, if KTimeIsLeapYear y then 29 else 31, 30, 31, 30, 31, 31, 30, 31, 30, 31] :: nat list"
  have "find_month y 0 (of_nat k) = None \<longleftrightarrow> sum_list ?ns \<le> k"
    by (rule find_month_None_list)
       (use assms in \<open>auto simp: KTimeDaysInMonth_def month_days_def less_Suc_eq\<close>)
  then show ?thesis by simp
qed

lemma ucast_scast_u32: "ucast (scast (x :: u32) :: u64) = x"
  by (rule bit_word_eqI) (auto simp: bit_simps)

section \<open>Properties\<close>

text \<open>
  C25. Round trip of the calendar: the date that \<^verbatim>\<open>KTime_FromEpoch\<close> computes for an epoch
  below \<^verbatim>\<open>2^55\<close> seconds (years that fit an \<^verbatim>\<open>int\<close>) converts back to this epoch, both
  through \<^verbatim>\<open>yday\<close> and, with \<^verbatim>\<open>yday == -1\<close>, through month and day, and \<^verbatim>\<open>KTime_Fixup\<close>
  recomputes the same \<^verbatim>\<open>yday\<close>.
\<close>

theorem ktime_roundtrip:
  assumes "KTime_FromEpoch e = Some tm" and "e < 2 ^ 55"
  shows "KTime_ToEpoch tm = Some e \<and> KTime_ToEpoch (tm\<lparr>tm_yday := - 1\<rparr>) = Some e \<and>
     KTime_Fixup (tm\<lparr>tm_yday := - 1\<rparr>) = Some tm"
proof -
  obtain y yd m md where r: "sum_years y 1970 0 = e div 86400 - yd" "find_month y 0 yd = Some (m, md)"
      "scast (tm_year tm) = y" "scast (tm_month tm) = m" "scast (tm_mday tm) = md"
      "scast (tm_yday tm) = yd" "tm_yday tm \<noteq> - 1"
    and e: "24 * 60 * 60 * (e div 86400) + (60 * (60 * scast (tm_hour tm) + scast (tm_min tm)) + scast (tm_sec tm)) = e"
    by (rule FromEpoch_cases [OF assms])
  have s: "sum_months y m 0 0 = Some (yd - md)" using find_month_sum [OF r(2), of 0] by simp
  have "((24 * (e div 86400) + scast (tm_hour tm)) * 60 + scast (tm_min tm)) * 60 + scast (tm_sec tm) = e"
    using e by (simp add: algebra_simps)
  moreover have "ucast yd = tm_yday tm"
    using arg_cong [OF r(6), of "ucast :: u64 \<Rightarrow> u32"] by (simp add: ucast_scast_u32)
  ultimately show ?thesis
    using r s by (simp add: KTime_ToEpoch_def KTime_Fixup_def)
qed

theorem ktime_roundtrip_witness:
  "\<exists>tm. KTime_FromEpoch 1000000000 = Some tm \<and> (1000000000 :: u64) < 2 ^ 55 \<and>
     tm_year tm = 2001 \<and> tm_month tm = 8 \<and> tm_mday tm = 8 \<and> KTime_ToEpoch tm = Some 1000000000"
proof -
  have "KTime_FromEpoch 1000000000 = Some \<lparr>tm_sec = 40, tm_min = 46, tm_hour = 1, tm_month = 8,
      tm_year = 2001, tm_mday = 8, tm_wday = 6, tm_yday = 251\<rparr>"
    by code_simp
  with ktime_roundtrip [OF this] show ?thesis by simp
qed



end
