(* ===== verification/CString.thy ===== *)
theory CString
  imports Prelude
begin

text \<open>
  The string and memory functions of the kernel's C library, \<^verbatim>\<open>src/sys/kern/libc.c\<close>, over a
  byte-addressed memory.  A scan for a terminator that is not there does not return (\<open>None\<close>);
  a pointer result of \<^verbatim>\<open>NULL\<close> is the inner \<open>None\<close>.  The loops that count a \<^verbatim>\<open>size_t\<close> down
  recurse on a natural number, the value of the counter.
\<close>

type_synonym bytes = "u64 \<Rightarrow> u8"

section \<open>Operations\<close>

text \<open>\<^verbatim>\<open>s[i] == c\<close> compares the sign-extended character with the \<^verbatim>\<open>int\<close> \<open>c\<close>.\<close>

partial_function (option) strchr :: "bytes \<Rightarrow> u64 \<Rightarrow> u32 \<Rightarrow> u64 option option" where
  "strchr m s c =
     (if scast (m s) = c then Some (Some s)
      else if m s = 0 then Some None
      else strchr m (s + 1) c)"

partial_function (option) tok_skip :: "bool \<Rightarrow> bytes \<Rightarrow> u64 \<Rightarrow> u64 \<Rightarrow> u64 option" where
  "tok_skip want m delim str =
     (if m str = 0 then Some str
      else Option.bind (strchr m delim (scast (m str)))
        (\<lambda>r. if (r \<noteq> None) = want then tok_skip want m delim (str + 1) else Some str))"

text \<open>
  \<^verbatim>\<open>strtok_r(str, delim, last)\<close>; the result carries the token, the new \<^verbatim>\<open>*last\<close> and the
  memory in which the delimiter after the token is overwritten.
\<close>

definition strtok_r :: "u64 option \<Rightarrow> u64 \<Rightarrow> u64 \<Rightarrow> bytes \<Rightarrow> (u64 option \<times> u64 \<times> bytes) option" where
  "strtok_r strp delim lastp m = do {
     let str = (case strp of None \<Rightarrow> lastp | Some p \<Rightarrow> p);
     str \<leftarrow> tok_skip True m delim str;
     if m str = 0 then Some (None, lastp, m)
     else do {
       let rval = str;
       str \<leftarrow> tok_skip False m delim str;
       if m str \<noteq> 0 then Some (Some rval, str + 1, m(str := 0))
       else Some (Some rval, str, m)
     }
   }"

partial_function (option) strcpy :: "u64 \<Rightarrow> u64 \<Rightarrow> bytes \<Rightarrow> bytes option" where
  "strcpy to from m =
     (let m' = m(to := m from) in
      if m' to = 0 then Some m' else strcpy (to + 1) (from + 1) m')"

primrec strncpy_loop :: "nat \<Rightarrow> u64 \<Rightarrow> u64 \<Rightarrow> bytes \<Rightarrow> u64 \<times> bytes" where
  "strncpy_loop 0 to from m = (to, m(to := m from))"
| "strncpy_loop (Suc n) to from m =
     (let m' = m(to := m from) in
      if m' to \<noteq> 0 then strncpy_loop n (to + 1) (from + 1) m' else (to, m'))"

definition strncpy :: "u64 \<Rightarrow> u64 \<Rightarrow> u64 \<Rightarrow> bytes \<Rightarrow> bytes" where
  "strncpy to from len m = (let (to, m) = strncpy_loop (unat len) to from m in m(to := 0))"

text \<open>The difference of two characters read as \<^verbatim>\<open>uint8_t\<close>.\<close>

definition chdiff :: "u8 \<Rightarrow> u8 \<Rightarrow> int" where
  "chdiff a b = uint a - uint b"

partial_function (option) strcmp :: "bytes \<Rightarrow> u64 \<Rightarrow> u64 \<Rightarrow> int option" where
  "strcmp m s1 s2 =
     (if m s1 = m s2 then (if m s1 = 0 then Some 0 else strcmp m (s1 + 1) (s2 + 1))
      else Some (chdiff (m s1) (m s2)))"

primrec strncmp_loop :: "nat \<Rightarrow> bytes \<Rightarrow> u64 \<Rightarrow> u64 \<Rightarrow> int" where
  "strncmp_loop 0 m s1 s2 = 0"
| "strncmp_loop (Suc n) m s1 s2 =
     (if m s1 = m s2 then
        (if m s1 = 0 then 0 else if n = 0 then 0 else strncmp_loop n m (s1 + 1) (s2 + 1))
      else chdiff (m s1) (m s2))"

definition strncmp :: "bytes \<Rightarrow> u64 \<Rightarrow> u64 \<Rightarrow> u64 \<Rightarrow> int" where
  "strncmp m s1 s2 len = (if len = 0 then 0 else strncmp_loop (unat len) m s1 s2)"

partial_function (option) strlen_loop :: "bytes \<Rightarrow> u64 \<Rightarrow> u64 option" where
  "strlen_loop m s = (if m s = 0 then Some s else strlen_loop m (s + 1))"

definition strlen :: "bytes \<Rightarrow> u64 \<Rightarrow> u64 option" where
  "strlen m str = do { s \<leftarrow> strlen_loop m str; Some (s - str) }"

primrec memset_loop :: "nat \<Rightarrow> u64 \<Rightarrow> u8 \<Rightarrow> bytes \<Rightarrow> bytes" where
  "memset_loop 0 p c m = m"
| "memset_loop (Suc n) p c m = memset_loop n (p + 1) c (m(p := c))"

definition memset :: "u64 \<Rightarrow> u32 \<Rightarrow> u64 \<Rightarrow> bytes \<Rightarrow> bytes" where
  "memset dst c len m = memset_loop (unat len) dst (ucast c) m"

primrec memcpy_loop :: "nat \<Rightarrow> u64 \<Rightarrow> u64 \<Rightarrow> bytes \<Rightarrow> bytes" where
  "memcpy_loop 0 d s m = m"
| "memcpy_loop (Suc n) d s m = memcpy_loop n (d + 1) (s + 1) (m(d := m s))"

definition memcpy :: "u64 \<Rightarrow> u64 \<Rightarrow> u64 \<Rightarrow> bytes \<Rightarrow> bytes" where
  "memcpy dst src len m = memcpy_loop (unat len) dst src m"

text \<open>
  \<^verbatim>\<open>memcmp\<close> compares plain (signed) characters and returns \<^verbatim>\<open>*c2 - *c1\<close>; its counter is an
  \<^verbatim>\<open>int\<close>, which no caller brings near its maximum.
\<close>

primrec memcmp_loop :: "nat \<Rightarrow> bytes \<Rightarrow> u64 \<Rightarrow> u64 \<Rightarrow> int" where
  "memcmp_loop 0 m c1 c2 = 0"
| "memcmp_loop (Suc n) m c1 c2 =
     (if m c1 \<noteq> m c2 then sint (m c2) - sint (m c1) else memcmp_loop n m (c1 + 1) (c2 + 1))"

definition memcmp :: "bytes \<Rightarrow> u64 \<Rightarrow> u64 \<Rightarrow> u64 \<Rightarrow> int" where
  "memcmp m b1 b2 len = memcmp_loop (unat len) m b1 b2"

section \<open>Strings in memory\<close>

text \<open>\<open>xs\<close> is the string at \<open>s\<close>: the bytes up to the terminator.\<close>

fun cstr :: "bytes \<Rightarrow> u64 \<Rightarrow> u8 list \<Rightarrow> bool" where
  "cstr m s [] \<longleftrightarrow> m s = 0"
| "cstr m s (x # xs) \<longleftrightarrow> m s = x \<and> x \<noteq> 0 \<and> cstr m (s + 1) xs"

text \<open>The range of \<open>n\<close> bytes at \<open>a\<close>, as a set of addresses (it may wrap around).\<close>

definition range_of :: "u64 \<Rightarrow> nat \<Rightarrow> u64 set" where
  "range_of a n = {a + of_nat i | i. i < n}"

lemma range_of_0 [simp]: "range_of a 0 = {}"
  by (simp add: range_of_def)

lemma range_of_image: "range_of a n = (\<lambda>i. a + of_nat i) ` {..<n}"
  by (auto simp: range_of_def)

lemma range_of_Suc: "range_of a (Suc n) = insert a (range_of (a + 1) n)"
  by (simp add: range_of_image lessThan_Suc_eq_insert_0 image_image add.assoc)

lemma range_of_mem [intro]: "i < n \<Longrightarrow> a + of_nat i \<in> range_of a n"
  by (auto simp: range_of_def)

lemma range_of_mono: "n \<le> n' \<Longrightarrow> range_of a n \<subseteq> range_of a n'"
  by (auto simp: range_of_def)

lemma range_of_next: "n < 2 ^ 64 \<Longrightarrow> a \<notin> range_of (a + 1) n"
proof
  assume "n < 2 ^ 64" "a \<in> range_of (a + 1) n"
  then obtain i where "i < n" "a = a + (1 + of_nat i)" by (auto simp: range_of_def add.assoc)
  then have "(of_nat (Suc i) :: u64) = 0" by simp
  with \<open>i < n\<close> \<open>n < 2 ^ 64\<close> show False
    by (auto simp only: word_of_nat_eq_0_iff) (auto dest: dvd_imp_le)
qed

lemma range_of_iff: "x \<in> range_of a n \<longleftrightarrow> unat (x - a) < n" if "n \<le> 2 ^ 64"
proof
  assume "x \<in> range_of a n"
  then obtain i where "i < n" "x - a = of_nat i" by (auto simp: range_of_def)
  with that show "unat (x - a) < n" by (simp add: unsigned_of_nat take_bit_eq_mod)
next
  assume "unat (x - a) < n"
  then have "a + of_nat (unat (x - a)) \<in> range_of a n" by blast
  then show "x \<in> range_of a n" by (simp add: u64_of_nat_unat)
qed

lemma memcpy_loop_apply:
  assumes "range_of d n \<inter> range_of s n = {}" and "n \<le> 2 ^ 64"
  shows "memcpy_loop n d s m a = (if a \<in> range_of d n then m (s + (a - d)) else m a)"
  using assms
proof (induction n arbitrary: d s m)
  case (Suc n)
  have disj: "range_of (d + 1) n \<inter> range_of (s + 1) n = {}" "d \<notin> range_of (s + 1) n"
    and nx: "d \<notin> range_of (d + 1) n"
    using Suc.prems range_of_next [of n d] by (auto simp: range_of_Suc)
  have "memcpy_loop (Suc n) d s m a =
      (if a \<in> range_of (d + 1) n then (m(d := m s)) (s + 1 + (a - (d + 1))) else (m(d := m s)) a)"
    using Suc.IH [OF disj(1)] Suc.prems(2) by simp
  moreover have "s + 1 + (a - (d + 1)) \<in> range_of (s + 1) n" if "a \<in> range_of (d + 1) n"
    using that Suc.prems(2) by (simp add: range_of_iff algebra_simps)
  ultimately show ?case
    using disj(2) nx by (cases "a = d") (auto simp: range_of_Suc algebra_simps)
qed simp

lemma memcpy_apply:
  assumes "range_of dst (unat len) \<inter> range_of src (unat len) = {}"
  shows "memcpy dst src len m a = (if a - dst < len then m (src + (a - dst)) else m a)"
proof -
  have l: "unat len \<le> 2 ^ 64" using unat_u64_less [of len] by simp
  show ?thesis
    unfolding memcpy_def memcpy_loop_apply [OF assms l] range_of_iff [OF l] by (simp add: word_less_nat_alt)
qed

lemma memset_loop_apply:
  "n \<le> 2 ^ 64 \<Longrightarrow> memset_loop n p c m a = (if a \<in> range_of p n then c else m a)"
  by (induction n arbitrary: p m) (use range_of_next in \<open>auto simp: range_of_Suc\<close>)

lemma memset_apply: "memset dst c len m a = (if a - dst < len then ucast c else m a)"
proof -
  have l: "unat len \<le> 2 ^ 64" using unat_u64_less [of len] by simp
  show ?thesis
    unfolding memset_def memset_loop_apply [OF l] range_of_iff [OF l] by (simp add: word_less_nat_alt)
qed

lemma memcmp_zero_iff: "memcmp_loop n m c1 c2 = 0 \<longleftrightarrow> (\<forall>i < n. m (c1 + of_nat i) = m (c2 + of_nat i))"
proof (induction n arbitrary: c1 c2)
  case (Suc n)
  have "sint (m c2) - sint (m c1) \<noteq> 0" if "m c1 \<noteq> m c2" using that signed_word_eqI by force
  with Suc show ?case by (auto simp: less_Suc_eq_0_disj add.assoc)
qed simp

lemma cstr_unique: "cstr m s xs \<Longrightarrow> cstr m s ys \<Longrightarrow> xs = ys"
proof (induction xs arbitrary: s ys)
  case Nil
  then show ?case by (cases ys) auto
next
  case (Cons x xs)
  then show ?case by (cases ys) auto
qed

lemma cstr_frame: "(\<And>a. a \<in> range_of s (Suc (length xs)) \<Longrightarrow> m' a = m a) \<Longrightarrow> cstr m' s xs \<longleftrightarrow> cstr m s xs"
proof (induction xs arbitrary: s)
  case (Cons x xs)
  have "m' s = m s" "cstr m' (s + 1) xs = cstr m (s + 1) xs"
    using Cons.prems by (auto intro!: Cons.IH simp: range_of_Suc)
  then show ?case by auto
qed (simp add: range_of_Suc)

lemma strlen_cstr: "cstr m s xs \<Longrightarrow> strlen m s = Some (of_nat (length xs))"
proof -
  have "cstr m s xs \<Longrightarrow> strlen_loop m s = Some (s + of_nat (length xs))"
    by (induction xs arbitrary: s) (simp_all add: strlen_loop.simps add.assoc)
  then show "cstr m s xs \<Longrightarrow> strlen m s = Some (of_nat (length xs))" by (simp add: strlen_def)
qed

text \<open>The reference result of a comparison.\<close>

fun str_diff :: "u8 list \<Rightarrow> u8 list \<Rightarrow> int" where
  "str_diff [] [] = 0"
| "str_diff [] (y # ys) = - uint y"
| "str_diff (x # xs) [] = uint x"
| "str_diff (x # xs) (y # ys) = (if x = y then str_diff xs ys else uint x - uint y)"

lemma strcmp_cstr: "cstr m a xs \<Longrightarrow> cstr m b ys \<Longrightarrow> strcmp m a b = Some (str_diff xs ys)"
proof (induction xs ys arbitrary: a b rule: str_diff.induct)
  case (4 x xs y ys)
  then show ?case by (simp add: strcmp.simps [of m a b] chdiff_def)
qed (auto simp: strcmp.simps chdiff_def)

lemma str_diff_sign:
  "0 \<notin> set xs \<Longrightarrow> 0 \<notin> set ys \<Longrightarrow>
     (str_diff xs ys = 0 \<longleftrightarrow> xs = ys) \<and> (str_diff xs ys < 0 \<longleftrightarrow> (xs, ys) \<in> lexord {(x, y). x < y})"
proof (induction xs ys rule: str_diff.induct)
  case (2 y ys)
  then have "0 < uint y" by (metis list.set_intros(1) uint_0_iff uint_ge_0 order_le_less)
  then show ?case by simp
next
  case (3 x xs)
  then have "0 < uint x" by (metis list.set_intros(1) uint_0_iff uint_ge_0 order_le_less)
  then show ?case by simp
next
  case (4 x xs y ys)
  then show ?case by (auto simp: word_less_def word_uint_eq_iff)
qed simp

lemma cstr_no_zero: "cstr m s xs \<Longrightarrow> 0 \<notin> set xs"
  by (induction xs arbitrary: s) auto

lemma strcpy_simps:
  "strcpy to from m = (if m from = 0 then Some (m(to := 0)) else strcpy (to + 1) (from + 1) (m(to := m from)))"
  by (subst strcpy.simps) (auto simp: Let_def fun_upd_def cong: if_cong)

lemma strcpy_apply:
  assumes "cstr m from xs" and "range_of to (Suc (length xs)) \<inter> range_of from (Suc (length xs)) = {}"
    and "length xs < 2 ^ 64"
  shows "strcpy to from m = Some (memcpy_loop (Suc (length xs)) to from m)"
  using assms
proof (induction xs arbitrary: to "from" m)
  case Nil
  then show ?case by (auto simp: strcpy_simps [of to] fun_eq_iff)
next
  case (Cons x xs)
  let ?m = "m(to := m from)"
  have disj: "range_of (to + 1) (Suc (length xs)) \<inter> range_of (from + 1) (Suc (length xs)) = {}"
    "to \<notin> range_of (from + 1) (Suc (length xs))"
    using Cons.prems(2) range_of_Suc [of to "Suc (length xs)"] range_of_Suc [of "from" "Suc (length xs)"]
    by auto
  have "cstr ?m (from + 1) xs \<longleftrightarrow> cstr m (from + 1) xs"
    by (rule cstr_frame) (use disj(2) in auto)
  with Cons.prems disj(1) have "strcpy (to + 1) (from + 1) ?m = Some (memcpy_loop (Suc (length xs)) (to + 1) (from + 1) ?m)"
    by (intro Cons.IH) (auto simp del: fun_upd_apply)
  with Cons.prems(1) show ?case by (simp add: strcpy_simps [of to])
qed

lemma cstr_copy:
  assumes "cstr m s xs" and "\<And>i. i \<le> length xs \<Longrightarrow> m' (d + of_nat i) = m (s + of_nat i)"
  shows "cstr m' d xs"
  using assms
proof (induction xs arbitrary: d s)
  case (Cons x xs)
  have "m' (d + 1 + of_nat i) = m (s + 1 + of_nat i)" if "i \<le> length xs" for i
    using Cons.prems(2) [of "Suc i"] that by (simp add: add.assoc)
  then have "cstr m' (d + 1) xs" using Cons.prems(1) by (intro Cons.IH [of "s + 1"]) simp_all
  with Cons.prems(1) Cons.prems(2) [of 0] show ?case by simp
qed simp

lemma strncpy_loop_apply:
  assumes "range_of to (Suc n) \<inter> range_of from (Suc n) = {}" and "n < 2 ^ 64" and "k \<le> n"
    and "\<And>i. i < k \<Longrightarrow> m (from + of_nat i) \<noteq> 0" and "k < n \<Longrightarrow> m (from + of_nat k) = 0"
  shows "strncpy_loop n to from m = (to + of_nat k, memcpy_loop (Suc k) to from m)"
  using assms
proof (induction n arbitrary: to "from" m k)
  case (Suc n)
  let ?m = "m(to := m from)"
  have disj: "range_of (to + 1) (Suc n) \<inter> range_of (from + 1) (Suc n) = {}"
    "to \<notin> range_of (from + 1) (Suc n)"
    using Suc.prems(1) unfolding range_of_Suc [of _ "Suc n"] by auto
  have eq: "?m (from + 1 + of_nat i) = m (from + of_nat (Suc i))" if "i \<le> n" for i
    using that disj(2) range_of_mem [of i "Suc n" "from + 1"] by (auto simp: add.assoc)
  show ?case
  proof (cases k)
    case 0
    then show ?thesis using Suc.prems(5) by (auto simp: fun_eq_iff)
  next
    case (Suc j)
    have "strncpy_loop n (to + 1) (from + 1) ?m = (to + 1 + of_nat j, memcpy_loop (Suc j) (to + 1) (from + 1) ?m)"
      using Suc Suc.prems(2-5) eq disj(1) by (intro Suc.IH) (simp_all del: fun_upd_apply of_nat_Suc)
    moreover have "m from \<noteq> 0" using Suc.prems(4) [of 0] Suc by simp
    ultimately show ?thesis using Suc by (simp add: add.assoc)
  qed
qed simp

lemma ucast_scast_u8: "ucast (scast (x :: u8) :: u32) = x"
  by (rule bit_word_eqI) (auto simp: bit_simps)

lemma scast_u8_inj: "(scast a :: u32) = scast b \<longleftrightarrow> a = b" for a b :: u8
  by (metis ucast_scast_u8)

lemma strchr_cstr: "cstr m s xs \<Longrightarrow> c \<noteq> 0 \<Longrightarrow> \<exists>r. strchr m s (scast c) = Some r \<and> (r \<noteq> None \<longleftrightarrow> c \<in> set xs)"
proof (induction xs arbitrary: s)
  case Nil
  then have "(scast (m s) :: u32) \<noteq> scast c" by (simp only: scast_u8_inj) simp
  with Nil show ?case by (simp add: strchr.simps [of m s])
next
  case (Cons x xs)
  then obtain r where "strchr m (s + 1) (scast c) = Some r" "r \<noteq> None \<longleftrightarrow> c \<in> set xs" by auto
  moreover have "(scast (m s) :: u32) = scast c \<longleftrightarrow> x = c" using Cons.prems by (simp add: scast_u8_inj)
  ultimately show ?case using Cons.prems by (auto simp: strchr.simps [of m s])
qed

lemma tok_skip_cstr:
  assumes "cstr m delim ds" and "cstr m str xs"
  shows "tok_skip want m delim str = Some (str + of_nat (length (takeWhile (\<lambda>c. (c \<in> set ds) = want) xs)))"
  using assms(2)
proof (induction xs arbitrary: str)
  case Nil
  then show ?case by (simp add: tok_skip.simps [of want])
next
  case (Cons x xs)
  then have x: "m str = x" "x \<noteq> 0" by simp_all
  obtain r where "strchr m delim (scast x) = Some r" "r \<noteq> None \<longleftrightarrow> x \<in> set ds"
    using strchr_cstr [OF assms(1) x(2)] by blast
  with Cons x show ?case by (simp add: tok_skip.simps [of want m delim str] add.assoc)
qed

lemma cstr_append:
  "cstr m s (us @ vs) \<longleftrightarrow> (\<forall>i < length us. m (s + of_nat i) = us ! i \<and> us ! i \<noteq> 0) \<and> cstr m (s + of_nat (length us)) vs"
  by (induction us arbitrary: s) (auto simp: less_Suc_eq_0_disj add.assoc)

lemma of_nat_add_neq: "i < j \<Longrightarrow> j < 2 ^ 64 \<Longrightarrow> s + of_nat i \<noteq> s + (of_nat j :: u64)"
proof
  assume l: "i < j" "j < 2 ^ 64" and "s + of_nat i = s + (of_nat j :: u64)"
  then have "unat (of_nat i :: u64) = unat (of_nat j :: u64)" by simp
  with l show False by (simp add: unsigned_of_nat take_bit_eq_mod)
qed

lemma cstr_truncate:
  assumes "cstr m s (us @ vs)" and "length us < 2 ^ 64"
  shows "cstr (m(s + of_nat (length us) := 0)) s us"
proof -
  have "cstr (m(s + of_nat (length us) := 0)) s (us @ [])"
    unfolding cstr_append using assms by (auto simp: cstr_append dest: of_nat_add_neq)
  then show ?thesis by simp
qed

section \<open>Properties\<close>

text \<open>
  C27. \<^verbatim>\<open>strcmp\<close> of two strings returns, and its result is zero exactly for equal strings and
  negative exactly when the first string is lexicographically smaller (by unsigned bytes).
\<close>

theorem strcmp_order:
  assumes "cstr m a xs" and "cstr m b ys"
  shows "\<exists>r. strcmp m a b = Some r \<and> (r = 0 \<longleftrightarrow> xs = ys) \<and> (r < 0 \<longleftrightarrow> (xs, ys) \<in> lexord {(x, y). x < y})"
  using strcmp_cstr [OF assms] str_diff_sign [of xs ys] cstr_no_zero [OF assms(1)] cstr_no_zero [OF assms(2)]
  by (intro exI [of _ "str_diff xs ys"]) simp

theorem strcmp_order_witness:
  "cstr (\<lambda>a. if a = 0 then 97 else if a = 16 then 98 else 0) 0 [97] \<and>
   (\<exists>r. strcmp (\<lambda>a. if a = 0 then 97 else if a = 16 then 98 else 0) 0 16 = Some r \<and> r < 0)"
proof -
  let ?m = "\<lambda>a :: u64. if a = 0 then 97 else if a = 16 then 98 else (0 :: u8)"
  have c: "cstr ?m 0 [97]" "cstr ?m 16 [98]" by simp_all
  with strcmp_order [OF c] show ?thesis by auto
qed

text \<open>
  C37. \<^verbatim>\<open>strncpy\<close> copies at most \<^verbatim>\<open>length\<close> characters and always terminates the copy; the
  terminator of a source of at least \<^verbatim>\<open>length\<close> characters is stored at \<^verbatim>\<open>to[length]\<close>, one
  byte beyond a buffer of \<^verbatim>\<open>length\<close> bytes.  Nothing else is written.
\<close>

theorem strncpy_terminates_copy:
  assumes "cstr m from xs" and "length xs < 2 ^ 64"
    and "range_of to (Suc (unat len)) \<inter> range_of from (Suc (unat len)) = {}"
  shows "cstr (strncpy to from len m) to (take (unat len) xs) \<and>
     (unat len \<le> length xs \<longrightarrow> strncpy to from len m (to + len) = 0) \<and>
     (\<forall>a. a \<notin> range_of to (Suc (min (unat len) (length xs))) \<longrightarrow> strncpy to from len m a = m a)"
proof -
  let ?k = "min (unat len) (length xs)"
  let ?m = "memcpy_loop (Suc ?k) to from m"
  have xs: "m (from + of_nat i) = xs ! i \<and> xs ! i \<noteq> 0" if "i < length xs" for i
    using assms(1) cstr_append [of m "from" xs "[]"] that by simp
  have z: "m (from + of_nat (length xs)) = 0" using assms(1) cstr_append [of m "from" xs "[]"] by simp
  have len: "unat len < 2 ^ 64" using unat_u64_less [of len] by simp
  have "strncpy_loop (unat len) to from m = (to + of_nat ?k, ?m)"
    by (rule strncpy_loop_apply [OF assms(3) len]) (use xs z in \<open>auto simp: min_def split: if_splits\<close>)
  then have eq: "strncpy to from len m = ?m(to + of_nat ?k := 0)" by (simp add: strncpy_def)
  have sub: "range_of a (Suc ?k) \<subseteq> range_of a (Suc (unat len))" for a by (rule range_of_mono) simp
  have disj: "range_of to (Suc ?k) \<inter> range_of from (Suc ?k) = {}" using sub [of to] sub [of "from"] assms(3) by blast
  have k: "Suc ?k \<le> 2 ^ 64" using len by (simp add: Suc_le_eq min.strict_coboundedI1)
  have ap: "?m a = (if a \<in> range_of to (Suc ?k) then m (from + (a - to)) else m a)" for a
    by (rule memcpy_loop_apply [OF disj k])
  have "?m (to + of_nat i) = xs ! i" if "i < ?k" for i
    using ap [of "to + of_nat i"] xs [of i] range_of_mem [of i "Suc ?k" to] that by auto
  moreover have "to + of_nat i \<noteq> to + of_nat ?k" if "i < ?k" for i
    using that k by (intro of_nat_add_neq) auto
  ultimately have "cstr (strncpy to from len m) to (take (unat len) xs @ [])"
    unfolding cstr_append using xs by (auto simp: eq min.commute)
  moreover have "strncpy to from len m (to + len) = 0" if "unat len \<le> length xs"
    using that by (simp add: eq min_absorb1 u64_of_nat_unat)
  moreover have "strncpy to from len m a = m a" if "a \<notin> range_of to (Suc ?k)" for a
    using that ap [of a] range_of_mem [of ?k "Suc ?k" to] by (auto simp: eq)
  ultimately show ?thesis by simp
qed

theorem strncpy_terminates_copy_witness:
  "cstr (\<lambda>a. if a \<in> {16, 17} then 97 else 1 - of_bool (a = 18)) 16 [97, 97] \<and>
   strncpy 0 16 2 (\<lambda>a. if a \<in> {16, 17} then 97 else 1 - of_bool (a = 18)) 2 = 0"
proof -
  let ?m = "\<lambda>a :: u64. if a \<in> {16, 17} then 97 else (1 - of_bool (a = 18) :: u8)"
  have c: "cstr ?m 16 [97, 97]" by simp
  have "range_of a 3 = {a, a + 1, a + 2}" for a
    using range_of_Suc [of a 2] range_of_Suc [of "a + 1" 1] range_of_Suc [of "a + 2" 0] by (simp add: add.assoc numeral_2_eq_2 numeral_3_eq_3)
  then have "range_of 0 (Suc (unat (2 :: u64))) \<inter> range_of 16 (Suc (unat (2 :: u64))) = {}" by simp
  from strncpy_terminates_copy [OF c _ this] c show ?thesis by simp
qed



end
