(* ===== verification/BufCache.thy ===== *)
theory BufCache
  imports Clock CString
begin

text \<open>
  Scatter-gather arrays, disks and the buffer cache: \<^verbatim>\<open>src/sys/kern/sga.c\<close>,
  \<^verbatim>\<open>src/sys/kern/disk.c\<close> and \<^verbatim>\<open>src/sys/kern/bufcache.c\<close>.

  A \<^verbatim>\<open>Disk\<close> carries the driver's functions as in C; they transform the contents of the
  disks (a byte per disk and offset) and the byte memory \<open>bmem\<close>, which holds the data of
  the buffers.  Asynchronous callbacks are not used by any caller (\<^verbatim>\<open>NULL, NULL\<close>).
  The null pointer is 0.  The byte memory is separate from the word memory \<^term>\<open>mem\<close> of
  the page tables and free pages: no location is accessed through both.
\<close>

section \<open>State\<close>

definition SGARRAY_MAX_ENTRIES :: u32 where
  "SGARRAY_MAX_ENTRIES = 32"

record SGEntry =
  sg_offset :: u64
  sg_length :: u64

record SGArray =
  sg_len :: u32
  sg_entries :: "u32 \<Rightarrow> SGEntry"

type_synonym platters = "u64 \<Rightarrow> u64 \<Rightarrow> u8"
type_synonym disk_op = "u64 \<Rightarrow> u64 \<Rightarrow> SGArray \<Rightarrow> platters \<times> bytes \<Rightarrow> int \<times> platters \<times> bytes"

record Disk =
  ctrlNo :: u64
  diskNo :: u64
  sectorSize :: u64
  sectorCount :: u64
  diskSize :: u64
  dread :: disk_op
  dwrite :: disk_op
  dflush :: disk_op

record BufCacheEntry =
  be_disk :: u64
  diskOffset :: u64
  be_refCount :: u64
  buffer :: u64

record kbufs = kclock +
  bmem :: bytes
  platter :: platters
  disks :: "u64 \<Rightarrow> Disk"
  diskList :: "u64 list"
  diskBuf :: nat
  entries :: "u64 \<Rightarrow> BufCacheEntry"
  hashTable :: "nat \<Rightarrow> u64 list"
  lruList :: "u64 list"
  cacheHit :: u64
  cacheMiss :: u64
  cacheAlloc :: u64
  cacheEntrySlab :: slab

definition CACHESIZE :: nat where "CACHESIZE = 16 * 1024 * 1024"
definition HASHTABLEENTRIES :: nat where "HASHTABLEENTRIES = 128"
definition BLOCKSIZE :: nat where "BLOCKSIZE = 16 * 1024"

lemmas bufcache_consts = CACHESIZE_def HASHTABLEENTRIES_def BLOCKSIZE_def

section \<open>Scatter-gather arrays\<close>

definition SGArray_Init :: "SGArray \<Rightarrow> SGArray" where
  "SGArray_Init sga = sga\<lparr>sg_len := 0\<rparr>"

definition SGArray_Append :: "u64 \<Rightarrow> u64 \<Rightarrow> SGArray \<Rightarrow> (u32 \<times> SGArray) option" where
  "SGArray_Append off len sga = do {
     kassert (sg_len sga < SGARRAY_MAX_ENTRIES);
     let sga = sga\<lparr>sg_entries := (sg_entries sga)(sg_len sga := \<lparr>sg_offset = off, sg_length = len\<rparr>),
                   sg_len := sg_len sga + 1\<rparr>;
     Some (sg_len sga, sga)
   }"

section \<open>Disks\<close>

definition Disk_AddDisk :: "u64 \<Rightarrow> 'a kbufs_scheme \<Rightarrow> 'a kbufs_scheme" where
  "Disk_AddDisk d s = s\<lparr>diskList := d # diskList s\<rparr>"

definition Disk_RemoveDisk :: "u64 \<Rightarrow> 'a kbufs_scheme \<Rightarrow> 'a kbufs_scheme" where
  "Disk_RemoveDisk d s = s\<lparr>diskList := remove1 d (diskList s)\<rparr>"

definition Disk_GetByID :: "u64 \<Rightarrow> u64 \<Rightarrow> 'a kbufs_scheme \<Rightarrow> u64 option" where
  "Disk_GetByID c n s = List.find (\<lambda>d. ctrlNo (disks s d) = c \<and> diskNo (disks s d) = n) (diskList s)"

definition disk_call :: "disk_op \<Rightarrow> u64 \<Rightarrow> u64 \<Rightarrow> SGArray \<Rightarrow> 'a kbufs_scheme \<Rightarrow> int \<times> 'a kbufs_scheme" where
  "disk_call f d buf sga s =
     (let (r, p, m) = f d buf sga (platter s, bmem s) in (r, s\<lparr>platter := p, bmem := m\<rparr>))"

definition Disk_Read :: "u64 \<Rightarrow> u64 \<Rightarrow> SGArray \<Rightarrow> 'a kbufs_scheme \<Rightarrow> int \<times> 'a kbufs_scheme" where
  "Disk_Read d buf sga s = disk_call (dread (disks s d)) d buf sga s"

definition Disk_Write :: "u64 \<Rightarrow> u64 \<Rightarrow> SGArray \<Rightarrow> 'a kbufs_scheme \<Rightarrow> int \<times> 'a kbufs_scheme" where
  "Disk_Write d buf sga s = disk_call (dwrite (disks s d)) d buf sga s"

definition Disk_Flush :: "u64 \<Rightarrow> u64 \<Rightarrow> SGArray \<Rightarrow> 'a kbufs_scheme \<Rightarrow> int \<times> 'a kbufs_scheme" where
  "Disk_Flush d buf sga s = disk_call (dflush (disks s d)) d buf sga s"

section \<open>The buffer cache\<close>

definition sizeof_BufCacheEntry :: u64 where
  "sizeof_BufCacheEntry = 64"

definition BufCacheEntry_Alloc :: "'a kbufs_scheme \<Rightarrow> (u64 option \<times> 'a kbufs_scheme) option" where
  "BufCacheEntry_Alloc s = do {
     (e, sl, s) \<leftarrow> Slab_Alloc (cacheEntrySlab s) s;
     Some (e, s\<lparr>cacheEntrySlab := sl\<rparr>)
   }"

text \<open>One iteration of the loop that creates the entries.\<close>

definition BufCache_entry :: "u64 \<Rightarrow> nat \<Rightarrow> 'a kbufs_scheme \<Rightarrow> 'a kbufs_scheme option" where
  "BufCache_entry bufBase i s = do {
     (e, s) \<leftarrow> BufCacheEntry_Alloc s;
     e \<leftarrow> e;
     Some (s\<lparr>entries := (entries s)(e := \<lparr>be_disk = 0, diskOffset = 0, be_refCount = 0,
                                         buffer = bufBase + of_nat (BLOCKSIZE * i)\<rparr>),
             lruList := lruList s @ [e]\<rparr>)
   }"

definition BufCache_Init :: "'a kbufs_scheme \<Rightarrow> 'a kbufs_scheme option" where
  "BufCache_Init s = do {
     let (x, s) = XMem_New s;
     x \<leftarrow> x;
     let s = s\<lparr>diskBuf := x\<rparr>;
     (ok, s) \<leftarrow> XMem_Allocate x (of_nat CACHESIZE) s;
     kassert ok;
     let s = s\<lparr>lruList := []\<rparr>;
     (pg, s) \<leftarrow> PAlloc_AllocPage s;
     let s = s\<lparr>hashTable := (\<lambda>i. if i < HASHTABLEENTRIES then [] else hashTable s i)\<rparr>;
     (sl, s) \<leftarrow> Slab_Init ''BufCacheEntry Slab'' sizeof_BufCacheEntry 16 s;
     let s = s\<lparr>cacheEntrySlab := sl\<rparr>;
     s \<leftarrow> for_each [0..<CACHESIZE div BLOCKSIZE] (BufCache_entry (XMem_GetBase x s)) s;
     Some (s\<lparr>cacheHit := 0, cacheMiss := 0, cacheAlloc := 0\<rparr>)
   }"

definition bc_slot :: "u64 \<Rightarrow> nat" where
  "bc_slot off = unat off mod HASHTABLEENTRIES"

text \<open>The results are the status, the new \<^verbatim>\<open>*entry\<close> and the state.\<close>

definition BufCacheLookup :: "u64 \<Rightarrow> u64 \<Rightarrow> 'a kbufs_scheme \<Rightarrow> int \<times> u64 option \<times> 'a kbufs_scheme" where
  "BufCacheLookup disk off s =
     (case List.find (\<lambda>e. be_disk (entries s e) = disk \<and> diskOffset (entries s e) = off)
             (hashTable s (bc_slot off)) of
        Some e \<Rightarrow>
          let s = s\<lparr>entries := (entries s)(e := (entries s e)\<lparr>be_refCount := be_refCount (entries s e) + 1\<rparr>)\<rparr>;
              s = (if be_refCount (entries s e) = 1 then s\<lparr>lruList := remove1 e (lruList s)\<rparr> else s)
          in (0, Some e, s)
      | None \<Rightarrow> (ENOENT, None, s))"

definition BufCacheAlloc :: "u64 \<Rightarrow> u64 \<Rightarrow> 'a kbufs_scheme \<Rightarrow> int \<times> u64 option \<times> 'a kbufs_scheme" where
  "BufCacheAlloc disk off s =
     (case lruList s of
        [] \<Rightarrow> (ENOMEM, None, s)
      | e # lru \<Rightarrow>
          let s = s\<lparr>lruList := lru\<rparr>;
              old = bc_slot (diskOffset (entries s e));
              s = (if be_disk (entries s e) \<noteq> 0
                   then s\<lparr>hashTable := (hashTable s)(old := remove1 e (hashTable s old))\<rparr> else s);
              s = s\<lparr>entries := (entries s)(e := (entries s e)\<lparr>be_disk := disk, diskOffset := off, be_refCount := 1\<rparr>)\<rparr>;
              s = s\<lparr>hashTable := (hashTable s)(bc_slot off := e # hashTable s (bc_slot off))\<rparr>
          in (0, Some e, s))"

text \<open>
  \<^verbatim>\<open>BufCacheAlloc\<close> leaves \<^verbatim>\<open>*entry\<close> alone when it fails; both callers have set it to
  \<^verbatim>\<open>NULL\<close> by the failed lookup.
\<close>

definition BufCache_Alloc :: "u64 \<Rightarrow> u64 \<Rightarrow> 'a kbufs_scheme \<Rightarrow> int \<times> u64 option \<times> 'a kbufs_scheme" where
  "BufCache_Alloc disk off s =
     (let (status, entry, s) = BufCacheLookup disk off s;
          (status, entry, s) = (if entry = None then BufCacheAlloc disk off s else (status, entry, s))
      in (status, entry, s\<lparr>cacheAlloc := cacheAlloc s + 1\<rparr>))"

definition BufCache_Release :: "u64 \<Rightarrow> 'a kbufs_scheme \<Rightarrow> 'a kbufs_scheme" where
  "BufCache_Release e s =
     (let s = s\<lparr>entries := (entries s)(e := (entries s e)\<lparr>be_refCount := be_refCount (entries s e) - 1\<rparr>)\<rparr>
      in if be_refCount (entries s e) = 0 then s\<lparr>lruList := lruList s @ [e]\<rparr> else s)"

definition block_sga :: "u64 \<Rightarrow> SGArray option" where
  "block_sga off =
     map_option snd (SGArray_Append off (of_nat BLOCKSIZE)
       (SGArray_Init \<lparr>sg_len = 0, sg_entries = (\<lambda>_. \<lparr>sg_offset = 0, sg_length = 0\<rparr>)\<rparr>))"

definition BufCache_Read :: "u64 \<Rightarrow> u64 \<Rightarrow> 'a kbufs_scheme \<Rightarrow> (int \<times> u64 option \<times> 'a kbufs_scheme) option" where
  "BufCache_Read disk off s =
     (let (status, entry, s) = BufCacheLookup disk off s in
      if entry \<noteq> None then Some (status, entry, s\<lparr>cacheHit := cacheHit s + 1\<rparr>)
      else
        let s = s\<lparr>cacheMiss := cacheMiss s + 1\<rparr>;
            (status, entry, s) = BufCacheAlloc disk off s
        in if status \<noteq> 0 then Some (status, entry, s)
           else do {
             e \<leftarrow> entry;
             sga \<leftarrow> block_sga off;
             let (status, s) = Disk_Read disk (buffer (entries s e)) sga s;
             Some (status, entry, s)
           })"

definition BufCache_Write :: "u64 \<Rightarrow> 'a kbufs_scheme \<Rightarrow> (int \<times> 'a kbufs_scheme) option" where
  "BufCache_Write e s = do {
     sga \<leftarrow> block_sga (diskOffset (entries s e));
     Some (Disk_Write (be_disk (entries s e)) (buffer (entries s e)) sga s)
   }"

section \<open>Invariant\<close>

text \<open>
  \<open>E\<close> is the set of cache entries.  The LRU list holds the unreferenced entries, the chain of
  a slot holds the entries of the blocks that hash to it, no block is cached twice and the
  buffers do not overlap.
\<close>

definition caches :: "u64 \<Rightarrow> u64 \<Rightarrow> u64 \<Rightarrow> 'a kbufs_scheme \<Rightarrow> bool" where
  "caches e disk off s \<longleftrightarrow> be_disk (entries s e) = disk \<and> diskOffset (entries s e) = off"

definition bc_inv :: "u64 set \<Rightarrow> 'a kbufs_scheme \<Rightarrow> bool" where
  "bc_inv E s \<longleftrightarrow>
     distinct (lruList s) \<and> set (lruList s) = {e \<in> E. be_refCount (entries s e) = 0} \<and>
     (\<forall>h < HASHTABLEENTRIES. distinct (hashTable s h) \<and>
        set (hashTable s h) = {e \<in> E. be_disk (entries s e) \<noteq> 0 \<and> bc_slot (diskOffset (entries s e)) = h}) \<and>
     (\<forall>e\<in>E. \<forall>e'\<in>E. \<forall>d off. d \<noteq> 0 \<longrightarrow> caches e d off s \<longrightarrow> caches e' d off s \<longrightarrow> e = e') \<and>
     (\<forall>e\<in>E. \<forall>e'\<in>E. e \<noteq> e' \<longrightarrow>
        range_of (buffer (entries s e)) BLOCKSIZE \<inter> range_of (buffer (entries s e')) BLOCKSIZE = {})"

lemma bc_invD:
  assumes "bc_inv E s"
  shows "distinct (lruList s)" and "set (lruList s) = {e \<in> E. be_refCount (entries s e) = 0}"
    and "h < HASHTABLEENTRIES \<Longrightarrow> distinct (hashTable s h)"
    and "h < HASHTABLEENTRIES \<Longrightarrow>
       set (hashTable s h) = {e \<in> E. be_disk (entries s e) \<noteq> 0 \<and> bc_slot (diskOffset (entries s e)) = h}"
    and "e \<in> E \<Longrightarrow> e' \<in> E \<Longrightarrow> d \<noteq> 0 \<Longrightarrow> caches e d off s \<Longrightarrow> caches e' d off s \<Longrightarrow> e = e'"
    and "e \<in> E \<Longrightarrow> e' \<in> E \<Longrightarrow> e \<noteq> e' \<Longrightarrow>
       range_of (buffer (entries s e)) BLOCKSIZE \<inter> range_of (buffer (entries s e')) BLOCKSIZE = {}"
proof -
  note d = assms [unfolded bc_inv_def]
  show "distinct (lruList s)" by (rule d [THEN conjunct1])
  note d = d [THEN conjunct2]
  show "set (lruList s) = {e \<in> E. be_refCount (entries s e) = 0}" by (rule d [THEN conjunct1])
  note d = d [THEN conjunct2]
  show "h < HASHTABLEENTRIES \<Longrightarrow> distinct (hashTable s h)"
    "h < HASHTABLEENTRIES \<Longrightarrow>
       set (hashTable s h) = {e \<in> E. be_disk (entries s e) \<noteq> 0 \<and> bc_slot (diskOffset (entries s e)) = h}"
    using d [THEN conjunct1] by blast+
  note d = d [THEN conjunct2]
  show "e \<in> E \<Longrightarrow> e' \<in> E \<Longrightarrow> d \<noteq> 0 \<Longrightarrow> caches e d off s \<Longrightarrow> caches e' d off s \<Longrightarrow> e = e'"
    using d [THEN conjunct1] by blast
  show "e \<in> E \<Longrightarrow> e' \<in> E \<Longrightarrow> e \<noteq> e' \<Longrightarrow>
       range_of (buffer (entries s e)) BLOCKSIZE \<inter> range_of (buffer (entries s e')) BLOCKSIZE = {}"
    using d [THEN conjunct2] by blast
qed

lemma bc_slot_less [simp]: "bc_slot off < HASHTABLEENTRIES"
  by (simp add: bc_slot_def HASHTABLEENTRIES_def)

lemma find_caches:
  assumes "bc_inv E s" and "disk \<noteq> 0"
  shows "List.find (\<lambda>e. be_disk (entries s e) = disk \<and> diskOffset (entries s e) = off) (hashTable s (bc_slot off))
     = Some e \<longleftrightarrow> e \<in> E \<and> caches e disk off s"
proof -
  let ?P = "\<lambda>e. be_disk (entries s e) = disk \<and> diskOffset (entries s e) = off"
  note set = bc_invD(4) [OF assms(1) bc_slot_less [of off]]
  have only: "x = y" if "x \<in> E" "y \<in> E" "?P x" "?P y" for x y
    using that bc_invD(5) [OF assms(1) that(1,2) assms(2)] by (simp add: caches_def)
  show ?thesis
  proof
    assume "List.find ?P (hashTable s (bc_slot off)) = Some e"
    then have "e \<in> set (hashTable s (bc_slot off))" "?P e" by (auto simp: find_Some_iff)
    then show "e \<in> E \<and> caches e disk off s" using set by (auto simp: caches_def)
  next
    assume r: "e \<in> E \<and> caches e disk off s"
    then have "e \<in> set (hashTable s (bc_slot off))" using set assms(2) by (auto simp: caches_def)
    with r have "List.find ?P (hashTable s (bc_slot off)) \<noteq> None"
      by (auto simp: find_None_iff caches_def)
    then obtain x where x: "List.find ?P (hashTable s (bc_slot off)) = Some x" by blast
    then have "x \<in> set (hashTable s (bc_slot off))" "?P x" by (auto simp: find_Some_iff)
    then have "x = e" using only [of x e] r set by (auto simp: caches_def)
    with x show "List.find ?P (hashTable s (bc_slot off)) = Some e" by simp
  qed
qed

lemma BufCacheLookup_miss:
  assumes "bc_inv E s" and "disk \<noteq> 0" and "\<And>e. e \<in> E \<Longrightarrow> \<not> caches e disk off s"
  shows "BufCacheLookup disk off s = (ENOENT, None, s)"
proof -
  have "List.find (\<lambda>e. be_disk (entries s e) = disk \<and> diskOffset (entries s e) = off) (hashTable s (bc_slot off)) = None"
    (is "?f = None")
    using find_caches [OF assms(1,2), of off] assms(3) by (cases ?f) auto
  then show ?thesis by (simp add: BufCacheLookup_def)
qed

text \<open>A change of the state that takes one more reference to a cached entry.\<close>

definition bc_retain :: "u64 \<Rightarrow> 'a kbufs_scheme \<Rightarrow> 'a kbufs_scheme" where
  "bc_retain e s =
     s\<lparr>entries := (entries s)(e := (entries s e)\<lparr>be_refCount := be_refCount (entries s e) + 1\<rparr>),
       lruList := (if be_refCount (entries s e) = 0 then remove1 e (lruList s) else lruList s)\<rparr>"

lemma BufCacheLookup_hit:
  assumes "bc_inv E s" and "disk \<noteq> 0" and "e \<in> E" and "caches e disk off s"
  shows "BufCacheLookup disk off s = (0, Some e, bc_retain e s)"
proof -
  have "List.find (\<lambda>e. be_disk (entries s e) = disk \<and> diskOffset (entries s e) = off) (hashTable s (bc_slot off)) = Some e"
    using find_caches [OF assms(1,2), of off e] assms(3,4) by simp
  then show ?thesis
    by (simp add: BufCacheLookup_def bc_retain_def Let_def)
qed

lemma bc_retain_inv:
  assumes "bc_inv E s" and "e \<in> E" and "be_refCount (entries s e) \<noteq> - 1"
  shows "bc_inv E (bc_retain e s)"
proof -
  note D = bc_invD [OF assms(1)]
  have nz: "be_refCount (entries s e) + 1 \<noteq> 0" using assms(3) by (metis add_eq_0_iff2 add.commute)
  show ?thesis
    unfolding bc_inv_def
  proof (intro conjI)
    show "distinct (lruList (bc_retain e s))" using D(1) by (simp add: bc_retain_def)
    show "set (lruList (bc_retain e s)) = {ea \<in> E. be_refCount (entries (bc_retain e s) ea) = 0}"
      using D(1,2) nz by (auto simp: bc_retain_def)
    show "\<forall>h<HASHTABLEENTRIES. distinct (hashTable (bc_retain e s) h) \<and> set (hashTable (bc_retain e s) h) =
        {ea \<in> E. be_disk (entries (bc_retain e s) ea) \<noteq> 0 \<and> bc_slot (diskOffset (entries (bc_retain e s) ea)) = h}"
      using D(3,4) by (auto simp: bc_retain_def)
    have c: "caches x d off (bc_retain e s) \<longleftrightarrow> caches x d off s" for x d off
      by (simp add: bc_retain_def caches_def)
    show "\<forall>x\<in>E. \<forall>e'\<in>E. \<forall>d off. d \<noteq> 0 \<longrightarrow> caches x d off (bc_retain e s) \<longrightarrow> caches e' d off (bc_retain e s) \<longrightarrow> x = e'"
      unfolding c using D(5) by blast
    show "\<forall>x\<in>E. \<forall>e'\<in>E. x \<noteq> e' \<longrightarrow> range_of (buffer (entries (bc_retain e s) x)) BLOCKSIZE \<inter>
        range_of (buffer (entries (bc_retain e s) e')) BLOCKSIZE = {}"
      using D(6) by (simp add: bc_retain_def)
  qed
qed

text \<open>The state after \<^verbatim>\<open>BufCacheAlloc\<close> has taken the entry \<open>e\<close> from the LRU list.\<close>

definition bc_assign :: "u64 \<Rightarrow> u64 list \<Rightarrow> u64 \<Rightarrow> u64 \<Rightarrow> 'a kbufs_scheme \<Rightarrow> 'a kbufs_scheme" where
  "bc_assign e lru disk off s =
     (let old = bc_slot (diskOffset (entries s e));
          ht = (if be_disk (entries s e) \<noteq> 0 then (hashTable s)(old := remove1 e (hashTable s old)) else hashTable s)
      in s\<lparr>lruList := lru,
           entries := (entries s)(e := (entries s e)\<lparr>be_disk := disk, diskOffset := off, be_refCount := 1\<rparr>),
           hashTable := ht(bc_slot off := e # ht (bc_slot off))\<rparr>)"

lemma BufCacheAlloc_eq:
  "BufCacheAlloc disk off s =
     (case lruList s of [] \<Rightarrow> (ENOMEM, None, s) | e # lru \<Rightarrow> (0, Some e, bc_assign e lru disk off s))"
  by (cases "lruList s") (simp_all add: BufCacheAlloc_def bc_assign_def Let_def)

lemma bc_assign_simps [simp]:
  "entries (bc_assign e lru disk off s) =
     (entries s)(e := (entries s e)\<lparr>be_disk := disk, diskOffset := off, be_refCount := 1\<rparr>)"
  "lruList (bc_assign e lru disk off s) = lru" "bmem (bc_assign e lru disk off s) = bmem s"
  "platter (bc_assign e lru disk off s) = platter s" "disks (bc_assign e lru disk off s) = disks s"
  by (simp_all add: bc_assign_def Let_def)

lemma bc_retain_simps [simp]:
  "entries (bc_retain e s) = (entries s)(e := (entries s e)\<lparr>be_refCount := be_refCount (entries s e) + 1\<rparr>)"
  "bmem (bc_retain e s) = bmem s" "platter (bc_retain e s) = platter s" "disks (bc_retain e s) = disks s"
  by (simp_all add: bc_retain_def)

lemma bc_assign_inv:
  assumes inv: "bc_inv E s" and lru: "lruList s = e # lru" and d: "disk \<noteq> 0"
    and new: "\<And>x. x \<in> E \<Longrightarrow> \<not> caches x disk off s"
  shows "bc_inv E (bc_assign e lru disk off s)" and "e \<in> E"
proof -
  note D = bc_invD [OF inv]
  let ?s = "bc_assign e lru disk off s"
  let ?old = "bc_slot (diskOffset (entries s e))"
  define ht where "ht = (if be_disk (entries s e) \<noteq> 0 then (hashTable s)(?old := remove1 e (hashTable s ?old)) else hashTable s)"
  have ht': "hashTable ?s = ht(bc_slot off := e # ht (bc_slot off))" by (simp add: bc_assign_def ht_def Let_def)
  show e: "e \<in> E" using D(2) lru by auto
  have base: "distinct (ht h) \<and> set (ht h) = {x \<in> E. x \<noteq> e \<and> be_disk (entries s x) \<noteq> 0 \<and> bc_slot (diskOffset (entries s x)) = h}"
    if "h < HASHTABLEENTRIES" for h
  proof (cases "be_disk (entries s e) \<noteq> 0 \<and> h = ?old")
    case True
    then show ?thesis using D(3,4) [OF that] by (auto simp: ht_def)
  next
    case False
    then have "ht h = hashTable s h" by (auto simp: ht_def)
    then show ?thesis using False D(3,4) [OF that] by auto
  qed
  have c: "caches x d' o' ?s \<longleftrightarrow> (if x = e then d' = disk \<and> o' = off else caches x d' o' s)" for x d' o'
    by (auto simp: caches_def)
  show "bc_inv E ?s"
    unfolding bc_inv_def
  proof (intro conjI)
    show "distinct (lruList ?s)" using D(1) lru by simp
    show "set (lruList ?s) = {x \<in> E. be_refCount (entries ?s x) = 0}" using D(1,2) lru by auto
    show "\<forall>h<HASHTABLEENTRIES. distinct (hashTable ?s h) \<and> set (hashTable ?s h) =
        {x \<in> E. be_disk (entries ?s x) \<noteq> 0 \<and> bc_slot (diskOffset (entries ?s x)) = h}"
      unfolding ht' using base d e by auto
    show "\<forall>x\<in>E. \<forall>y\<in>E. \<forall>d off. d \<noteq> 0 \<longrightarrow> caches x d off ?s \<longrightarrow> caches y d off ?s \<longrightarrow> x = y"
    proof (intro ballI allI impI)
      fix x y d' o'
      assume "x \<in> E" "y \<in> E" "d' \<noteq> 0" "caches x d' o' ?s" "caches y d' o' ?s"
      then show "x = y" using D(5) [of x y d' o'] new unfolding c by (auto split: if_splits)
    qed
    show "\<forall>x\<in>E. \<forall>y\<in>E. x \<noteq> y \<longrightarrow>
        range_of (buffer (entries ?s x)) BLOCKSIZE \<inter> range_of (buffer (entries ?s y)) BLOCKSIZE = {}"
      using D(6) by simp
  qed
qed

text \<open>The cached blocks are equal to the blocks on the disk.\<close>

definition coherent :: "u64 \<Rightarrow> 'a kbufs_scheme \<Rightarrow> bool" where
  "coherent e s \<longleftrightarrow>
     (\<forall>i < BLOCKSIZE. bmem s (buffer (entries s e) + of_nat i) =
        platter s (be_disk (entries s e)) (diskOffset (entries s e) + of_nat i))"

definition bc_coherent :: "u64 set \<Rightarrow> 'a kbufs_scheme \<Rightarrow> bool" where
  "bc_coherent E s \<longleftrightarrow> (\<forall>e\<in>E. be_disk (entries s e) \<noteq> 0 \<longrightarrow> coherent e s)"

text \<open>What the driver of a disk promises: a block is transferred completely and the status is 0.\<close>

definition disk_ok :: "Disk \<Rightarrow> bool" where
  "disk_ok dk \<longleftrightarrow>
     (\<forall>d buf off sga p m. block_sga off = Some sga \<longrightarrow>
        dread dk d buf sga (p, m) =
          (0, p, \<lambda>a. if a - buf < of_nat BLOCKSIZE then p d (off + (a - buf)) else m a) \<and>
        dwrite dk d buf sga (p, m) =
          (0, p(d := \<lambda>x. if x - off < of_nat BLOCKSIZE then m (buf + (x - off)) else p d x), m))"

lemma block_sga_Some: "\<exists>sga. block_sga off = Some sga"
  by (simp add: block_sga_def SGArray_Append_def SGArray_Init_def SGARRAY_MAX_ENTRIES_def kassert_def)

lemma Disk_Read_ok:
  assumes "disk_ok (disks s d)" and "block_sga off = Some sga"
  shows "Disk_Read d buf sga s =
     (0, s\<lparr>bmem := (\<lambda>a. if a - buf < of_nat BLOCKSIZE then platter s d (off + (a - buf)) else bmem s a)\<rparr>)"
  using assms(1) [unfolded disk_ok_def, rule_format, OF assms(2)] by (simp add: Disk_Read_def disk_call_def)

lemma Disk_Write_ok:
  assumes "disk_ok (disks s d)" and "block_sga off = Some sga"
  shows "Disk_Write d buf sga s =
     (0, s\<lparr>platter := (platter s)(d := \<lambda>x. if x - off < of_nat BLOCKSIZE then bmem s (buf + (x - off)) else platter s d x)\<rparr>)"
  using assms(1) [unfolded disk_ok_def, rule_format, OF assms(2)] by (simp add: Disk_Write_def disk_call_def)

lemma block_index: "i < BLOCKSIZE \<Longrightarrow> (of_nat i :: u64) < of_nat BLOCKSIZE"
  by (simp add: word_less_nat_alt unsigned_of_nat take_bit_eq_mod BLOCKSIZE_def)

lemma block_range: "a - buf < (of_nat BLOCKSIZE :: u64) \<longleftrightarrow> a \<in> range_of buf BLOCKSIZE"
  by (subst range_of_iff) (simp_all add: word_less_nat_alt unsigned_of_nat take_bit_eq_mod BLOCKSIZE_def)

text \<open>
  What every operation of the cache keeps: the buffers, the disks, the other components of the
  state, the identity of referenced entries and the memory outside of unreferenced buffers.
\<close>

definition bc_frame :: "u64 set \<Rightarrow> 'a kbufs_scheme \<Rightarrow> 'a kbufs_scheme \<Rightarrow> bool" where
  "bc_frame E s s' \<longleftrightarrow>
     disks s' = disks s \<and> kbufs.more s' = kbufs.more s \<and>
     (\<forall>x. buffer (entries s' x) = buffer (entries s x)) \<and>
     (\<forall>x. be_refCount (entries s x) \<noteq> 0 \<longrightarrow>
        be_disk (entries s' x) = be_disk (entries s x) \<and> diskOffset (entries s' x) = diskOffset (entries s x)) \<and>
     (\<forall>a. (\<forall>x\<in>E. be_refCount (entries s x) = 0 \<longrightarrow> a \<notin> range_of (buffer (entries s x)) BLOCKSIZE) \<longrightarrow>
        bmem s' a = bmem s a)"

lemma kbufs_more_simps [simp]:
  "kbufs.more (bc_assign e lru disk off s) = kbufs.more s" "kbufs.more (bc_retain e s) = kbufs.more s"
  by (simp_all add: bc_assign_def bc_retain_def Let_def)

lemma bc_inv_cong:
  assumes "entries s' = entries s" "lruList s' = lruList s" "hashTable s' = hashTable s"
  shows "bc_inv E s' \<longleftrightarrow> bc_inv E s"
  unfolding bc_inv_def caches_def assms ..

lemma coherent_cong:
  assumes "bmem s' = bmem s" "platter s' = platter s" "be_disk (entries s' e) = be_disk (entries s e)"
    "diskOffset (entries s' e) = diskOffset (entries s e)" "buffer (entries s' e) = buffer (entries s e)"
  shows "coherent e s' \<longleftrightarrow> coherent e s"
  unfolding coherent_def assms ..

lemma BufCache_Read_hit:
  assumes "bc_inv E s" and "disk \<noteq> 0" and "e \<in> E" and "caches e disk off s"
  shows "BufCache_Read disk off s = Some (0, Some e, (bc_retain e s)\<lparr>cacheHit := cacheHit s + 1\<rparr>)"
  using BufCacheLookup_hit [OF assms] by (simp add: BufCache_Read_def bc_retain_def)

lemma BufCache_Read_miss:
  assumes "bc_inv E s" and "disk \<noteq> 0" and "\<And>e. e \<in> E \<Longrightarrow> \<not> caches e disk off s"
    and "lruList s = e # lru" and "block_sga off = Some sga"
  shows "BufCache_Read disk off s =
     (let (r, s') = Disk_Read disk (buffer (entries s e)) sga (bc_assign e lru disk off (s\<lparr>cacheMiss := cacheMiss s + 1\<rparr>))
      in Some (r, Some e, s'))"
proof -
  have "BufCacheLookup disk off s = (ENOENT, None, s)" by (rule BufCacheLookup_miss [OF assms(1-3)])
  then show ?thesis using assms(4,5) by (simp add: BufCache_Read_def BufCacheAlloc_eq case_prod_beta Let_def)
qed

lemma BufCache_Read_full:
  assumes "bc_inv E s" and "disk \<noteq> 0" and "\<And>e. e \<in> E \<Longrightarrow> \<not> caches e disk off s" and "lruList s = []"
  shows "BufCache_Read disk off s = Some (ENOMEM, None, s\<lparr>cacheMiss := cacheMiss s + 1\<rparr>)"
  using BufCacheLookup_miss [OF assms(1-3)] assms(4)
  by (simp add: BufCache_Read_def BufCacheAlloc_eq ENOMEM_def)

lemma BufCache_Read_ok:
  assumes inv: "bc_inv E s" and coh: "bc_coherent E s" and d: "disk \<noteq> 0" and ok: "disk_ok (disks s disk)"
    and rc: "\<And>e. e \<in> E \<Longrightarrow> be_refCount (entries s e) \<noteq> - 1"
    and avail: "(\<exists>e\<in>E. caches e disk off s) \<or> (\<exists>e\<in>E. be_refCount (entries s e) = 0)"
  obtains e s' where "BufCache_Read disk off s = Some (0, Some e, s')" and "e \<in> E" and "caches e disk off s'"
    and "be_refCount (entries s' e) = (if caches e disk off s then be_refCount (entries s e) + 1 else 1)"
    and "\<not> caches e disk off s \<Longrightarrow> be_refCount (entries s e) = 0"
    and "\<And>x. x \<noteq> e \<Longrightarrow> entries s' x = entries s x"
    and "bc_inv E s'" and "bc_coherent E s'" and "platter s' = platter s" and "bc_frame E s s'"
proof (cases "\<exists>e\<in>E. caches e disk off s")
  case True
  then obtain e where e: "e \<in> E" "caches e disk off s" by blast
  let ?s = "(bc_retain e s)\<lparr>cacheHit := cacheHit s + 1\<rparr>"
  have "bc_inv E ?s" using bc_retain_inv [OF inv e(1) rc [OF e(1)]] bc_inv_cong [of ?s "bc_retain e s" E] by simp
  moreover have "coherent x ?s \<longleftrightarrow> coherent x s" for x by (rule coherent_cong) simp_all
  then have "bc_coherent E ?s" using coh by (simp add: bc_coherent_def)
  moreover have "caches e disk off ?s" using e(2) by (simp add: caches_def)
  moreover have "bc_frame E s ?s" by (simp add: bc_frame_def)
  ultimately show ?thesis
    using e by (intro that [OF BufCache_Read_hit [OF inv d e]]) simp_all
next
  case False
  then have miss: "\<And>e. e \<in> E \<Longrightarrow> \<not> caches e disk off s" by blast
  have "lruList s \<noteq> []" using avail False bc_invD(2) [OF inv] by auto
  then obtain e lru where lru: "lruList s = e # lru" by (cases "lruList s") auto
  obtain sga where sga: "block_sga off = Some sga" using block_sga_Some by blast
  let ?sa = "s\<lparr>cacheMiss := cacheMiss s + 1\<rparr>"
  let ?sb = "bc_assign e lru disk off ?sa"
  let ?buf = "buffer (entries s e)"
  let ?s = "?sb\<lparr>bmem := (\<lambda>a. if a - ?buf < of_nat BLOCKSIZE then platter s disk (off + (a - ?buf)) else bmem s a)\<rparr>"
  have rd: "BufCache_Read disk off s = Some (0, Some e, ?s)"
    using BufCache_Read_miss [OF inv d miss lru sga] Disk_Read_ok [of ?sb disk off sga ?buf] ok sga by (simp cong: if_cong)
  have inv0: "bc_inv E ?sa" using inv bc_inv_cong [of ?sa s E] by simp
  have i1: "bc_inv E ?sb" "e \<in> E"
    using bc_assign_inv [OF inv0, of e lru disk off] lru d miss by (simp_all add: caches_def)
  have inv': "bc_inv E ?s" using i1(1) bc_inv_cong [of ?s ?sb E] by simp
  have r0: "be_refCount (entries s e) = 0" using bc_invD(2) [OF inv] lru by auto
  have "coherent x ?s" if x: "x \<in> E" "be_disk (entries ?s x) \<noteq> 0" for x
  proof (cases "x = e")
    case True
    then show ?thesis by (simp add: coherent_def block_index)
  next
    case False
    then have "be_disk (entries s x) \<noteq> 0" using x(2) by simp
    then have c: "coherent x s" using coh x(1) by (simp add: bc_coherent_def)
    have "buffer (entries s x) + of_nat i \<notin> range_of ?buf BLOCKSIZE" if "i < BLOCKSIZE" for i
      using bc_invD(6) [OF inv x(1) i1(2) False] range_of_mem [OF that, of "buffer (entries s x)"] by blast
    with c False show ?thesis by (simp add: coherent_def block_range)
  qed
  then have "bc_coherent E ?s" by (simp add: bc_coherent_def)
  moreover have "bc_frame E s ?s" using i1(2) r0 by (auto simp: bc_frame_def block_range)
  moreover have "caches e disk off ?s" by (simp add: caches_def)
  ultimately show ?thesis
    using rd i1(2) inv' miss r0 by (intro that [of e ?s]) simp_all
qed

lemma BufCache_Release_simps [simp]:
  "entries (BufCache_Release e s) = (entries s)(e := (entries s e)\<lparr>be_refCount := be_refCount (entries s e) - 1\<rparr>)"
  "bmem (BufCache_Release e s) = bmem s" "platter (BufCache_Release e s) = platter s"
  "disks (BufCache_Release e s) = disks s" "hashTable (BufCache_Release e s) = hashTable s"
  "kbufs.more (BufCache_Release e s) = kbufs.more s"
  by (simp_all add: BufCache_Release_def Let_def)

lemma BufCache_Release_inv:
  assumes inv: "bc_inv E s" and e: "e \<in> E" and r: "be_refCount (entries s e) \<noteq> 0"
  shows "bc_inv E (BufCache_Release e s)"
proof -
  note D = bc_invD [OF inv]
  let ?s = "BufCache_Release e s"
  have l: "lruList ?s = (if be_refCount (entries s e) = 1 then lruList s @ [e] else lruList s)"
    by (simp add: BufCache_Release_def Let_def)
  have n: "e \<notin> set (lruList s)" using D(2) r by auto
  show ?thesis
    unfolding bc_inv_def
  proof (intro conjI)
    show "distinct (lruList ?s)" using D(1) n by (simp add: l)
    show "set (lruList ?s) = {x \<in> E. be_refCount (entries ?s x) = 0}" using D(2) e r by (auto simp: l)
    show "\<forall>h<HASHTABLEENTRIES. distinct (hashTable ?s h) \<and> set (hashTable ?s h) =
        {x \<in> E. be_disk (entries ?s x) \<noteq> 0 \<and> bc_slot (diskOffset (entries ?s x)) = h}"
      using D(3,4) by auto
    have c: "caches x d' o' ?s \<longleftrightarrow> caches x d' o' s" for x d' o' by (simp add: caches_def)
    show "\<forall>x\<in>E. \<forall>y\<in>E. \<forall>d off. d \<noteq> 0 \<longrightarrow> caches x d off ?s \<longrightarrow> caches y d off ?s \<longrightarrow> x = y"
      unfolding c using D(5) by blast
    show "\<forall>x\<in>E. \<forall>y\<in>E. x \<noteq> y \<longrightarrow>
        range_of (buffer (entries ?s x)) BLOCKSIZE \<inter> range_of (buffer (entries ?s y)) BLOCKSIZE = {}"
      using D(6) by simp
  qed
qed

lemma Disk_Read_simps [simp]:
  "entries (snd (Disk_Read d buf sga s)) = entries s" "lruList (snd (Disk_Read d buf sga s)) = lruList s"
  "hashTable (snd (Disk_Read d buf sga s)) = hashTable s" "disks (snd (Disk_Read d buf sga s)) = disks s"
  by (simp_all add: Disk_Read_def disk_call_def case_prod_beta)

text \<open>The operations of the cache, with any driver.\<close>

datatype bc_op = BcRead u64 u64 | BcAlloc u64 u64 | BcRelease u64

fun bc_step :: "bc_op \<Rightarrow> 'a kbufs_scheme \<Rightarrow> 'a kbufs_scheme option" where
  "bc_step (BcRead d off) s = map_option (\<lambda>(_, _, s). s) (BufCache_Read d off s)"
| "bc_step (BcAlloc d off) s = (case BufCache_Alloc d off s of (_, _, s) \<Rightarrow> Some s)"
| "bc_step (BcRelease e) s = Some (BufCache_Release e s)"

text \<open>
  Callers name real disks, no counter is at its maximum, and a reference is only released by
  a holder; \<open>h\<close> is an entry of which somebody keeps one reference throughout.
\<close>

fun bc_ok :: "u64 set \<Rightarrow> u64 \<Rightarrow> bc_op \<Rightarrow> 'a kbufs_scheme \<Rightarrow> bool" where
  "bc_ok E h (BcRead d off) s \<longleftrightarrow> d \<noteq> 0 \<and> (\<forall>e\<in>E. be_refCount (entries s e) \<noteq> - 1)"
| "bc_ok E h (BcAlloc d off) s \<longleftrightarrow> d \<noteq> 0 \<and> (\<forall>e\<in>E. be_refCount (entries s e) \<noteq> - 1)"
| "bc_ok E h (BcRelease e) s \<longleftrightarrow> e \<in> E \<and> be_refCount (entries s e) \<noteq> 0 \<and> (e = h \<longrightarrow> be_refCount (entries s e) \<noteq> 1)"

definition bc_pinned :: "u64 set \<Rightarrow> u64 \<Rightarrow> BufCacheEntry \<Rightarrow> 'a kbufs_scheme \<Rightarrow> bool" where
  "bc_pinned E h b s \<longleftrightarrow> bc_inv E s \<and> h \<in> E \<and> be_refCount (entries s h) \<noteq> 0 \<and>
     be_disk (entries s h) = be_disk b \<and> diskOffset (entries s h) = diskOffset b \<and> buffer (entries s h) = buffer b"

lemma bc_pinned_retain:
  assumes "bc_pinned E h b s" and "e \<in> E" and "be_refCount (entries s e) \<noteq> - 1"
  shows "bc_pinned E h b (bc_retain e s)"
proof -
  have "be_refCount (entries s e) + 1 \<noteq> 0" using assms(3) by (metis add_eq_0_iff2 add.commute)
  with assms show ?thesis using bc_retain_inv [of E s e] by (auto simp: bc_pinned_def)
qed

lemma bc_pinned_assign:
  assumes "bc_pinned E h b s" and "lruList s = e # lru" and "d \<noteq> 0" and "\<And>x. x \<in> E \<Longrightarrow> \<not> caches x d off s"
  shows "bc_pinned E h b (bc_assign e lru d off s)"
proof -
  have inv: "bc_inv E s" and h: "be_refCount (entries s h) \<noteq> 0" using assms(1) by (simp_all add: bc_pinned_def)
  have "be_refCount (entries s e) = 0" using bc_invD(2) [OF inv] assms(2) by auto
  then have "e \<noteq> h" using h by auto
  with assms(1) bc_assign_inv [OF inv assms(2-4)] show ?thesis by (simp add: bc_pinned_def)
qed

lemma bc_pinned_cong:
  assumes "entries s' = entries s" "lruList s' = lruList s" "hashTable s' = hashTable s"
  shows "bc_pinned E h b s' \<longleftrightarrow> bc_pinned E h b s"
  unfolding bc_pinned_def bc_inv_cong [OF assms] assms(1) ..

lemma bc_pinned_counters [simp]:
  "bc_pinned E h b (s\<lparr>cacheHit := n\<rparr>) \<longleftrightarrow> bc_pinned E h b s"
  "bc_pinned E h b (s\<lparr>cacheMiss := n\<rparr>) \<longleftrightarrow> bc_pinned E h b s"
  "bc_pinned E h b (s\<lparr>cacheAlloc := n\<rparr>) \<longleftrightarrow> bc_pinned E h b s"
  by (rule bc_pinned_cong; simp)+

lemma bc_pinned_read:
  assumes p: "bc_pinned E h b s" and d: "d \<noteq> 0" and rc: "\<forall>e\<in>E. be_refCount (entries s e) \<noteq> - 1"
  shows "\<exists>r e s'. BufCache_Read d off s = Some (r, e, s') \<and> bc_pinned E h b s'"
proof -
  have inv: "bc_inv E s" using p by (simp add: bc_pinned_def)
  show ?thesis
  proof (cases "\<exists>e\<in>E. caches e d off s")
    case True
    then obtain e where e: "e \<in> E" "caches e d off s" by blast
    then have "bc_pinned E h b ((bc_retain e s)\<lparr>cacheHit := cacheHit s + 1\<rparr>)"
      using bc_pinned_retain [OF p e(1)] rc by simp
    with BufCache_Read_hit [OF inv d e] show ?thesis by blast
  next
    case False
    then have miss: "\<And>e. e \<in> E \<Longrightarrow> \<not> caches e d off s" by blast
    let ?sa = "s\<lparr>cacheMiss := cacheMiss s + 1\<rparr>"
    have pa: "bc_pinned E h b ?sa" using p by simp
    show ?thesis
    proof (cases "lruList s")
      case Nil
      with BufCache_Read_full [OF inv d miss] pa show ?thesis by blast
    next
      case (Cons e lru)
      obtain sga where sga: "block_sga off = Some sga" using block_sga_Some by blast
      let ?sb = "bc_assign e lru d off ?sa"
      let ?sc = "snd (Disk_Read d (buffer (entries s e)) sga ?sb)"
      have "bc_pinned E h b ?sb" using bc_pinned_assign [OF pa] Cons d miss by (simp add: caches_def)
      then have "bc_pinned E h b ?sc" using bc_pinned_cong [of ?sc ?sb E h b] by simp
      with BufCache_Read_miss [OF inv d miss Cons sga] show ?thesis by (simp add: case_prod_beta)
    qed
  qed
qed

lemma bc_pinned_alloc:
  assumes p: "bc_pinned E h b s" and d: "d \<noteq> 0" and rc: "\<forall>e\<in>E. be_refCount (entries s e) \<noteq> - 1"
    and a: "BufCache_Alloc d off s = (r, e, s')"
  shows "bc_pinned E h b s'"
proof -
  have inv: "bc_inv E s" using p by (simp add: bc_pinned_def)
  show ?thesis
  proof (cases "\<exists>e\<in>E. caches e d off s")
    case True
    then obtain e where e: "e \<in> E" "caches e d off s" by blast
    with bc_pinned_retain [OF p e(1)] rc a show ?thesis
      by (auto simp: BufCache_Alloc_def BufCacheLookup_hit [OF inv d e])
  next
    case False
    then have miss: "\<And>e. e \<in> E \<Longrightarrow> \<not> caches e d off s" by blast
    with a bc_pinned_assign [OF p _ d] p show ?thesis
      by (auto simp: BufCache_Alloc_def BufCacheLookup_miss [OF inv d miss] BufCacheAlloc_eq split: list.splits)
  qed
qed

lemma bc_pinned_release:
  assumes "bc_pinned E h b s" and "e \<in> E" and "be_refCount (entries s e) \<noteq> 0"
    and "e = h \<longrightarrow> be_refCount (entries s e) \<noteq> 1"
  shows "bc_pinned E h b (BufCache_Release e s)"
proof -
  have "bc_inv E (BufCache_Release e s)" using assms by (intro BufCache_Release_inv) (simp_all add: bc_pinned_def)
  with assms show ?thesis by (cases "e = h") (simp_all add: bc_pinned_def)
qed

interpretation bufs: step_system bc_step "bc_ok E h" "bc_pinned E h b" for E h b
proof
  fix s :: "'a kbufs_scheme" and op
  assume p: "bc_pinned E h b s" and ok: "bc_ok E h op s"
  show "\<exists>s'. bc_step op s = Some s'"
  proof (cases op)
    case (BcRead d off)
    with ok bc_pinned_read [OF p, of d off] show ?thesis by auto
  qed (auto split: prod.splits)
next
  fix s s' :: "'a kbufs_scheme" and op
  assume p: "bc_pinned E h b s" and ok: "bc_ok E h op s" and st: "bc_step op s = Some s'"
  show "bc_pinned E h b s'"
  proof (cases op)
    case (BcRead d off)
    with ok st bc_pinned_read [OF p, of d off] show ?thesis by auto
  next
    case (BcAlloc d off)
    with ok st show ?thesis by (auto split: prod.splits intro: bc_pinned_alloc [OF p])
  next
    case (BcRelease e)
    with ok st bc_pinned_release [OF p] show ?thesis by auto
  qed
qed

section \<open>Properties\<close>

text \<open>A disk in memory and a cache with two unused entries.\<close>

definition ramdisk :: Disk where
  "ramdisk = \<lparr>ctrlNo = 0, diskNo = 0, sectorSize = 512, sectorCount = 65536, diskSize = 33554432,
     dread = (\<lambda>d buf sga (p, m). (0, p, \<lambda>a. if a - buf < sg_length (sg_entries sga 0)
                then p d (sg_offset (sg_entries sga 0) + (a - buf)) else m a)),
     dwrite = (\<lambda>d buf sga (p, m). (0, p(d := \<lambda>x. if x - sg_offset (sg_entries sga 0) < sg_length (sg_entries sga 0)
                then m (buf + (x - sg_offset (sg_entries sga 0))) else p d x), m)),
     dflush = (\<lambda>d buf sga pm. (0, pm))\<rparr>"

lemma ramdisk_ok: "disk_ok ramdisk"
proof -
  have "sg_entries sga 0 = \<lparr>sg_offset = off, sg_length = of_nat BLOCKSIZE\<rparr>" if "block_sga off = Some sga" for off sga
    using that by (auto simp: block_sga_def SGArray_Append_def SGArray_Init_def SGARRAY_MAX_ENTRIES_def)
  then show ?thesis unfolding disk_ok_def ramdisk_def by (simp cong: if_cong)
qed

definition bc_entry :: "u64 \<Rightarrow> BufCacheEntry" where
  "bc_entry b = \<lparr>be_disk = 0, diskOffset = 0, be_refCount = 0, buffer = b\<rparr>"

definition kbufs_state :: "Disk \<Rightarrow> platters \<Rightarrow> 'a \<Rightarrow> 'a kbufs_scheme" where
  "kbufs_state dk p ext = vmem_state \<lparr>regions =
     (\<lambda>_. \<lparr>inUse = True, base = MEM_XMAP_BASE, maxLength = 0x8000000, xlength = 0x4000\<rparr>),
     slabList = [], ktimeLastEpoch = 0, ktimeLastTSC = 0, ticksPerSecond = 1, tsc = 0,
     bmem = (\<lambda>_. 0), platter = p, disks = (\<lambda>_. dk), diskList = [1], diskBuf = 0,
     entries = (\<lambda>e. bc_entry (0x10000 * e)), hashTable = (\<lambda>_. []), lruList = [1, 2],
     cacheHit = 0, cacheMiss = 0, cacheAlloc = 0, cacheEntrySlab = slab_example, \<dots> = ext\<rparr>"

lemma kbufs_state_simps [simp]:
  "bmem (kbufs_state dk p ext) = (\<lambda>_. 0)" "platter (kbufs_state dk p ext) = p" "disks (kbufs_state dk p ext) = (\<lambda>_. dk)"
  "entries (kbufs_state dk p ext) = (\<lambda>e. bc_entry (0x10000 * e))" "hashTable (kbufs_state dk p ext) = (\<lambda>_. [])"
  "lruList (kbufs_state dk p ext) = [1, 2]" "kbufs.more (kbufs_state dk p ext) = ext"
  "cacheHit (kbufs_state dk p ext) = 0" "cacheMiss (kbufs_state dk p ext) = 0"
  by (simp_all add: kbufs_state_def vmem_state_def)

lemma bc_entry_simps [simp]:
  "be_disk (bc_entry b) = 0" "diskOffset (bc_entry b) = 0" "be_refCount (bc_entry b) = 0" "buffer (bc_entry b) = b"
  by (simp_all add: bc_entry_def)

lemma kbufs_state_inv: "bc_inv {1, 2} (kbufs_state dk p ext)"
proof -
  have "range_of 0x10000 BLOCKSIZE \<inter> range_of 0x20000 BLOCKSIZE = {}"
  proof -
    have "False" if "x - 0x10000 < 0x4000" "x - 0x20000 < 0x4000" for x :: u64
    proof -
      have "x - 0x10000 = (x - 0x20000) + 0x10000" by simp
      moreover have "unat ((x - 0x20000) + 0x10000) = unat (x - 0x20000) + 0x10000"
        using that(2) by (subst unat_u64_add) (simp_all add: word_less_nat_alt)
      ultimately show False using that(1) by (simp add: word_less_nat_alt)
    qed
    then have "\<not> (x - 0x10000 < of_nat BLOCKSIZE \<and> x - 0x20000 < of_nat BLOCKSIZE)" for x :: u64
      by (auto simp: BLOCKSIZE_def)
    then show ?thesis unfolding block_range by blast
  qed
  then show ?thesis by (auto simp: bc_inv_def caches_def)
qed

lemma kbufs_state_coherent: "bc_coherent {1, 2} (kbufs_state dk p ext)"
  by (simp add: bc_coherent_def)

text \<open>
  C9. A read through the cache: if the invariant holds, every cached block agrees with the
  disk, the driver works and the block is cached or some entry is unreferenced, then
  \<^verbatim>\<open>BufCache_Read\<close> succeeds, its buffer holds the block of the disk, the entry is
  referenced, and the invariant and the agreement still hold.
\<close>

theorem bufcache_read_block:
  assumes "bc_inv E s" and "bc_coherent E s" and "disk \<noteq> 0" and "disk_ok (disks s disk)"
    and "\<forall>e\<in>E. be_refCount (entries s e) \<noteq> - 1"
    and "(\<exists>e\<in>E. caches e disk off s) \<or> (\<exists>e\<in>E. be_refCount (entries s e) = 0)"
  shows "\<exists>e s'. BufCache_Read disk off s = Some (0, Some e, s') \<and> e \<in> E \<and> caches e disk off s' \<and>
     be_refCount (entries s' e) \<noteq> 0 \<and>
     (\<forall>i < BLOCKSIZE. bmem s' (buffer (entries s' e) + of_nat i) = platter s disk (off + of_nat i)) \<and>
     bc_inv E s' \<and> bc_coherent E s' \<and> platter s' = platter s"
proof -
  obtain e s' where r: "BufCache_Read disk off s = Some (0, Some e, s')" "e \<in> E" "caches e disk off s'"
      "be_refCount (entries s' e) = (if caches e disk off s then be_refCount (entries s e) + 1 else 1)"
      "bc_inv E s'" "bc_coherent E s'" "platter s' = platter s"
    by (rule BufCache_Read_ok [OF assms(1-4) _ assms(6)]) (use assms(5) in blast)+
  have "be_refCount (entries s e) + 1 \<noteq> 0" using assms(5) r(2) by (metis add_eq_0_iff2 add.commute)
  moreover have "coherent e s'" using r(2,3,6) assms(3) by (auto simp: bc_coherent_def caches_def)
  then have "\<forall>i < BLOCKSIZE. bmem s' (buffer (entries s' e) + of_nat i) = platter s disk (off + of_nat i)"
    using r(3,7) by (simp add: coherent_def caches_def)
  ultimately show ?thesis using r by auto
qed

theorem bufcache_read_block_witness:
  "\<exists>e s'. BufCache_Read 1 0x8000 (kbufs_state ramdisk (\<lambda>_. ucast) ()) = Some (0, Some e, s') \<and>
     bmem s' (buffer (entries s' e) + 5) = 5"
proof -
  let ?s = "kbufs_state ramdisk (\<lambda>_. ucast) ()"
  have av: "(\<exists>e\<in>{1, 2}. caches e 1 0x8000 ?s) \<or> (\<exists>e\<in>{1, 2}. be_refCount (entries ?s e) = 0)" by auto
  obtain e s' where "BufCache_Read 1 0x8000 ?s = Some (0, Some e, s')"
      "\<forall>i < BLOCKSIZE. bmem s' (buffer (entries s' e) + of_nat i) = ucast (0x8000 + of_nat i :: u64)"
    using bufcache_read_block [OF kbufs_state_inv kbufs_state_coherent _ _ _ av] ramdisk_ok by auto
  moreover from this(2) have "bmem s' (buffer (entries s' e) + 5) = 5"
    by (auto dest: spec [of _ 5] simp: BLOCKSIZE_def)
  ultimately show ?thesis by blast
qed

text \<open>
  C14. A referenced buffer is never reassigned: under every sequence of reads, allocations and
  releases in which the references are used properly, and whatever the driver does, an entry
  of which one reference is kept stays the buffer of its block, and the invariant holds.
\<close>

theorem bufcache_pinned:
  assumes "bc_inv E s" and "h \<in> E" and "be_refCount (entries s h) \<noteq> 0" and "run_ok bc_step (bc_ok E h) ops s"
  shows "\<exists>s'. run_steps bc_step ops s = Some s' \<and> bc_inv E s' \<and> be_refCount (entries s' h) \<noteq> 0 \<and>
     be_disk (entries s' h) = be_disk (entries s h) \<and> diskOffset (entries s' h) = diskOffset (entries s h) \<and>
     buffer (entries s' h) = buffer (entries s h)"
proof -
  have "bc_pinned E h (entries s h) s" using assms(1-3) by (simp add: bc_pinned_def)
  from bufs.run_inv [OF this assms(4)] show ?thesis by (auto simp: bc_pinned_def)
qed

theorem bufcache_pinned_witness:
  "\<exists>s'. run_steps bc_step [BcAlloc 1 0x4000, BcRelease 2] (bc_retain 1 (kbufs_state ramdisk (\<lambda>_ _. 0) ())) = Some s' \<and>
     be_refCount (entries s' 1) \<noteq> 0 \<and> diskOffset (entries s' 1) = 0"
proof -
  let ?s = "bc_retain 1 (kbufs_state ramdisk (\<lambda>_ _. 0) ())"
  have inv: "bc_inv {1, 2} ?s" by (rule bc_retain_inv [OF kbufs_state_inv]) simp_all
  have "run_ok bc_step (bc_ok {1, 2} 1) [BcAlloc 1 0x4000, BcRelease 2] ?s"
    by (simp add: BufCache_Alloc_def BufCacheLookup_def BufCacheAlloc_def bc_retain_def)
  from bufcache_pinned [OF inv _ _ this] obtain s' where
      "run_steps bc_step [BcAlloc 1 0x4000, BcRelease 2] ?s = Some s'" "be_refCount (entries s' 1) \<noteq> 0"
      "diskOffset (entries s' 1) = diskOffset (entries ?s 1)"
    by (auto simp del: run_steps.simps)
  then show ?thesis by (auto simp del: run_steps.simps)
qed

text \<open>
  C35. A failed read stays in the cache: when the driver reports an error for a block that is
  not cached, \<^verbatim>\<open>BufCache_Read\<close> returns the error but leaves the entry in the hash table, so
  the next read of the block reports success with whatever the driver left in the buffer.
\<close>

theorem bufcache_failed_read_cached:
  assumes inv: "bc_inv E s" and d: "disk \<noteq> 0" and miss: "\<forall>e\<in>E. \<not> caches e disk off s"
    and lru: "lruList s = e # lru" and sga: "block_sga off = Some sga"
    and err: "dread (disks s disk) disk (buffer (entries s e)) sga (platter s, bmem s) = (r, p, m)"
  shows "\<exists>s' s''. BufCache_Read disk off s = Some (r, Some e, s') \<and>
     BufCache_Read disk off s' = Some (0, Some e, s'') \<and> bmem s'' = m"
proof -
  let ?sa = "s\<lparr>cacheMiss := cacheMiss s + 1\<rparr>"
  let ?sb = "bc_assign e lru disk off ?sa"
  let ?sc = "?sb\<lparr>platter := p, bmem := m\<rparr>"
  have m1: "\<And>x. x \<in> E \<Longrightarrow> \<not> caches x disk off s" using miss by blast
  have "Disk_Read disk (buffer (entries s e)) sga ?sb = (r, ?sc)"
    using err by (simp add: Disk_Read_def disk_call_def)
  then have r1: "BufCache_Read disk off s = Some (r, Some e, ?sc)"
    using BufCache_Read_miss [OF inv d m1 lru sga] by simp
  have "bc_inv E ?sa" using inv bc_inv_cong [of ?sa s E] by simp
  then have "bc_inv E ?sb" "e \<in> E"
    using bc_assign_inv [of E ?sa e lru disk off] lru d m1 by (simp_all add: caches_def)
  then have "bc_inv E ?sc" "e \<in> E" using bc_inv_cong [of ?sc ?sb E] by simp_all
  from BufCache_Read_hit [OF this(1) d this(2), of off]
  have "BufCache_Read disk off ?sc = Some (0, Some e, (bc_retain e ?sc)\<lparr>cacheHit := cacheHit ?sc + 1\<rparr>)"
    by (simp add: caches_def)
  with r1 show ?thesis by auto
qed

theorem bufcache_failed_read_cached_witness:
  "\<exists>s' s''. BufCache_Read 1 0 (kbufs_state (ramdisk\<lparr>dread := (\<lambda>d buf sga (p, m). (- 1, p, m))\<rparr>) (\<lambda>_ _. 7) ())
      = Some (- 1, Some 1, s') \<and> BufCache_Read 1 0 s' = Some (0, Some 1, s'') \<and> bmem s'' = (\<lambda>_. 0)"
proof -
  let ?s = "kbufs_state (ramdisk\<lparr>dread := (\<lambda>d buf sga (p, m). (- 1, p, m))\<rparr>) (\<lambda>_ _. 7) ()"
  obtain sga where sga: "block_sga 0 = Some sga" using block_sga_Some by blast
  have "\<forall>e\<in>{1, 2}. \<not> caches e 1 0 ?s" by (simp add: caches_def)
  from bufcache_failed_read_cached [OF kbufs_state_inv _ this _ sga, of 1 "[2]" "- 1" "\<lambda>_ _. 7" "\<lambda>_. 0"]
  show ?thesis by simp
qed

end
