(* ===== verification/Copy.thy ===== *)
theory Copy
  imports BufCache
begin

text \<open>
  Copying between user space and the kernel: \<^verbatim>\<open>src/sys/kern/copy.c\<close> and the two assembly
  routines of \<^verbatim>\<open>src/sys/amd64/support.S\<close> it calls.

  \<open>uaccess a\<close> says whether an access to the byte at \<open>a\<close> succeeds; otherwise it faults and
  \<^verbatim>\<open>trap_entry\<close> continues at the label that returns \<^verbatim>\<open>EFAULT\<close>.
\<close>

section \<open>State\<close>

record kuser = kbufs +
  uaccess :: "u64 \<Rightarrow> bool"

definition MEM_USERSPACE_BASE :: u64 where "MEM_USERSPACE_BASE = 0"
definition MEM_USERSPACE_LEN :: u64 where "MEM_USERSPACE_LEN = 0x0000800000000000"
definition MEM_USERSPACE_TOP :: u64 where "MEM_USERSPACE_TOP = MEM_USERSPACE_BASE + MEM_USERSPACE_LEN"

section \<open>Operations\<close>

text \<open>\<^verbatim>\<open>rep movsb\<close>: byte by byte until the counter is zero or an access faults.\<close>

primrec movsb :: "nat \<Rightarrow> u64 \<Rightarrow> u64 \<Rightarrow> 'a kuser_scheme \<Rightarrow> int \<times> 'a kuser_scheme" where
  "movsb 0 to from s = (0, s)"
| "movsb (Suc n) to from s =
     (if uaccess s from \<and> uaccess s to
      then movsb n (to + 1) (from + 1) (s\<lparr>bmem := (bmem s)(to := bmem s from)\<rparr>)
      else (EFAULT, s))"

definition copy_unsafe :: "u64 \<Rightarrow> u64 \<Rightarrow> u64 \<Rightarrow> 'a kuser_scheme \<Rightarrow> int \<times> 'a kuser_scheme" where
  "copy_unsafe to from len s = movsb (unat len) to from s"

text \<open>
  \<^verbatim>\<open>copystr_unsafe\<close> decrements the counter first and gives up when it reaches zero; \<open>n\<close> is the
  counter, which is not zero initially.
\<close>

primrec copystr :: "nat \<Rightarrow> u64 \<Rightarrow> u64 \<Rightarrow> 'a kuser_scheme \<Rightarrow> int \<times> 'a kuser_scheme" where
  "copystr 0 to from s = (ENAMETOOLONG, s)"
| "copystr (Suc n) to from s =
     (if n = 0 then (ENAMETOOLONG, s)
      else if uaccess s from \<and> uaccess s to
      then let c = bmem s from; s = s\<lparr>bmem := (bmem s)(to := c)\<rparr>
           in if c = 0 then (0, s) else copystr n (to + 1) (from + 1) s
      else (EFAULT, s))"

definition copystr_unsafe :: "u64 \<Rightarrow> u64 \<Rightarrow> u64 \<Rightarrow> 'a kuser_scheme \<Rightarrow> int \<times> 'a kuser_scheme" where
  "copystr_unsafe to from len s = copystr (unat len) to from s"

definition Copy_In :: "u64 \<Rightarrow> u64 \<Rightarrow> u64 \<Rightarrow> 'a kuser_scheme \<Rightarrow> int \<times> 'a kuser_scheme" where
  "Copy_In fromuser tokernel len s =
     (if len = 0 then (0, s)
      else if MEM_USERSPACE_TOP \<le> fromuser then (EFAULT, s)
      else if MEM_USERSPACE_TOP - fromuser < len then (EFAULT, s)
      else copy_unsafe tokernel fromuser len s)"

definition Copy_Out :: "u64 \<Rightarrow> u64 \<Rightarrow> u64 \<Rightarrow> 'a kuser_scheme \<Rightarrow> int \<times> 'a kuser_scheme" where
  "Copy_Out fromkernel touser len s =
     (if len = 0 then (0, s)
      else if MEM_USERSPACE_TOP \<le> touser then (EFAULT, s)
      else if MEM_USERSPACE_TOP - touser < len then (EFAULT, s)
      else copy_unsafe touser fromkernel len s)"

definition Copy_StrIn :: "u64 \<Rightarrow> u64 \<Rightarrow> u64 \<Rightarrow> 'a kuser_scheme \<Rightarrow> int \<times> 'a kuser_scheme" where
  "Copy_StrIn fromuser tokernel len s =
     (if len = 0 then (0, s)
      else if MEM_USERSPACE_TOP \<le> fromuser then (EFAULT, s)
      else if MEM_USERSPACE_TOP - fromuser < len then (EFAULT, s)
      else copystr_unsafe tokernel fromuser len s)"

definition Copy_StrOut :: "u64 \<Rightarrow> u64 \<Rightarrow> u64 \<Rightarrow> 'a kuser_scheme \<Rightarrow> int \<times> 'a kuser_scheme" where
  "Copy_StrOut fromkernel touser len s =
     (if len = 0 then (0, s)
      else if MEM_USERSPACE_TOP \<le> touser then (EFAULT, s)
      else if MEM_USERSPACE_TOP - touser < len then (EFAULT, s)
      else copystr_unsafe touser fromkernel len s)"

lemma movsb_ok:
  assumes "\<And>a. a \<in> range_of to n \<union> range_of from n \<Longrightarrow> uaccess s a"
  shows "movsb n to from s = (0, s\<lparr>bmem := memcpy_loop n to from (bmem s)\<rparr>)"
  using assms
proof (induction n arbitrary: to "from" s)
  case (Suc n)
  let ?s = "s\<lparr>bmem := (bmem s)(to := bmem s from)\<rparr>"
  have "uaccess s to" "uaccess s from" using Suc.prems by (auto simp: range_of_Suc)
  moreover have "movsb n (to + 1) (from + 1) ?s = (0, ?s\<lparr>bmem := memcpy_loop n (to + 1) (from + 1) (bmem ?s)\<rparr>)"
    using Suc.prems by (intro Suc.IH) (auto simp: range_of_Suc)
  ultimately show ?case by simp
qed simp

lemma movsb_frame:
  "movsb n to from s = (r, s') \<Longrightarrow>
     (r = 0 \<or> r = EFAULT) \<and> s' = s\<lparr>bmem := bmem s'\<rparr> \<and> (\<forall>a. a \<notin> range_of to n \<longrightarrow> bmem s' a = bmem s a)"
proof (induction n arbitrary: to "from" s)
  case (Suc n)
  show ?case
  proof (cases "uaccess s from \<and> uaccess s to")
    case True
    let ?s = "s\<lparr>bmem := (bmem s)(to := bmem s from)\<rparr>"
    have "movsb n (to + 1) (from + 1) ?s = (r, s')" using Suc.prems True by simp
    from Suc.IH [OF this] show ?thesis by (auto simp: range_of_Suc)
  next
    case False
    with Suc.prems show ?thesis by auto
  qed
qed simp

lemma copystr_frame:
  "copystr n to from s = (r, s') \<Longrightarrow>
     r \<in> {0, EFAULT, ENAMETOOLONG} \<and> s' = s\<lparr>bmem := bmem s'\<rparr> \<and> (\<forall>a. a \<notin> range_of to n \<longrightarrow> bmem s' a = bmem s a)"
proof (induction n arbitrary: to "from" s)
  case (Suc n)
  show ?case
  proof (cases "n \<noteq> 0 \<and> uaccess s from \<and> uaccess s to \<and> bmem s from \<noteq> 0")
    case True
    let ?s = "s\<lparr>bmem := (bmem s)(to := bmem s from)\<rparr>"
    have "copystr n (to + 1) (from + 1) ?s = (r, s')" using Suc.prems True by (simp add: Let_def)
    from Suc.IH [OF this] show ?thesis by (auto simp: range_of_Suc)
  next
    case False
    with Suc.prems show ?thesis by (auto simp: range_of_Suc Let_def split: if_splits)
  qed
qed simp

text \<open>A range that passes the checks lies below the top of user space.\<close>

lemma user_range:
  assumes "u < MEM_USERSPACE_TOP" and "len \<le> MEM_USERSPACE_TOP - u" and "a \<in> range_of u (unat len)"
  shows "a < MEM_USERSPACE_TOP" and "a - u < len"
proof -
  have "unat (a - u) < unat len"
    using assms(3) range_of_iff [of "unat len" a u] unat_u64_less [of len] by simp
  then show al: "a - u < len" by (simp add: word_less_nat_alt)
  have t: "unat (MEM_USERSPACE_TOP - u) = unat MEM_USERSPACE_TOP - unat u"
    using assms(1) by (simp add: unat_sub word_le_nat_alt word_less_nat_alt)
  have "unat (a - u) + unat u < unat MEM_USERSPACE_TOP"
    using al assms(1,2) t by (simp add: word_less_nat_alt word_le_nat_alt)
  moreover from this have "unat (a - u + u) = unat (a - u) + unat u"
    by (intro unat_u64_add) (simp add: MEM_USERSPACE_TOP_def MEM_USERSPACE_BASE_def MEM_USERSPACE_LEN_def)
  ultimately show "a < MEM_USERSPACE_TOP" by (simp add: word_less_nat_alt)
qed

lemma Copy_checked:
  assumes "len \<noteq> 0 \<and> u < MEM_USERSPACE_TOP \<and> len \<le> MEM_USERSPACE_TOP - u"
  shows "Copy_In u k len s = movsb (unat len) k u s" and "Copy_Out k u len s = movsb (unat len) u k s"
    and "Copy_StrIn u k len s = copystr (unat len) k u s" and "Copy_StrOut k u len s = copystr (unat len) u k s"
proof -
  have "\<not> MEM_USERSPACE_TOP \<le> u" "\<not> MEM_USERSPACE_TOP - u < len" using assms by (simp_all add: not_le not_less)
  with assms show "Copy_In u k len s = movsb (unat len) k u s" "Copy_Out k u len s = movsb (unat len) u k s"
    "Copy_StrIn u k len s = copystr (unat len) k u s" "Copy_StrOut k u len s = copystr (unat len) u k s"
    by (simp_all add: Copy_In_def Copy_Out_def Copy_StrIn_def Copy_StrOut_def copy_unsafe_def copystr_unsafe_def)
qed

lemma movsb_agree:
  assumes "uaccess t = uaccess s" and "\<And>a. a \<in> range_of from n \<Longrightarrow> bmem t a = bmem s a"
    and "range_of to n \<inter> range_of from n = {}" and "n \<le> 2 ^ 64"
    and "movsb n to from s = (r, s')" and "movsb n to from t = (r', t')"
  shows "r' = r \<and> (r = 0 \<longrightarrow> (\<forall>a \<in> range_of to n. bmem t' a = bmem s' a))"
  using assms
proof (induction n arbitrary: to "from" s t)
  case (Suc n)
  show ?case
  proof (cases "uaccess s from \<and> uaccess s to")
    case True
    let ?s = "s\<lparr>bmem := (bmem s)(to := bmem s from)\<rparr>" and ?t = "t\<lparr>bmem := (bmem t)(to := bmem t from)\<rparr>"
    have st: "movsb n (to + 1) (from + 1) ?s = (r, s')" "movsb n (to + 1) (from + 1) ?t = (r', t')"
      using Suc.prems(1,5,6) True by simp_all
    have f: "bmem t from = bmem s from" using Suc.prems(2) by (simp add: range_of_Suc)
    have "r' = r \<and> (r = 0 \<longrightarrow> (\<forall>a \<in> range_of (to + 1) n. bmem t' a = bmem s' a))"
      using Suc.prems by (intro Suc.IH [OF _ _ _ _ st]) (auto simp: range_of_Suc)
    moreover have "to \<notin> range_of (to + 1) n" using Suc.prems(4) by (intro range_of_next) simp
    then have "bmem s' to = bmem s from" "bmem t' to = bmem t from"
      using movsb_frame [OF st(1)] movsb_frame [OF st(2)] by simp_all
    ultimately show ?thesis using f by (auto simp: range_of_Suc)
  next
    case False
    with Suc.prems show ?thesis by (auto simp: EFAULT_def)
  qed
qed simp

section \<open>Properties\<close>

text \<open>
  C17. Confinement of writes: \<^verbatim>\<open>Copy_Out\<close> and \<^verbatim>\<open>Copy_StrOut\<close> change nothing but memory, and
  only bytes of the requested range that lie below \<^verbatim>\<open>MEM_USERSPACE_TOP\<close>, whatever address
  and length the user supplies.
\<close>

theorem copy_out_confined:
  assumes "Copy_Out k u len s = (r, s') \<or> Copy_StrOut k u len s = (r, s')"
  shows "r \<in> {0, EFAULT, ENAMETOOLONG} \<and> s' = s\<lparr>bmem := bmem s'\<rparr> \<and>
     (\<forall>a. bmem s' a \<noteq> bmem s a \<longrightarrow> a < MEM_USERSPACE_TOP \<and> a - u < len)"
proof (cases "len \<noteq> 0 \<and> u < MEM_USERSPACE_TOP \<and> len \<le> MEM_USERSPACE_TOP - u")
  case True
  then have "movsb (unat len) u k s = (r, s') \<or> copystr (unat len) u k s = (r, s')"
    using assms by (simp add: Copy_checked)
  then have f: "r \<in> {0, EFAULT, ENAMETOOLONG}" "s' = s\<lparr>bmem := bmem s'\<rparr>"
      "\<And>a. a \<notin> range_of u (unat len) \<Longrightarrow> bmem s' a = bmem s a"
    using movsb_frame [of "unat len" u k s r s'] copystr_frame [of "unat len" u k s r s'] by auto
  moreover have "a < MEM_USERSPACE_TOP \<and> a - u < len" if "bmem s' a \<noteq> bmem s a" for a
    using user_range [of u len a] True f(3) [of a] that by blast
  ultimately show ?thesis by blast
next
  case False
  then have "(r, s') = (0, s) \<or> (r, s') = (EFAULT, s)"
    using assms by (auto simp: Copy_Out_def Copy_StrOut_def not_le not_less split: if_splits)
  then show ?thesis by auto
qed

definition kuser_state :: "bytes \<Rightarrow> 'a \<Rightarrow> 'a kuser_scheme" where
  "kuser_state m ext = (kbufs_state ramdisk (\<lambda>_ _. 0) \<lparr>uaccess = (\<lambda>_. True), \<dots> = ext\<rparr>)\<lparr>bmem := m\<rparr>"

lemma kuser_state_simps [simp]: "bmem (kuser_state m ext) = m" "uaccess (kuser_state m ext) = (\<lambda>_. True)"
  by (simp_all add: kuser_state_def kbufs_state_def vmem_state_def)

theorem copy_out_confined_witness:
  "\<exists>s'. Copy_Out 0xFFFF800000000000 0x1000 2 (kuser_state (\<lambda>a. if a < MEM_USERSPACE_TOP then 0 else 7) ()) = (0, s') \<and>
     bmem s' 0x1001 = 7 \<and> bmem s' 0x1002 = 0"
proof -
  let ?s = "kuser_state (\<lambda>a. if a < MEM_USERSPACE_TOP then 0 else 7) ()"
  obtain r s' where c: "Copy_Out 0xFFFF800000000000 0x1000 2 ?s = (r, s')" by force
  have "movsb 2 a b t = (0, t\<lparr>bmem := (bmem t)(a := bmem t b, a + 1 := ((bmem t)(a := bmem t b)) (b + 1))\<rparr>)"
    if "uaccess t = (\<lambda>_. True)" for a b and t :: kuser
    using that by (simp add: numeral_2_eq_2)
  then have "r = 0" "bmem s' 0x1001 = 7" using c
    by (auto simp: Copy_Out_def copy_unsafe_def MEM_USERSPACE_TOP_def MEM_USERSPACE_BASE_def MEM_USERSPACE_LEN_def)
  moreover have "bmem s' 0x1002 \<noteq> bmem ?s 0x1002 \<longrightarrow> (0x1002 - 0x1000 :: u64) < 2"
    using copy_out_confined [OF disjI1, OF c] by blast
  then have "bmem s' 0x1002 = 0"
    by (simp add: MEM_USERSPACE_TOP_def MEM_USERSPACE_BASE_def MEM_USERSPACE_LEN_def)
  ultimately show ?thesis using c by blast
qed

text \<open>
  C18. \<^verbatim>\<open>Copy_In\<close> reveals no kernel memory: in two states with the same user memory and the same
  accessible addresses it returns the same status and, on success, delivers the same bytes to
  a kernel buffer, whatever address and length the user supplies.
\<close>

theorem copy_in_user_only:
  assumes "uaccess t = uaccess s" and "\<forall>a. a < MEM_USERSPACE_TOP \<longrightarrow> bmem t a = bmem s a"
    and "\<forall>a \<in> range_of k (unat len). MEM_USERSPACE_TOP \<le> a"
    and "Copy_In u k len s = (r, s')" and "Copy_In u k len t = (r', t')"
  shows "r' = r \<and> (r = 0 \<longrightarrow> (\<forall>a \<in> range_of k (unat len). bmem t' a = bmem s' a))"
proof (cases "len \<noteq> 0 \<and> u < MEM_USERSPACE_TOP \<and> len \<le> MEM_USERSPACE_TOP - u")
  case True
  then have m: "movsb (unat len) k u s = (r, s')" "movsb (unat len) k u t = (r', t')"
    using assms(4,5) by (simp_all add: Copy_checked)
  have u: "a < MEM_USERSPACE_TOP" if "a \<in> range_of u (unat len)" for a using user_range [of u len a] True that by blast
  have "range_of k (unat len) \<inter> range_of u (unat len) = {}" using assms(3) u by (fastforce simp: not_le)
  then show ?thesis
    using assms(2) u unat_u64_less [of len] by (intro movsb_agree [OF assms(1) _ _ _ m]) auto
next
  case False
  then have "len = 0 \<or> r = EFAULT \<and> r' = EFAULT \<and> s' = s \<and> t' = t" "len = 0 \<longrightarrow> r = 0 \<and> r' = 0"
    using assms(4,5) by (auto simp: Copy_In_def not_le not_less split: if_splits)
  then show ?thesis by (auto simp: EFAULT_def)
qed

theorem copy_in_user_only_witness:
  "\<exists>r s' t'. Copy_In 0x1000 0xFFFF800000000000 2 (kuser_state (\<lambda>_. 5) ()) = (r, s') \<and>
     Copy_In 0x1000 0xFFFF800000000000 2 (kuser_state (\<lambda>a. if a < MEM_USERSPACE_TOP then 5 else 9) ()) = (r, t')"
proof -
  let ?s = "kuser_state (\<lambda>_. 5) ()" and ?t = "kuser_state (\<lambda>a. if a < MEM_USERSPACE_TOP then 5 else 9) ()"
  obtain r s' where c: "Copy_In 0x1000 0xFFFF800000000000 2 ?s = (r, s')" by force
  obtain r' t' where d: "Copy_In 0x1000 0xFFFF800000000000 2 ?t = (r', t')" by force
  have "range_of 0xFFFF800000000000 2 = {0xFFFF800000000000, 0xFFFF800000000001}"
    using range_of_Suc [of "0xFFFF800000000000" 1] range_of_Suc [of "0xFFFF800000000001" 0] by (simp add: numeral_2_eq_2)
  then have "\<forall>a \<in> range_of 0xFFFF800000000000 (unat (2 :: u64)). MEM_USERSPACE_TOP \<le> a"
    by (simp add: MEM_USERSPACE_TOP_def MEM_USERSPACE_BASE_def MEM_USERSPACE_LEN_def)
  from copy_in_user_only [OF _ _ this c d] have "r' = r" by simp
  with c d show ?thesis by blast
qed

end
