(* ===== verification/O2FS.thy ===== *)
theory O2FS
  imports Copy
begin

text \<open>
  The file system: \<^verbatim>\<open>src/sys/fs/o2fs/o2fs.c\<close> with the on-disk layout of
  \<^verbatim>\<open>src/sys/fs/o2fs/o2fs.h\<close>, over the file system objects that \<^verbatim>\<open>src/sys/kern/vfs.c\<close>
  allocates.

  The on-disk structures live in the buffers of the cache; their fields are read and
  written at the byte offsets of the C structures, little endian.  \<^verbatim>\<open>VFS\<close> and \<^verbatim>\<open>VNode\<close>
  objects are records indexed by their address; an object fresh from the slab keeps
  whatever the address held before.  \<^verbatim>\<open>O2FSOperations\<close> is the only operation table, so the
  field \<^verbatim>\<open>op\<close> has no counterpart.  An array index out of bounds, a division by zero and the
  use of a null pointer are \<open>None\<close>.
\<close>

section \<open>State\<close>

record VFS =
  v_disk :: u64
  v_refCount :: u64
  v_fsptr :: u64
  v_fsval :: u64
  blksize :: u64
  v_root :: u64
  bitmap :: "nat \<Rightarrow> u64"

record VNode =
  vn_disk :: u64
  vn_refCount :: u64
  vn_fsptr :: u64
  vn_fsval :: u64
  vn_vfs :: u64

record kvfs = kuser +
  vfss :: "u64 \<Rightarrow> VFS"
  vnodes :: "u64 \<Rightarrow> VNode"
  vfsSlab :: slab
  vnodeSlab :: slab
  rootFS :: u64
  rootNode :: u64

definition VFS_Alloc :: "'a kvfs_scheme \<Rightarrow> (u64 option \<times> 'a kvfs_scheme) option" where
  "VFS_Alloc s = do { (p, sl, s) \<leftarrow> Slab_Alloc (vfsSlab s) s; Some (p, s\<lparr>vfsSlab := sl\<rparr>) }"

definition VNode_Alloc :: "'a kvfs_scheme \<Rightarrow> (u64 option \<times> 'a kvfs_scheme) option" where
  "VNode_Alloc s = do { (p, sl, s) \<leftarrow> Slab_Alloc (vnodeSlab s) s; Some (p, s\<lparr>vnodeSlab := sl\<rparr>) }"

definition VNode_Free :: "u64 \<Rightarrow> 'a kvfs_scheme \<Rightarrow> 'a kvfs_scheme" where
  "VNode_Free p s = s\<lparr>vnodeSlab := Slab_Free (vnodeSlab s) p\<rparr>"

section \<open>On-disk structures\<close>

definition rd16 :: "bytes \<Rightarrow> u64 \<Rightarrow> u16" where
  "rd16 m a = ucast (m a) OR push_bit 8 (ucast (m (a + 1)))"

definition rd64 :: "bytes \<Rightarrow> u64 \<Rightarrow> u64" where
  "rd64 m a = ucast (m a) OR push_bit 8 (ucast (m (a + 1))) OR push_bit 16 (ucast (m (a + 2))) OR
     push_bit 24 (ucast (m (a + 3))) OR push_bit 32 (ucast (m (a + 4))) OR push_bit 40 (ucast (m (a + 5))) OR
     push_bit 48 (ucast (m (a + 6))) OR push_bit 56 (ucast (m (a + 7)))"

definition wr64 :: "u64 \<Rightarrow> u64 \<Rightarrow> bytes \<Rightarrow> bytes" where
  "wr64 a v m = m(a := ucast v, a + 1 := ucast (drop_bit 8 v), a + 2 := ucast (drop_bit 16 v),
     a + 3 := ucast (drop_bit 24 v), a + 4 := ucast (drop_bit 32 v), a + 5 := ucast (drop_bit 40 v),
     a + 6 := ucast (drop_bit 48 v), a + 7 := ucast (drop_bit 56 v))"

text \<open>\<^verbatim>\<open>memcmp(p, MAGIC, 8) == 0\<close>.\<close>

definition magic_eq :: "bytes \<Rightarrow> u64 \<Rightarrow> u8 list \<Rightarrow> bool" where
  "magic_eq m a lit \<longleftrightarrow> map (\<lambda>i. m (a + of_nat i)) [0..<length lit] = lit"

definition SUPERBLOCK_MAGIC :: "u8 list" where "SUPERBLOCK_MAGIC = [83, 85, 80, 82, 66, 76, 79, 75]"
definition BNODE_MAGIC :: "u8 list" where "BNODE_MAGIC = [66, 76, 79, 75, 78, 79, 68, 69]"
definition BDIR_MAGIC :: "u8 list" where "BDIR_MAGIC = [68, 73, 82, 69, 78, 84, 82, 89]"
definition O2FS_VERSION_MAJOR :: u16 where "O2FS_VERSION_MAJOR = 1"
definition O2FS_VERSION_MINOR :: u16 where "O2FS_VERSION_MINOR = 0"
definition O2FS_DIRECT_PTR :: nat where "O2FS_DIRECT_PTR = 64"

text \<open>\<^verbatim>\<open>SuperBlock\<close>\<close>

definition sb_blockSize :: "bytes \<Rightarrow> u64 \<Rightarrow> u64" where "sb_blockSize m sb = rd64 m (sb + 32)"
definition sb_bitmapSize :: "bytes \<Rightarrow> u64 \<Rightarrow> u64" where "sb_bitmapSize m sb = rd64 m (sb + 40)"
definition sb_bitmapOffset :: "bytes \<Rightarrow> u64 \<Rightarrow> u64" where "sb_bitmapOffset m sb = rd64 m (sb + 48)"
definition sb_root_offset :: "bytes \<Rightarrow> u64 \<Rightarrow> u64" where "sb_root_offset m sb = rd64 m (sb + 104)"

text \<open>\<^verbatim>\<open>BNode\<close>\<close>

definition bn_size :: "bytes \<Rightarrow> u64 \<Rightarrow> u64" where "bn_size m bn = rd64 m (bn + 16)"

definition bn_direct_addr :: "u64 \<Rightarrow> u64 \<Rightarrow> u64" where "bn_direct_addr bn i = bn + 24 + 64 * i + 40"

definition bn_direct :: "bytes \<Rightarrow> u64 \<Rightarrow> u64 \<Rightarrow> u64" where "bn_direct m bn i = rd64 m (bn_direct_addr bn i)"

text \<open>\<^verbatim>\<open>BDirEntry\<close>, of 512 bytes\<close>

definition sizeof_BDirEntry :: u64 where "sizeof_BDirEntry = 512"
definition dir_objId_offset :: "bytes \<Rightarrow> u64 \<Rightarrow> u64" where "dir_objId_offset m d = rd64 m (d + 48)"
definition dir_name :: "u64 \<Rightarrow> u64" where "dir_name d = d + 256"

text \<open>The magic number and the version that both structures start with.\<close>

definition header_ok :: "bytes \<Rightarrow> u64 \<Rightarrow> u8 list \<Rightarrow> bool" where
  "header_ok m p lit \<longleftrightarrow> magic_eq m p lit \<and>
     rd16 m (p + 8) = O2FS_VERSION_MAJOR \<and> rd16 m (p + 10) = O2FS_VERSION_MINOR"

section \<open>Blocks\<close>

text \<open>The first clear bit among the next \<open>n\<close> bytes from \<open>b\<close> on.\<close>

fun find_clear :: "bytes \<Rightarrow> u64 \<Rightarrow> nat \<Rightarrow> nat \<Rightarrow> (nat \<times> nat) option" where
  "find_clear m bm b n =
     (if n = 0 then None
      else case List.find (\<lambda>bi. \<not> bit (m (bm + of_nat b)) bi) [0..<8] of
        Some bi \<Rightarrow> Some (b, bi)
      | None \<Rightarrow> find_clear m bm (Suc b) (n - 1))"

declare find_clear.simps [simp del]

text \<open>\<^verbatim>\<open>O2FSBAlloc\<close>: the loop over the bitmap blocks, \<open>n\<close> of which remain.\<close>

fun BAlloc_loop :: "u64 \<Rightarrow> nat \<Rightarrow> nat \<Rightarrow> 'a kvfs_scheme \<Rightarrow> (u64 \<times> 'a kvfs_scheme) option" where
  "BAlloc_loop fs i n s =
     (if n = 0 then Some (0, s)
      else let bentry = bitmap (vfss s fs) i in
        if bentry = 0 then Some (0, s)
        else let bm = buffer (entries s bentry) in
          case find_clear (bmem s) bm 0 (unat (blksize (vfss s fs))) of
            None \<Rightarrow> BAlloc_loop fs (Suc i) (n - 1) s
          | Some (b, bi) \<Rightarrow> do {
              let a = bm + of_nat b;
              let s = s\<lparr>bmem := (bmem s)(a := set_bit bi (bmem s a))\<rparr>;
              (r, s) \<leftarrow> BufCache_Write bentry s;
              Some (blksize (vfss s fs) * 8 * of_nat i + 8 * of_nat b + of_nat bi, s)
            })"

declare BAlloc_loop.simps [simp del]

definition O2FSBAlloc :: "u64 \<Rightarrow> 'a kvfs_scheme \<Rightarrow> (u64 \<times> 'a kvfs_scheme) option" where
  "O2FSBAlloc fs s = BAlloc_loop fs 0 16 s"

definition O2FSBFree :: "u64 \<Rightarrow> u64 \<Rightarrow> 'a kvfs_scheme \<Rightarrow> 'a kvfs_scheme option" where
  "O2FSBFree fs block s = do {
     kassert (blksize (vfss s fs) \<noteq> 0);
     let bitoff = block AND 7;
     let bytoff = drop_bit 8 block mod blksize (vfss s fs);
     kassert (blksize (vfss s fs) * 8 \<noteq> 0);
     let bufoff = block div (blksize (vfss s fs) * 8);
     kassert (unat bufoff < 16);
     let bentry = bitmap (vfss s fs) (unat bufoff);
     kassert (bentry \<noteq> 0);
     let a = buffer (entries s bentry) + bytoff;
     let s = s\<lparr>bmem := (bmem s)(a := unset_bit (unat bitoff) (bmem s a))\<rparr>;
     (r, s) \<leftarrow> BufCache_Write bentry s;
     Some s
   }"

section \<open>VNodes\<close>

definition new_vnode :: "u64 \<Rightarrow> u64 \<Rightarrow> u64 \<Rightarrow> 'a kvfs_scheme \<Rightarrow> 'a kvfs_scheme" where
  "new_vnode vn fs e s = s\<lparr>vnodes := (vnodes s)(vn :=
     (vnodes s vn)\<lparr>vn_disk := v_disk (vfss s fs), vn_refCount := 1, vn_fsptr := e, vn_vfs := fs\<rparr>)\<rparr>"

definition O2FSLoadVNode :: "u64 \<Rightarrow> u64 \<Rightarrow> 'a kvfs_scheme \<Rightarrow> (u64 option \<times> 'a kvfs_scheme) option" where
  "O2FSLoadVNode fs off s = do {
     (status, entry, s) \<leftarrow> BufCache_Read (v_disk (vfss s fs)) off s;
     if status < 0 then Some (None, s)
     else do {
       e \<leftarrow> entry;
       if \<not> header_ok (bmem s) (buffer (entries s e)) BNODE_MAGIC then Some (None, BufCache_Release e s)
       else do {
         (vn, s) \<leftarrow> VNode_Alloc s;
         case vn of None \<Rightarrow> Some (None, s) | Some v \<Rightarrow> Some (Some v, new_vnode v fs e s)
       }
     }
   }"

definition Grow_step :: "u64 \<Rightarrow> u64 \<Rightarrow> nat \<Rightarrow> bool \<times> 'a kvfs_scheme \<Rightarrow> (bool \<times> 'a kvfs_scheme) option" where
  "Grow_step vfs bn i = (\<lambda>(full, s).
     if full then Some (full, s)
     else do {
       kassert (i < O2FS_DIRECT_PTR);
       if bn_direct (bmem s) bn (of_nat i) \<noteq> 0 then Some (False, s)
       else do {
         (blkno, s) \<leftarrow> O2FSBAlloc vfs s;
         if blkno = 0 then Some (True, s)
         else Some (False, s\<lparr>bmem := wr64 (bn_direct_addr bn (of_nat i)) (blkno * blksize (vfss s vfs)) (bmem s)\<rparr>)
       }
     })"

text \<open>
  \<^verbatim>\<open>O2FSGrowVNode\<close>; the flag of \<open>Grow_step\<close> is the early return with \<^verbatim>\<open>-ENOSPC\<close>, after
  which the loop does nothing.
\<close>

definition O2FSGrowVNode :: "u64 \<Rightarrow> u64 \<Rightarrow> 'a kvfs_scheme \<Rightarrow> (int \<times> 'a kvfs_scheme) option" where
  "O2FSGrowVNode vn filesz s = do {
     let vfs = vn_vfs (vnodes s vn);
     let vnEntry = vn_fsptr (vnodes s vn);
     let bn = buffer (entries s vnEntry);
     let bs = blksize (vfss s vfs);
     kassert (bs \<noteq> 0);
     let blkstart = (bn_size (bmem s) bn + bs - 1) div bs;
     if bs * of_nat O2FS_DIRECT_PTR < filesz then Some (- EINVAL, s)
     else do {
       (full, s) \<leftarrow> for_each [unat blkstart..<unat ((filesz + bs - 1) div bs)] (Grow_step vfs bn) (False, s);
       if full then Some (- ENOSPC, s)
       else do {
         let s = s\<lparr>bmem := wr64 (bn + 16) filesz (bmem s)\<rparr>;
         (r, s) \<leftarrow> BufCache_Write vnEntry s;
         Some (0, s)
       }
     }
   }"

definition O2FSRetainVNode :: "u64 \<Rightarrow> 'a kvfs_scheme \<Rightarrow> 'a kvfs_scheme" where
  "O2FSRetainVNode vn s = s\<lparr>vnodes := (vnodes s)(vn := (vnodes s vn)\<lparr>vn_refCount := vn_refCount (vnodes s vn) + 1\<rparr>)\<rparr>"

definition O2FSReleaseVNode :: "u64 \<Rightarrow> 'a kvfs_scheme \<Rightarrow> 'a kvfs_scheme" where
  "O2FSReleaseVNode vn s =
     (let s = s\<lparr>vnodes := (vnodes s)(vn := (vnodes s vn)\<lparr>vn_refCount := vn_refCount (vnodes s vn) - 1\<rparr>)\<rparr>
      in if vn_refCount (vnodes s vn) = 0
         then VNode_Free vn (BufCache_Release (vn_fsptr (vnodes s vn)) s) else s)"

definition O2FSResolveBuf :: "u64 \<Rightarrow> u64 \<Rightarrow> 'a kvfs_scheme \<Rightarrow> (int \<times> u64 option \<times> 'a kvfs_scheme) option" where
  "O2FSResolveBuf vn b s = do {
     let bn = buffer (entries s (vn_fsptr (vnodes s vn)));
     kassert (unat b < O2FS_DIRECT_PTR);
     BufCache_Read (vn_disk (vnodes s vn)) (bn_direct (bmem s) bn b) s
   }"

text \<open>\<^verbatim>\<open>O2FS_GetRoot\<close>: the status and \<^verbatim>\<open>*dn\<close> if it is assigned.\<close>

definition O2FS_GetRoot :: "u64 \<Rightarrow> 'a kvfs_scheme \<Rightarrow> (int \<times> u64 option \<times> 'a kvfs_scheme) option" where
  "O2FS_GetRoot fs s =
     (if v_root (vfss s fs) \<noteq> 0
      then Some (0, Some (v_root (vfss s fs)), O2FSRetainVNode (v_root (vfss s fs)) s)
      else do {
        (status, entry, s) \<leftarrow> BufCache_Read (v_disk (vfss s fs)) (v_fsval (vfss s fs)) s;
        if status < 0 then Some (status, None, s)
        else do {
          e \<leftarrow> entry;
          if \<not> header_ok (bmem s) (buffer (entries s e)) BNODE_MAGIC then Some (- 1, None, BufCache_Release e s)
          else do {
            (vn, s) \<leftarrow> VNode_Alloc s;
            v \<leftarrow> vn;
            Some (0, Some v, new_vnode v fs e s)
          }
        }
      })"

section \<open>Mounting\<close>

text \<open>
  The loop that reads the bitmap.  The flag is the early return after a failed read, which
  releases all 16 slots of \<^verbatim>\<open>fs->bitmap\<close>, set or not.
\<close>

definition Mount_bitmap :: "u64 \<Rightarrow> u64 \<Rightarrow> u64 \<Rightarrow> nat \<Rightarrow> bool \<times> 'a kvfs_scheme \<Rightarrow> (bool \<times> 'a kvfs_scheme) option" where
  "Mount_bitmap disk fs sb i = (\<lambda>(failed, s).
     if failed then Some (failed, s)
     else do {
       kassert (i < 16);
       let off = sb_bitmapOffset (bmem s) sb + of_nat i * sb_blockSize (bmem s) sb;
       (status, bentry, s) \<leftarrow> BufCache_Read disk off s;
       if status < 0 then do {
         s \<leftarrow> for_each [0..<16] (\<lambda>j s. do {
                kassert (bitmap (vfss s fs) j \<noteq> 0);
                Some (BufCache_Release (bitmap (vfss s fs) j) s)
              }) s;
         Some (True, s)
       } else Some (False, s\<lparr>vfss := (vfss s)(fs := (vfss s fs)\<lparr>bitmap :=
              (bitmap (vfss s fs))(i := (case bentry of None \<Rightarrow> 0 | Some b \<Rightarrow> b))\<rparr>)\<rparr>)
     })"

definition O2FS_Mount :: "u64 \<Rightarrow> 'a kvfs_scheme \<Rightarrow> (u64 option \<times> 'a kvfs_scheme) option" where
  "O2FS_Mount disk s = do {
     (fs, s) \<leftarrow> VFS_Alloc s;
     kassert (sizeof_BDirEntry = 512);
     case fs of None \<Rightarrow> Some (None, s)
     | Some fs \<Rightarrow> do {
         (status, entry, s) \<leftarrow> BufCache_Read disk 0 s;
         if status < 0 then Some (None, s)
         else do {
           e \<leftarrow> entry;
           let sb = buffer (entries s e);
           if \<not> header_ok (bmem s) sb SUPERBLOCK_MAGIC then Some (None, BufCache_Release e s)
           else do {
             (failed, s) \<leftarrow> for_each [0..<unat (sb_bitmapSize (bmem s) sb)] (Mount_bitmap disk fs sb) (False, s);
             if failed then Some (None, BufCache_Release e s)
             else do {
               let s = s\<lparr>vfss := (vfss s)(fs := (vfss s fs)\<lparr>v_fsptr := e, v_fsval := sb_root_offset (bmem s) sb,
                          blksize := sb_blockSize (bmem s) sb, v_disk := disk, v_refCount := 1, v_root := 0\<rparr>)\<rparr>;
               (status, dn, s) \<leftarrow> O2FS_GetRoot fs s;
               let s = (case dn of None \<Rightarrow> s
                        | Some r \<Rightarrow> s\<lparr>vfss := (vfss s)(fs := (vfss s fs)\<lparr>v_root := r\<rparr>)\<rparr>);
               if status < 0 then Some (None, BufCache_Release e s)
               else Some (Some fs, s)
             }
           }
         }
       }
   }"

text \<open>\<^verbatim>\<open>O2FS_Unmount\<close> is \<^verbatim>\<open>NOT_IMPLEMENTED()\<close>, which stops the machine.\<close>

definition O2FS_Unmount :: "u64 \<Rightarrow> 'a kvfs_scheme \<Rightarrow> (int \<times> 'a kvfs_scheme) option" where
  "O2FS_Unmount fs s = None"

section \<open>Directories and files\<close>

text \<open>
  \<^verbatim>\<open>strcmp(magic, BDIR_MAGIC) == 0\<close> also requires the byte after the magic number to be zero.
\<close>

definition dir_match :: "bytes \<Rightarrow> u8 list \<Rightarrow> u64 \<Rightarrow> bool" where
  "dir_match m name d \<longleftrightarrow> cstr m d BDIR_MAGIC \<and> cstr m (dir_name d) name"

text \<open>The address of the superblock and of the \<^verbatim>\<open>BNode\<close> of a VNode.\<close>

definition vn_sb :: "u64 \<Rightarrow> 'a kvfs_scheme \<Rightarrow> u64" where
  "vn_sb vn s = buffer (entries s (v_fsptr (vfss s (vn_vfs (vnodes s vn)))))"

definition vn_bn :: "u64 \<Rightarrow> 'a kvfs_scheme \<Rightarrow> u64" where
  "vn_bn vn s = buffer (entries s (vn_fsptr (vnodes s vn)))"

text \<open>
  The loop over the blocks of a directory, \<open>n\<close> of which remain.  The result is the status
  and \<^verbatim>\<open>*fn\<close> if it is assigned.
\<close>

fun Lookup_loop :: "u64 \<Rightarrow> u8 list \<Rightarrow> nat \<Rightarrow> nat \<Rightarrow> 'a kvfs_scheme \<Rightarrow> (int \<times> u64 option \<times> 'a kvfs_scheme) option" where
  "Lookup_loop dn name b n s =
     (if n = 0 then Some (- 1, None, s)
      else do {
        (status, entry, s) \<leftarrow> O2FSResolveBuf dn (of_nat b) s;
        if status \<noteq> 0 then Some (status, None, s)
        else do {
          e \<leftarrow> entry;
          let epb = unat (sb_blockSize (bmem s) (vn_sb dn s) div sizeof_BDirEntry);
          let dir = (\<lambda>i. buffer (entries s e) + of_nat i * sizeof_BDirEntry);
          case List.find (\<lambda>i. dir_match (bmem s) name (dir i)) [0..<epb] of
            Some i \<Rightarrow> do {
              (vn, s) \<leftarrow> O2FSLoadVNode (vn_vfs (vnodes s dn)) (dir_objId_offset (bmem s) (dir i)) s;
              Some (0, vn, s)
            }
          | None \<Rightarrow> Lookup_loop dn name (Suc b) (n - 1) (BufCache_Release e s)
        }
      })"

declare Lookup_loop.simps [simp del]

definition O2FS_Lookup :: "u64 \<Rightarrow> u8 list \<Rightarrow> 'a kvfs_scheme \<Rightarrow> (int \<times> u64 option \<times> 'a kvfs_scheme) option" where
  "O2FS_Lookup dn name s = do {
     let bs = sb_blockSize (bmem s) (vn_sb dn s);
     kassert (bs \<noteq> 0);
     Lookup_loop dn name 0 (unat ((bn_size (bmem s) (vn_bn dn s) + bs - 1) div bs)) s
   }"

definition O2FS_Open :: "u64 \<Rightarrow> 'a kvfs_scheme \<Rightarrow> int" where "O2FS_Open fn s = 0"

definition O2FS_Close :: "u64 \<Rightarrow> 'a kvfs_scheme \<Rightarrow> int" where "O2FS_Close fn s = 0"

record stat =
  st_ino :: u64
  st_size :: u64
  st_blocks :: u64
  st_blksize :: u64

definition O2FS_Stat :: "u64 \<Rightarrow> 'a kvfs_scheme \<Rightarrow> (int \<times> stat) option" where
  "O2FS_Stat fn s = do {
     let bs = sb_blockSize (bmem s) (vn_sb fn s);
     let sz = bn_size (bmem s) (vn_bn fn s);
     kassert (bs \<noteq> 0);
     Some (0, \<lparr>st_ino = diskOffset (entries s (vn_fsptr (vnodes s fn))), st_size = sz,
               st_blocks = (sz + bs - 1) div bs, st_blksize = bs\<rparr>)
   }"

text \<open>
  The loops of \<^verbatim>\<open>O2FS_Read\<close> and \<^verbatim>\<open>O2FS_Write\<close>.  Both take the part of the request that lies
  in the block of \<^verbatim>\<open>off\<close>.
\<close>

definition chunk :: "u64 \<Rightarrow> u64 \<Rightarrow> u64 \<Rightarrow> u64" where
  "chunk bs off len = (if bs < off mod bs + len then bs - off mod bs else len)"

partial_function (option) Read_loop ::
  "u64 \<Rightarrow> u64 \<Rightarrow> u64 \<Rightarrow> u64 \<Rightarrow> u64 \<Rightarrow> 'a kvfs_scheme \<Rightarrow> (int \<times> 'a kvfs_scheme) option" where
  "Read_loop fn buf off len readBytes s =
     (let bs = sb_blockSize (bmem s) (vn_sb fn s); bLen = chunk bs off len in
      Option.bind (O2FSResolveBuf fn (off div bs) s) (\<lambda>(status, entry, s).
        if status \<noteq> 0 then Some (status, s)
        else Option.bind entry (\<lambda>e.
          let s = s\<lparr>bmem := memcpy buf (buffer (entries s e) + off mod bs) bLen (bmem s)\<rparr>;
              s = BufCache_Release e s
          in if len - bLen = 0 then Some (int_of_u64 (readBytes + bLen), s)
             else Read_loop fn (buf + bLen) (off + bLen) (len - bLen) (readBytes + bLen) s)))"

definition O2FS_Read :: "u64 \<Rightarrow> u64 \<Rightarrow> u64 \<Rightarrow> u64 \<Rightarrow> 'a kvfs_scheme \<Rightarrow> (int \<times> 'a kvfs_scheme) option" where
  "O2FS_Read fn buf off len s = do {
     kassert (sb_blockSize (bmem s) (vn_sb fn s) \<noteq> 0);
     let sz = bn_size (bmem s) (vn_bn fn s);
     if sz < off then Some (0, s)
     else Read_loop fn buf off (if sz < off + len then sz - off else len) 0 s
   }"

partial_function (option) Write_loop ::
  "u64 \<Rightarrow> u64 \<Rightarrow> u64 \<Rightarrow> u64 \<Rightarrow> u64 \<Rightarrow> 'a kvfs_scheme \<Rightarrow> (int \<times> 'a kvfs_scheme) option" where
  "Write_loop fn buf off len readBytes s =
     (let bs = sb_blockSize (bmem s) (vn_sb fn s); bLen = chunk bs off len in
      Option.bind (O2FSResolveBuf fn (off div bs) s) (\<lambda>(status, entry, s).
        if status \<noteq> 0 then Some (status, s)
        else Option.bind entry (\<lambda>e.
          let s = s\<lparr>bmem := memcpy (buffer (entries s e) + off mod bs) buf bLen (bmem s)\<rparr> in
          Option.bind (BufCache_Write e s) (\<lambda>(r, s).
            let s = BufCache_Release e s
            in if len - bLen = 0 then Some (int_of_u64 (readBytes + bLen), s)
               else Write_loop fn (buf + bLen) (off + bLen) (len - bLen) (readBytes + bLen) s))))"

definition O2FS_Write :: "u64 \<Rightarrow> u64 \<Rightarrow> u64 \<Rightarrow> u64 \<Rightarrow> 'a kvfs_scheme \<Rightarrow> (int \<times> 'a kvfs_scheme) option" where
  "O2FS_Write fn buf off len s = do {
     kassert (sb_blockSize (bmem s) (vn_sb fn s) \<noteq> 0);
     (status, s) \<leftarrow> (if bn_size (bmem s) (vn_bn fn s) < off + len then O2FSGrowVNode fn (off + len) s else Some (0, s));
     if status < 0 then Some (status, s) else Write_loop fn buf off len 0 s
   }"

text \<open>
  \<^verbatim>\<open>O2FS_ReadDir\<close>; \<open>dent\<close> and \<open>de\<close> are the stack addresses of its two local structures.  The
  result is the status and the new \<^verbatim>\<open>*off\<close>.
\<close>

definition sizeof_dirent :: u64 where "sizeof_dirent = 272"

partial_function (option) ReadDir_loop ::
  "u64 \<Rightarrow> u64 \<Rightarrow> u64 \<Rightarrow> u64 \<Rightarrow> u64 \<Rightarrow> u64 \<Rightarrow> int \<Rightarrow> 'a kvfs_scheme \<Rightarrow> (int \<times> u64 \<times> 'a kvfs_scheme) option" where
  "ReadDir_loop dent de fn buf len off count s =
     (if len < sizeof_dirent then Some (count, off, s)
      else if off = bn_size (bmem s) (vn_bn fn s) then Some (count, off, s)
      else if bn_size (bmem s) (vn_bn fn s) < off then Some (- EINVAL, off, s)
      else Option.bind (O2FS_Read fn dent off sizeof_BDirEntry s) (\<lambda>(status, s).
        if status \<noteq> 512 then Some (- ENOTDIR, off, s)
        else if \<not> magic_eq (bmem s) dent BDIR_MAGIC then Some (- ENOTDIR, off, s)
        else Option.bind (strcpy (de + 12) (dir_name dent) (bmem s)) (\<lambda>m.
          let (status, s) = Copy_Out de buf sizeof_dirent (s\<lparr>bmem := m\<rparr>) in
          if status \<noteq> 0 then Some (status, off, s)
          else ReadDir_loop dent de fn (buf + sizeof_dirent) (len - sizeof_dirent) (off + sizeof_BDirEntry) (count + 1) s)))"

definition O2FS_ReadDir ::
  "u64 \<Rightarrow> u64 \<Rightarrow> u64 \<Rightarrow> u64 \<Rightarrow> u64 \<Rightarrow> u64 \<Rightarrow> 'a kvfs_scheme \<Rightarrow> (int \<times> u64 \<times> 'a kvfs_scheme) option" where
  "O2FS_ReadDir dent de fn buf len off s = ReadDir_loop dent de fn buf len off 0 s"

section \<open>Reading fields\<close>

lemma rd64_cong: "(\<And>j. j < 8 \<Longrightarrow> m' (a + of_nat j) = m (a + of_nat j)) \<Longrightarrow> rd64 m' a = rd64 m a"
proof -
  assume e: "\<And>j. j < 8 \<Longrightarrow> m' (a + of_nat j) = m (a + of_nat j)"
  show ?thesis
    using e [of 0] e [of 1] e [of 2] e [of 3] e [of 4] e [of 5] e [of 6] e [of 7] by (simp add: rd64_def)
qed

lemma block_mem: "n < 16384 \<Longrightarrow> b + of_nat n \<in> range_of b BLOCKSIZE"
  by (rule range_of_mem) (simp add: BLOCKSIZE_def)

lemma rd64_block_cong:
  assumes "\<And>a. a \<in> range_of b BLOCKSIZE \<Longrightarrow> m' a = m a" and "n + 8 \<le> 16384"
  shows "rd64 m' (b + of_nat n) = rd64 m (b + of_nat n)"
proof (rule rd64_cong)
  fix j :: nat
  assume "j < 8"
  then have "b + of_nat (n + j) \<in> range_of b BLOCKSIZE" using assms(2) by (intro block_mem) simp
  with assms(1) show "m' (b + of_nat n + of_nat j) = m (b + of_nat n + of_nat j)" by (simp add: add.assoc)
qed

lemma fields_cong:
  assumes "\<And>a. a \<in> range_of b BLOCKSIZE \<Longrightarrow> m' a = m a"
  shows "sb_blockSize m' b = sb_blockSize m b" and "bn_size m' b = bn_size m b"
    and "i < 64 \<Longrightarrow> bn_direct m' b (of_nat i) = bn_direct m b (of_nat i)"
proof -
  show "sb_blockSize m' b = sb_blockSize m b"
    using rd64_block_cong [where n = 32, OF assms] by (simp add: sb_blockSize_def)
  show "bn_size m' b = bn_size m b"
    using rd64_block_cong [where n = 16, OF assms] by (simp add: bn_size_def)
  show "bn_direct m' b (of_nat i) = bn_direct m b (of_nat i)" if "i < 64"
    using rd64_block_cong [where n = "24 + 64 * i + 40", OF assms] that
    by (simp add: bn_direct_def bn_direct_addr_def add.assoc)
qed

lemma kvfs_more:
  fixes s t :: "'a kvfs_scheme"
  assumes "kbufs.more s = kbufs.more t"
  shows "vnodes s = vnodes t" "vfss s = vfss t" "uaccess s = uaccess t"
  using assms by (cases s, cases t, simp)+

section \<open>Open files\<close>

text \<open>
  A file whose superblock and block node are in referenced buffers of a consistent cache, on
  a working disk, with blocks of the size of the buffers; some entry is unreferenced, and no
  reference counter is at its maximum.
\<close>

definition file_ok :: "u64 set \<Rightarrow> u64 \<Rightarrow> 'a kvfs_scheme \<Rightarrow> bool" where
  "file_ok E fn s \<longleftrightarrow>
     bc_inv E s \<and> bc_coherent E s \<and> (\<forall>e\<in>E. be_refCount (entries s e) \<noteq> - 1) \<and>
     (\<exists>e\<in>E. be_refCount (entries s e) = 0) \<and>
     vn_fsptr (vnodes s fn) \<in> E \<and> be_refCount (entries s (vn_fsptr (vnodes s fn))) \<noteq> 0 \<and>
     v_fsptr (vfss s (vn_vfs (vnodes s fn))) \<in> E \<and>
     be_refCount (entries s (v_fsptr (vfss s (vn_vfs (vnodes s fn))))) \<noteq> 0 \<and>
     vn_disk (vnodes s fn) \<noteq> 0 \<and> disk_ok (disks s (vn_disk (vnodes s fn))) \<and>
     sb_blockSize (bmem s) (vn_sb fn s) = of_nat BLOCKSIZE"

text \<open>The memory that holds no buffer of the cache.\<close>

definition outside :: "u64 set \<Rightarrow> 'a kbufs_scheme \<Rightarrow> u64 set" where
  "outside E s = {a. \<forall>e\<in>E. a \<notin> range_of (buffer (entries s e)) BLOCKSIZE}"

text \<open>The disk offset of block \<open>i\<close> of a file, and its bytes.\<close>

definition file_block :: "u64 \<Rightarrow> 'a kvfs_scheme \<Rightarrow> nat \<Rightarrow> u64" where
  "file_block fn s i = bn_direct (bmem s) (vn_bn fn s) (of_nat i)"

definition file_byte :: "u64 \<Rightarrow> 'a kvfs_scheme \<Rightarrow> nat \<Rightarrow> u8" where
  "file_byte fn s j = platter s (vn_disk (vnodes s fn)) (file_block fn s (j div BLOCKSIZE) + of_nat (j mod BLOCKSIZE))"

definition file_size :: "u64 \<Rightarrow> 'a kvfs_scheme \<Rightarrow> nat" where
  "file_size fn s = unat (bn_size (bmem s) (vn_bn fn s))"

text \<open>Two states in which a file is the same.\<close>

definition same_file :: "u64 set \<Rightarrow> u64 \<Rightarrow> 'a kvfs_scheme \<Rightarrow> 'a kvfs_scheme \<Rightarrow> bool" where
  "same_file E fn s s' \<longleftrightarrow>
     vnodes s' = vnodes s \<and> vfss s' = vfss s \<and> platter s' = platter s \<and> disks s' = disks s \<and>
     (\<forall>e. buffer (entries s' e) = buffer (entries s e)) \<and>
     (\<forall>i < 64. file_block fn s' i = file_block fn s i) \<and> file_size fn s' = file_size fn s"

lemma same_fileD:
  assumes "same_file E fn s s'"
  shows "outside E s' = outside E s" and "vn_disk (vnodes s' fn) = vn_disk (vnodes s fn)"
    and "j < 64 * BLOCKSIZE \<Longrightarrow> file_byte fn s' j = file_byte fn s j" and "file_size fn s' = file_size fn s"
proof -
  note D = assms [unfolded same_file_def]
  show "outside E s' = outside E s" using D by (simp add: outside_def)
  show "vn_disk (vnodes s' fn) = vn_disk (vnodes s fn)" using D by simp
  show "file_byte fn s' j = file_byte fn s j" if "j < 64 * BLOCKSIZE"
  proof -
    have "j div BLOCKSIZE < 64" using that by (simp add: less_mult_imp_div_less mult.commute)
    with D show ?thesis by (simp add: file_byte_def)
  qed
  show "file_size fn s' = file_size fn s" using D by blast
qed

lemma same_file_trans: "same_file E fn s t \<Longrightarrow> same_file E fn t u \<Longrightarrow> same_file E fn s u"
  by (simp add: same_file_def)

lemma file_okD:
  assumes "file_ok E fn s"
  shows "bc_inv E s" "bc_coherent E s" "e \<in> E \<Longrightarrow> be_refCount (entries s e) \<noteq> - 1"
    "\<exists>e\<in>E. be_refCount (entries s e) = 0"
    "vn_fsptr (vnodes s fn) \<in> E" "be_refCount (entries s (vn_fsptr (vnodes s fn))) \<noteq> 0"
    "v_fsptr (vfss s (vn_vfs (vnodes s fn))) \<in> E"
    "be_refCount (entries s (v_fsptr (vfss s (vn_vfs (vnodes s fn))))) \<noteq> 0"
    "vn_disk (vnodes s fn) \<noteq> 0" "disk_ok (disks s (vn_disk (vnodes s fn)))"
    "sb_blockSize (bmem s) (vn_sb fn s) = of_nat BLOCKSIZE"
  using assms by (simp_all add: file_ok_def)

text \<open>A referenced buffer keeps its bytes while the cache works on other entries.\<close>

lemma pinned_bytes:
  assumes "bc_inv E s" and "bc_frame E s s'" and "e \<in> E" and "be_refCount (entries s e) \<noteq> 0"
    and "a \<in> range_of (buffer (entries s e)) BLOCKSIZE"
  shows "bmem s' a = bmem s a"
proof -
  have "a \<notin> range_of (buffer (entries s x)) BLOCKSIZE" if "x \<in> E" "be_refCount (entries s x) = 0" for x
  proof -
    have "x \<noteq> e" using that(2) assms(4) by auto
    with bc_invD(6) [OF assms(1) that(1) assms(3)] assms(5) show ?thesis by blast
  qed
  with assms(2) show ?thesis by (simp add: bc_frame_def)
qed

lemma outside_bytes: "bc_frame E s s' \<Longrightarrow> a \<in> outside E s \<Longrightarrow> bmem s' a = bmem s a"
  by (simp add: bc_frame_def outside_def)

lemma coherent_read:
  assumes "bc_coherent E s" and "e \<in> E" and "caches e d off s" and "d \<noteq> 0" and "i < BLOCKSIZE"
  shows "bmem s (buffer (entries s e) + of_nat i) = platter s d (off + of_nat i)"
  using assms by (auto simp: bc_coherent_def coherent_def caches_def)

text \<open>
  The steps of one iteration that leave the file alone: the block is read through the cache,
  some memory outside of the buffers is written, and the block is released.
\<close>

lemma resolve_release:
  assumes ok: "file_ok E fn s" and b: "b < 64"
  obtains e s1 where "O2FSResolveBuf fn (of_nat b) s = Some (0, Some e, s1)" and "e \<in> E"
    and "caches e (vn_disk (vnodes s fn)) (file_block fn s b) s1" and "bc_coherent E s1"
    and "bc_inv E s1" and "be_refCount (entries s1 e) \<noteq> 0" and "bc_frame E s s1" and "platter s1 = platter s"
    and "\<And>x. be_refCount (entries (BufCache_Release e s1) x) = be_refCount (entries s x)"
proof -
  note D = file_okD [OF ok]
  let ?d = "vn_disk (vnodes s fn)" and ?off = "file_block fn s b"
  obtain e s1 where r: "BufCache_Read ?d ?off s = Some (0, Some e, s1)" "e \<in> E" "caches e ?d ?off s1"
      "be_refCount (entries s1 e) = (if caches e ?d ?off s then be_refCount (entries s e) + 1 else 1)"
      "\<not> caches e ?d ?off s \<Longrightarrow> be_refCount (entries s e) = 0" "\<And>x. x \<noteq> e \<Longrightarrow> entries s1 x = entries s x"
      "bc_inv E s1" "bc_coherent E s1" "platter s1 = platter s" "bc_frame E s s1"
    by (rule BufCache_Read_ok [OF D(1,2,9,10), of ?off]) (use D(3,4) in blast)+
  have "unat (of_nat b :: u64) = b" using b by (simp add: unsigned_of_nat take_bit_eq_mod)
  then have "O2FSResolveBuf fn (of_nat b) s = Some (0, Some e, s1)"
    using r(1) b by (simp add: O2FSResolveBuf_def file_block_def vn_bn_def O2FS_DIRECT_PTR_def)
  moreover have "be_refCount (entries s1 e) \<noteq> 0"
    using r(4) D(3) [OF r(2)] by (auto simp: add_eq_0_iff2)
  moreover have "be_refCount (entries (BufCache_Release e s1) x) = be_refCount (entries s x)" for x
    using r(4,5,6) by (cases "x = e") auto
  ultimately show thesis using that r by blast
qed

lemma resolve_file_ok:
  assumes ok: "file_ok E fn s" and fr: "bc_frame E s s1" and e: "e \<in> E" and inv: "bc_inv E s1"
    and coh: "bc_coherent E s1" and rc: "be_refCount (entries s1 e) \<noteq> 0" and pl: "platter s1 = platter s"
    and same: "\<And>x. be_refCount (entries (BufCache_Release e s1) x) = be_refCount (entries s x)"
    and m: "\<And>a. a \<notin> outside E s \<Longrightarrow> m a = bmem s1 a"
  shows "file_ok E fn (BufCache_Release e (s1\<lparr>bmem := m\<rparr>))" and "same_file E fn s (BufCache_Release e (s1\<lparr>bmem := m\<rparr>))"
proof -
  note D = file_okD [OF ok]
  let ?s2 = "s1\<lparr>bmem := m\<rparr>"
  let ?s3 = "BufCache_Release e ?s2"
  have fr': "disks s1 = disks s" "\<And>x. buffer (entries s1 x) = buffer (entries s x)"
    "kbufs.more s1 = kbufs.more s" using fr by (simp_all add: bc_frame_def)
  have "kbufs.more ?s3 = kbufs.more s" using fr'(3) by simp
  note mo = kvfs_more [OF this]
  have buf: "buffer (entries ?s3 x) = buffer (entries s x)" for x using fr'(2) by simp
  have bm: "bmem ?s3 a = bmem s a" if "x \<in> E" "be_refCount (entries s x) \<noteq> 0" "a \<in> range_of (buffer (entries s x)) BLOCKSIZE" for x a
  proof -
    have "a \<notin> outside E s" using that(1,3) by (auto simp: outside_def)
    with m pinned_bytes [OF D(1) fr that] show ?thesis by simp
  qed
  have sb: "vn_sb fn ?s3 = vn_sb fn s" and bn: "vn_bn fn ?s3 = vn_bn fn s"
    unfolding vn_sb_def vn_bn_def mo by (rule buf)+
  have sbb: "bmem ?s3 a = bmem s a" if "a \<in> range_of (vn_sb fn s) BLOCKSIZE" for a
    using bm [OF D(7,8)] that by (simp only: vn_sb_def)
  have bnb: "bmem ?s3 a = bmem s a" if "a \<in> range_of (vn_bn fn s) BLOCKSIZE" for a
    using bm [OF D(5,6)] that by (simp only: vn_bn_def)
  have rcx: "be_refCount (entries ?s3 x) = be_refCount (entries s x)" for x using same [of x] by simp
  have "bc_inv E ?s2" using inv bc_inv_cong [of ?s2 s1 E] by simp
  then have i3: "bc_inv E ?s3" by (rule BufCache_Release_inv) (use e rc in simp_all)
  have c3: "bc_coherent E ?s3"
    unfolding bc_coherent_def
  proof (intro ballI impI)
    fix x
    assume x: "x \<in> E" "be_disk (entries ?s3 x) \<noteq> 0"
    then have "coherent x s1" using coh by (cases "x = e") (simp_all add: bc_coherent_def)
    moreover have "buffer (entries s1 x) + of_nat i \<notin> outside E s" if "i < BLOCKSIZE" for i
      using range_of_mem [OF that, of "buffer (entries s x)"] x(1) by (auto simp: outside_def fr'(2))
    ultimately show "coherent x ?s3" using m by (auto simp: coherent_def)
  qed
  show "file_ok E fn ?s3"
    unfolding file_ok_def mo rcx sb
    using D(3-9) i3 c3 D(10) fr'(1) fields_cong(1) [OF sbb] D(11) by simp
  have "file_block fn ?s3 i = file_block fn s i" if "i < 64" for i
    unfolding file_block_def bn using fields_cong(3) [OF bnb that] by simp
  moreover have "file_size fn ?s3 = file_size fn s" unfolding file_size_def bn using fields_cong(2) [OF bnb] by simp
  ultimately show "same_file E fn s ?s3"
    unfolding same_file_def mo using buf fr'(1) pl by simp
qed

lemma u64_BLOCKSIZE: "unat (of_nat BLOCKSIZE :: u64) = 16384" "(of_nat BLOCKSIZE :: u64) = 16384"
  by (simp_all add: BLOCKSIZE_def)

text \<open>The part of a request in the block of its offset, as a number.\<close>

lemma chunk_unat:
  assumes "unat off + unat len < 2 ^ 63"
  shows "unat (chunk 16384 off len) = min (16384 - unat off mod 16384) (unat len)"
    and "unat (off mod 16384 :: u64) = unat off mod 16384" and "off div 16384 = (of_nat (unat off div 16384) :: u64)"
proof -
  show m: "unat (off mod 16384 :: u64) = unat off mod 16384" by (simp add: unat_mod)
  show "off div 16384 = (of_nat (unat off div 16384) :: u64)"
    using u64_of_nat_unat [of "off div 16384"] by (simp add: unat_div)
  have l: "unat off mod 16384 < 16384" by simp
  have a: "unat (off mod 16384 + len) = unat off mod 16384 + unat len"
    using assms l m by (subst unat_u64_add) simp_all
  have s: "unat (16384 - off mod 16384 :: u64) = 16384 - unat off mod 16384"
    using l m by (subst unat_sub) (simp_all add: word_le_nat_alt)
  show "unat (chunk 16384 off len) = min (16384 - unat off mod 16384) (unat len)"
    using a s by (auto simp: chunk_def word_less_nat_alt min_def)
qed

lemma within_block:
  fixes x n i :: nat
  assumes "x mod n + i < n"
  shows "(x + i) div n = x div n" and "(x + i) mod n = x mod n + i"
proof -
  have "x + i = (x mod n + i) + x div n * n" by simp
  moreover have "((x mod n + i) + x div n * n) div n = x div n"
    using assms by (subst div_mult_self1) auto
  moreover have "((x mod n + i) + x div n * n) mod n = x mod n + i"
    using assms by (subst mod_mult_self1) auto
  ultimately show "(x + i) div n = x div n" "(x + i) mod n = x mod n + i" by metis+
qed

text \<open>One iteration of the read loop, up to the release of the block.\<close>

lemma read_chunk:
  fixes s :: "'a kvfs_scheme"
  assumes ok: "file_ok E fn s" and o: "unat off < 64 * 16384" and k: "unat off mod 16384 + unat k \<le> 16384"
    and buf: "range_of buf (unat k) \<subseteq> outside E s"
  obtains e s1 s3 where "O2FSResolveBuf fn (off div 16384) s = Some (0, Some e, s1)"
    and "s3 = BufCache_Release e (s1\<lparr>bmem := memcpy buf (buffer (entries s1 e) + off mod 16384) k (bmem s1)\<rparr>)"
    and "file_ok E fn s3" and "same_file E fn s s3"
    and "\<And>i. i < unat k \<Longrightarrow> bmem s3 (buf + of_nat i) = file_byte fn s (unat off + i)"
    and "\<And>a. a \<in> outside E s \<Longrightarrow> a \<notin> range_of buf (unat k) \<Longrightarrow> bmem s3 a = bmem s a"
proof -
  let ?b = "unat off div 16384" and ?o = "unat off mod 16384"
  have b: "?b < 64" using o by (simp add: less_mult_imp_div_less)
  note D = file_okD [OF ok]
  obtain e s1 where r: "O2FSResolveBuf fn (of_nat ?b) s = Some (0, Some e, s1)" "e \<in> E"
      "caches e (vn_disk (vnodes s fn)) (file_block fn s ?b) s1" "bc_coherent E s1" "bc_inv E s1"
      "be_refCount (entries s1 e) \<noteq> 0" "bc_frame E s s1" "platter s1 = platter s"
      "\<And>x. be_refCount (entries (BufCache_Release e s1) x) = be_refCount (entries s x)"
    by (rule resolve_release [OF ok b]) (rule that)
  let ?src = "buffer (entries s1 e) + off mod 16384"
  let ?m = "memcpy buf ?src k (bmem s1)"
  let ?s3 = "BufCache_Release e (s1\<lparr>bmem := ?m\<rparr>)"
  have off: "off mod 16384 = (of_nat ?o :: u64)" using u64_of_nat_unat [of "off mod 16384"] by (simp add: unat_mod)
  have be: "buffer (entries s1 e) = buffer (entries s e)" using r(7) by (simp add: bc_frame_def)
  have src: "range_of ?src (unat k) \<subseteq> range_of (buffer (entries s e)) BLOCKSIZE"
  proof
    fix a assume "a \<in> range_of ?src (unat k)"
    then obtain i where "i < unat k" "a = buffer (entries s e) + of_nat (?o + i)"
      by (auto simp: range_of_def off be add.assoc)
    then show "a \<in> range_of (buffer (entries s e)) BLOCKSIZE" using k block_mem [of "?o + i"] by simp
  qed
  have disj: "range_of buf (unat k) \<inter> range_of ?src (unat k) = {}" using src buf r(2) by (auto simp: outside_def)
  have kk: "a - buf < k \<longleftrightarrow> a \<in> range_of buf (unat k)" for a
    using range_of_iff [of "unat k" a buf] unat_u64_less [of k] by (simp add: word_less_nat_alt)
  have m: "?m a = (if a \<in> range_of buf (unat k) then bmem s1 (?src + (a - buf)) else bmem s1 a)" for a
    using memcpy_apply [OF disj] by (simp add: kk)
  have m_out: "?m a = bmem s1 a" if "a \<notin> outside E s" for a using that buf by (auto simp: m)
  have ok3: "file_ok E fn ?s3" "same_file E fn s ?s3"
    using resolve_file_ok [OF ok r(7,2,5,4,6,8,9) m_out] by blast+
  have data: "bmem ?s3 (buf + of_nat i) = file_byte fn s (unat off + i)" if i: "i < unat k" for i
  proof -
    have dm: "(unat off + i) div BLOCKSIZE = ?b" "(unat off + i) mod BLOCKSIZE = ?o + i"
      using within_block [of "unat off" 16384 i] k i by (simp_all add: BLOCKSIZE_def)
    have "bmem ?s3 (buf + of_nat i) = bmem s1 (?src + of_nat i)" using range_of_mem [OF i, of buf] by (simp add: m)
    also have "\<dots> = bmem s1 (buffer (entries s1 e) + of_nat (?o + i))" by (simp add: off add.assoc)
    also have "\<dots> = platter s (vn_disk (vnodes s fn)) (file_block fn s ?b + of_nat (?o + i))"
      using coherent_read [OF r(4,2,3) D(9), of "?o + i"] r(8) k i by (simp add: BLOCKSIZE_def)
    finally show ?thesis by (simp add: file_byte_def dm)
  qed
  have out: "bmem ?s3 a = bmem s a" if "a \<in> outside E s" "a \<notin> range_of buf (unat k)" for a
    using that m outside_bytes [OF r(7)] by simp
  show thesis
    by (rule that [OF _ refl ok3 data out]) (use r(1) chunk_unat(3) [of off 0] o in simp)
qed

lemma Read_loop_ok:
  fixes s :: "'a kvfs_scheme"
  assumes "file_ok E fn s" and "unat off + unat len \<le> 64 * 16384" and "unat off < 64 * 16384"
    and "range_of buf (unat len) \<subseteq> outside E s"
  shows "\<exists>s'. Read_loop fn buf off len rb s = Some (int_of_u64 (rb + len), s') \<and> file_ok E fn s' \<and> same_file E fn s s' \<and>
     (\<forall>i < unat len. bmem s' (buf + of_nat i) = file_byte fn s (unat off + i)) \<and>
     (\<forall>a \<in> outside E s. a \<notin> range_of buf (unat len) \<longrightarrow> bmem s' a = bmem s a)"
  using assms
proof (induction "unat len" arbitrary: buf off len rb s rule: less_induct)
  case less
  let ?k = "chunk 16384 off len"
  have b63: "unat off + unat len < 2 ^ 63" using less.prems(2) by simp
  note ck = chunk_unat [OF b63]
  have k1: "unat off mod 16384 + unat ?k \<le> 16384" "unat ?k \<le> unat len" by (simp_all add: ck(1))
  have sub: "range_of buf (unat ?k) \<subseteq> outside E s" using range_of_mono [OF k1(2)] less.prems(4) by blast
  have bs: "sb_blockSize (bmem s) (vn_sb fn s) = 16384" using file_okD(11) [OF less.prems(1)] by (simp add: u64_BLOCKSIZE)
  obtain e s1 s3 where c: "O2FSResolveBuf fn (off div 16384) s = Some (0, Some e, s1)"
      "s3 = BufCache_Release e (s1\<lparr>bmem := memcpy buf (buffer (entries s1 e) + off mod 16384) ?k (bmem s1)\<rparr>)"
      "file_ok E fn s3" "same_file E fn s s3"
      "\<And>i. i < unat ?k \<Longrightarrow> bmem s3 (buf + of_nat i) = file_byte fn s (unat off + i)"
      "\<And>a. a \<in> outside E s \<Longrightarrow> a \<notin> range_of buf (unat ?k) \<Longrightarrow> bmem s3 a = bmem s a"
    by (rule read_chunk [OF less.prems(1,3) k1(1) sub]) (rule that)
  have step: "Read_loop fn buf off len rb s = (if len - ?k = 0 then Some (int_of_u64 (rb + ?k), s3)
      else Read_loop fn (buf + ?k) (off + ?k) (len - ?k) (rb + ?k) s3)"
    using c(1,2) by (simp add: Read_loop.simps [of fn buf off] bs Let_def)
  show ?case
  proof (cases "?k = len")
    case True
    with step c show ?thesis by auto
  next
    case False
    then have kl: "unat ?k < unat len" using k1(2) by (metis le_neq_implies_less word_unat_eq_iff)
    then have k0: "unat ?k = 16384 - unat off mod 16384" using ck(1) by simp
    have l': "unat (len - ?k) = unat len - unat ?k" using kl by (simp add: unat_sub word_le_nat_alt)
    have o': "unat (off + ?k) = unat off + unat ?k" using b63 kl by (intro unat_u64_add) simp
    have kpos: "0 < unat ?k" unfolding k0 by simp
    note S = same_fileD [OF c(4)]
    have range: "range_of (buf + ?k) (unat (len - ?k)) \<subseteq> range_of buf (unat len)"
    proof
      fix a assume "a \<in> range_of (buf + ?k) (unat (len - ?k))"
      then obtain i where "i < unat len - unat ?k" "a = buf + of_nat (unat ?k + i)"
        by (auto simp: range_of_def l' add.assoc u64_of_nat_unat)
      then show "a \<in> range_of buf (unat len)" using range_of_mem [of "unat ?k + i" "unat len" buf] by simp
    qed
    have out': "range_of (buf + ?k) (unat (len - ?k)) \<subseteq> outside E s3" using range less.prems(4) S(1) by blast
    have lt: "unat (len - ?k) < unat len" using l' kpos kl by simp
    obtain s' where s': "Read_loop fn (buf + ?k) (off + ?k) (len - ?k) (rb + ?k) s3 = Some (int_of_u64 (rb + ?k + (len - ?k)), s')"
        "file_ok E fn s'" "same_file E fn s3 s'"
        "\<And>i. i < unat (len - ?k) \<Longrightarrow> bmem s' (buf + ?k + of_nat i) = file_byte fn s3 (unat (off + ?k) + i)"
        "\<And>a. a \<in> outside E s3 \<Longrightarrow> a \<notin> range_of (buf + ?k) (unat (len - ?k)) \<Longrightarrow> bmem s' a = bmem s3 a"
      using less.hyps [OF lt c(3) _ _ out', of "off + ?k" "rb + ?k"] less.prems(2) kl o' l' by auto
    have "bmem s' (buf + of_nat i) = file_byte fn s (unat off + i)" if i: "i < unat len" for i
    proof (cases "i < unat ?k")
      case True
      have "buf + of_nat i \<notin> range_of (buf + ?k) (unat (len - ?k))"
      proof
        assume "buf + of_nat i \<in> range_of (buf + ?k) (unat (len - ?k))"
        then obtain j where "j < unat len - unat ?k" "buf + of_nat i = buf + of_nat (unat ?k + j)"
          by (auto simp: range_of_def l' add.assoc u64_of_nat_unat)
        moreover from this(1) have "unat ?k + j < 2 ^ 64" using unat_u64_less [of len] kl by simp
        ultimately show False using of_nat_add_neq [of i "unat ?k + j" buf] True by simp
      qed
      moreover have "buf + of_nat i \<in> outside E s3" using range_of_mem [OF i, of buf] less.prems(4) S(1) by blast
      ultimately show ?thesis using s'(5) c(5) [OF True] by simp
    next
      case False
      define j where "j = i - unat ?k"
      have j: "i = unat ?k + j" "j < unat (len - ?k)" using False i l' by (simp_all add: j_def)
      have "buf + of_nat i = buf + ?k + of_nat j" by (simp add: j(1) u64_of_nat_unat add.assoc)
      then have "bmem s' (buf + of_nat i) = file_byte fn s3 (unat off + i)" using s'(4) [OF j(2)] o' j(1) by (simp add: add.assoc)
      also have "\<dots> = file_byte fn s (unat off + i)" using less.prems(2) i by (intro S(3)) (simp add: BLOCKSIZE_def)
      finally show ?thesis .
    qed
    moreover have "bmem s' a = bmem s a" if "a \<in> outside E s" "a \<notin> range_of buf (unat len)" for a
    proof -
      have "a \<notin> range_of (buf + ?k) (unat (len - ?k))" "a \<notin> range_of buf (unat ?k)"
        using range range_of_mono [OF k1(2)] that(2) by blast+
      with s'(5) c(6) that(1) S(1) show ?thesis by simp
    qed
    ultimately show ?thesis
      using step s'(1-3) False same_file_trans [OF c(4)] by auto
  qed
qed

section \<open>Properties\<close>

text \<open>
  A mounted disk: the superblock at 0, the block node of a file of five bytes at \<open>0x4000\<close> and
  its data at \<open>0x8000\<close>; the first two blocks are in referenced buffers, a third buffer is free.
\<close>

definition fs_disk :: "u64 \<Rightarrow> u8" where
  "fs_disk = (\<lambda>_. 0)(33 := 0x40, 0x4010 := 5, 0x4041 := 0x80,
     0x8000 := 104, 0x8001 := 101, 0x8002 := 108, 0x8003 := 108, 0x8004 := 111)"

definition fs_entry :: "u64 \<Rightarrow> BufCacheEntry" where
  "fs_entry e = (if e = 1 then \<lparr>be_disk = 1, diskOffset = 0, be_refCount = 1, buffer = 0x10000\<rparr>
     else if e = 2 then \<lparr>be_disk = 1, diskOffset = 0x4000, be_refCount = 1, buffer = 0x20000\<rparr>
     else \<lparr>be_disk = 0, diskOffset = 0, be_refCount = 0, buffer = 0x30000\<rparr>)"

definition fs_bytes :: bytes where
  "fs_bytes a = (if a - 0x10000 < 0x4000 then fs_disk (a - 0x10000)
     else if a - 0x20000 < 0x4000 then fs_disk (0x4000 + (a - 0x20000)) else 0)"

definition fs_state :: "'a \<Rightarrow> 'a kvfs_scheme" where
  "fs_state ext = (kbufs_state ramdisk (\<lambda>_. fs_disk) \<lparr>uaccess = (\<lambda>_. True),
     vfss = (\<lambda>_. \<lparr>v_disk = 1, v_refCount = 1, v_fsptr = 1, v_fsval = 0x4000, blksize = 16384, v_root = 0, bitmap = (\<lambda>_. 0)\<rparr>),
     vnodes = (\<lambda>_. \<lparr>vn_disk = 1, vn_refCount = 1, vn_fsptr = 2, vn_fsval = 0, vn_vfs = 7\<rparr>),
     vfsSlab = slab_example, vnodeSlab = slab_example, rootFS = 7, rootNode = 0, \<dots> = ext\<rparr>)
     \<lparr>entries := fs_entry, hashTable := (\<lambda>_. [])(0 := [1, 2]), lruList := [3], bmem := fs_bytes\<rparr>"

lemma fs_state_simps [simp]:
  "entries (fs_state ext) = fs_entry" "hashTable (fs_state ext) = (\<lambda>_. [])(0 := [1, 2])" "lruList (fs_state ext) = [3]"
  "bmem (fs_state ext) = fs_bytes" "platter (fs_state ext) = (\<lambda>_. fs_disk)" "disks (fs_state ext) = (\<lambda>_. ramdisk)"
  "vfss (fs_state ext) = (\<lambda>_. \<lparr>v_disk = 1, v_refCount = 1, v_fsptr = 1, v_fsval = 0x4000, blksize = 16384, v_root = 0, bitmap = (\<lambda>_. 0)\<rparr>)"
  "vnodes (fs_state ext) = (\<lambda>_. \<lparr>vn_disk = 1, vn_refCount = 1, vn_fsptr = 2, vn_fsval = 0, vn_vfs = 7\<rparr>)"
  "uaccess (fs_state ext) = (\<lambda>_. True)"
  by (simp_all add: fs_state_def kbufs_state_def vmem_state_def)

lemma blocks_disjoint:
  assumes "unat b + 0x4000 \<le> unat c" and "unat c + 0x4000 < 2 ^ 64"
  shows "range_of b BLOCKSIZE \<inter> range_of c BLOCKSIZE = {}"
proof -
  have "\<not> (x - b < of_nat BLOCKSIZE \<and> x - c < of_nat BLOCKSIZE)" for x
  proof
    assume x: "x - b < of_nat BLOCKSIZE \<and> x - c < of_nat BLOCKSIZE"
    then have "unat (x - c) < 0x4000" "unat (x - b) < 0x4000" by (simp_all add: word_less_nat_alt u64_BLOCKSIZE)
    moreover have "unat (c - b) = unat c - unat b" using assms(1) by (simp add: unat_sub word_le_nat_alt)
    moreover have "unat (x - c + (c - b)) = unat (x - c) + unat (c - b)"
      using assms calculation by (intro unat_u64_add) simp
    ultimately show False using assms(1) by simp
  qed
  then show ?thesis unfolding block_range by blast
qed

lemma fs_state_file_ok: "file_ok {1, 2, 3} fn (fs_state ext)"
proof -
  have d: "range_of 0x10000 BLOCKSIZE \<inter> range_of 0x20000 BLOCKSIZE = {}"
    "range_of 0x10000 BLOCKSIZE \<inter> range_of 0x30000 BLOCKSIZE = {}"
    "range_of 0x20000 BLOCKSIZE \<inter> range_of 0x30000 BLOCKSIZE = {}"
    by (rule blocks_disjoint; simp)+
  then have d': "range_of 0x20000 BLOCKSIZE \<inter> range_of 0x10000 BLOCKSIZE = {}"
    "range_of 0x30000 BLOCKSIZE \<inter> range_of 0x10000 BLOCKSIZE = {}"
    "range_of 0x30000 BLOCKSIZE \<inter> range_of 0x20000 BLOCKSIZE = {}" by blast+
  have "bc_inv {1, 2, 3} (fs_state ext)"
    using d d' by (auto simp: bc_inv_def caches_def fs_entry_def bc_slot_def HASHTABLEENTRIES_def)
  moreover have "coherent 1 (fs_state ext)"
    by (auto simp: coherent_def fs_entry_def fs_bytes_def block_index u64_BLOCKSIZE(2) [symmetric])
  moreover have "coherent 2 (fs_state ext)"
  proof -
    have "\<not> (0x20000 + of_nat i - 0x10000 < (0x4000 :: u64))" if "i < BLOCKSIZE" for i
      using d(1) range_of_mem [OF that, of "0x20000"] block_range [of "0x20000 + of_nat i" "0x10000"]
      by (auto simp: u64_BLOCKSIZE(2))
    then show ?thesis by (auto simp: coherent_def fs_entry_def fs_bytes_def block_index u64_BLOCKSIZE(2) [symmetric])
  qed
  ultimately show ?thesis
    by (simp add: file_ok_def bc_coherent_def fs_entry_def ramdisk_ok vn_sb_def)
       (simp add: sb_blockSize_def rd64_def fs_bytes_def fs_disk_def BLOCKSIZE_def)
qed

lemma int_of_u64_small: "unat x < 2 ^ 31 \<Longrightarrow> int_of_u64 x = int (unat x)"
proof -
  assume x: "unat x < 2 ^ 31"
  then have u: "uint x < 2 ^ 31" by (metis of_nat_less_numeral_power_cancel_iff uint_nat)
  have "signed_take_bit 31 (uint x) = uint x"
    by (rule signed_take_bit_int_eq_self) (use u uint_ge_0 [of x] in linarith)+
  with u show ?thesis
    by (simp add: int_of_u64_def sint_uint unsigned_ucast_eq take_bit_int_eq_self)
qed

lemma O2FS_Read_ok:
  fixes s :: "'a kvfs_scheme"
  assumes "file_ok E fn s" and "file_size fn s \<le> 64 * 16384" and "unat off < file_size fn s"
    and "unat off + unat len < 2 ^ 64" and "n = min (unat len) (file_size fn s - unat off)"
    and "range_of buf n \<subseteq> outside E s"
  shows "\<exists>s'. O2FS_Read fn buf off len s = Some (int n, s') \<and>
     (\<forall>i < n. bmem s' (buf + of_nat i) = file_byte fn s (unat off + i)) \<and>
     (\<forall>a \<in> outside E s. a \<notin> range_of buf n \<longrightarrow> bmem s' a = bmem s a) \<and>
     file_ok E fn s' \<and> same_file E fn s s'"
proof -
  let ?sz = "bn_size (bmem s) (vn_bn fn s)"
  let ?len = "if ?sz < off + len then ?sz - off else len"
  have sz: "unat ?sz = file_size fn s" by (simp add: file_size_def)
  have "unat (off + len) = unat off + unat len" using assms(4) by (intro unat_u64_add) simp
  moreover have "unat (?sz - off) = file_size fn s - unat off"
    using assms(3) sz by (simp add: unat_sub word_le_nat_alt)
  ultimately have n: "unat ?len = n" using assms(5) sz by (auto simp: word_less_nat_alt min_def)
  have "unat off + unat ?len \<le> 64 * 16384" "unat off < 64 * 16384"
    using n assms(2,3,5) by simp_all
  from Read_loop_ok [OF assms(1) this, of buf 0] obtain s' where
      r: "Read_loop fn buf off ?len 0 s = Some (int_of_u64 ?len, s')" "file_ok E fn s'" "same_file E fn s s'"
      "\<forall>i < n. bmem s' (buf + of_nat i) = file_byte fn s (unat off + i)"
      "\<forall>a \<in> outside E s. a \<notin> range_of buf n \<longrightarrow> bmem s' a = bmem s a"
    using assms(6) unfolding n by auto
  have "int_of_u64 ?len = int n" using int_of_u64_small [of ?len] n assms(2,5) by simp
  moreover have "\<not> ?sz < off" using assms(3) sz by (simp add: word_less_nat_alt)
  moreover have "sb_blockSize (bmem s) (vn_sb fn s) \<noteq> 0" using file_okD(11) [OF assms(1)] by (simp add: u64_BLOCKSIZE)
  ultimately have "O2FS_Read fn buf off len s = Some (int n, s')"
    using r(1) by (simp add: O2FS_Read_def Let_def)
  with r show ?thesis by blast
qed

text \<open>
  C5. Reading a file: for an open file on a working disk, an offset inside the file and a
  target buffer outside of the cache, \<^verbatim>\<open>O2FS_Read\<close> returns the number of bytes up to the
  requested length or the end of the file, the buffer then holds exactly these bytes of the
  file's blocks on the disk, and the file, the disk and the rest of the memory that is not
  cache are unchanged.
\<close>

theorem o2fs_read_file:
  fixes s :: "'a kvfs_scheme"
  assumes "file_ok E fn s" and "file_size fn s \<le> 64 * 16384" and "unat off < file_size fn s"
    and "unat off + unat len < 2 ^ 64" and "n = min (unat len) (file_size fn s - unat off)"
    and "range_of buf n \<subseteq> outside E s"
  shows "\<exists>s'. O2FS_Read fn buf off len s = Some (int n, s') \<and>
     (\<forall>i < n. bmem s' (buf + of_nat i) = file_byte fn s (unat off + i)) \<and>
     (\<forall>a \<in> outside E s. a \<notin> range_of buf n \<longrightarrow> bmem s' a = bmem s a) \<and>
     file_ok E fn s' \<and> same_file E fn s s'"
  using assms by (rule O2FS_Read_ok)

theorem o2fs_read_file_witness:
  "\<exists>s'. O2FS_Read 9 0x50000 1 100 (fs_state ()) = Some (4, s') \<and> bmem s' 0x50000 = 101 \<and> bmem s' 0x50003 = 111"
proof -
  have sz: "file_size 9 (fs_state ()) = 5"
    by (simp add: file_size_def vn_bn_def fs_entry_def bn_size_def rd64_def fs_bytes_def fs_disk_def)
  have blk: "file_block 9 (fs_state ()) 0 = 0x8000"
    by (simp add: file_block_def vn_bn_def fs_entry_def bn_direct_def bn_direct_addr_def rd64_def fs_bytes_def fs_disk_def)
  have "range_of 0x50000 BLOCKSIZE \<inter> range_of b BLOCKSIZE = {}" if "b \<in> {0x10000, 0x20000, 0x30000}" for b
    using that blocks_disjoint [of b "0x50000"] by auto
  then have "range_of 0x50000 BLOCKSIZE \<subseteq> outside {1, 2, 3} (fs_state ())" by (auto simp: outside_def fs_entry_def)
  then have o: "range_of 0x50000 4 \<subseteq> outside {1, 2, 3} (fs_state ())"
    using range_of_mono [of 4 BLOCKSIZE "0x50000"] by (auto simp: BLOCKSIZE_def)
  have n: "4 = min (unat (100 :: u64)) (file_size 9 (fs_state ()) - unat (1 :: u64))" by (simp add: sz)
  obtain s' where s': "O2FS_Read 9 0x50000 1 100 (fs_state ()) = Some (int 4, s')"
      "\<forall>i < 4. bmem s' (0x50000 + of_nat i) = file_byte 9 (fs_state ()) (unat (1 :: u64) + i)"
    using o2fs_read_file [OF fs_state_file_ok _ _ _ n o] sz by auto
  have "file_byte 9 (fs_state ()) 1 = 101" "file_byte 9 (fs_state ()) 4 = 111"
    by (simp_all add: file_byte_def blk BLOCKSIZE_def fs_disk_def)
  with s'(2) [rule_format, of 0] s'(2) [rule_format, of 3] s'(1) show ?thesis by auto
qed

text \<open>The bit of block \<open>k\<close> in the bitmap: the byte that holds it and the bit in this byte.\<close>

definition bitmap_addr :: "u64 \<Rightarrow> nat \<Rightarrow> 'a kvfs_scheme \<Rightarrow> u64" where
  "bitmap_addr fs k s =
     buffer (entries s (bitmap (vfss s fs) (k div (8 * BLOCKSIZE)))) + of_nat (k mod (8 * BLOCKSIZE) div 8)"

definition in_use :: "u64 \<Rightarrow> nat \<Rightarrow> 'a kvfs_scheme \<Rightarrow> bool" where
  "in_use fs k s = bit (bmem s (bitmap_addr fs k s)) (k mod 8)"

text \<open>The state after a successful write of the entry \<open>e\<close>.\<close>

definition written :: "u64 \<Rightarrow> 'a kbufs_scheme \<Rightarrow> 'a kbufs_scheme" where
  "written e s = s\<lparr>platter := (platter s)(be_disk (entries s e) :=
     \<lambda>x. if x - diskOffset (entries s e) < of_nat BLOCKSIZE
         then bmem s (buffer (entries s e) + (x - diskOffset (entries s e)))
         else platter s (be_disk (entries s e)) x)\<rparr>"

lemma BufCache_Write_ok:
  assumes "disk_ok (disks s (be_disk (entries s e)))"
  shows "BufCache_Write e s = Some (0, written e s)"
proof -
  obtain sga where sga: "block_sga (diskOffset (entries s e)) = Some sga" using block_sga_Some by blast
  show ?thesis by (simp add: BufCache_Write_def sga Disk_Write_ok [OF assms sga] written_def)
qed

lemma written_simps [simp]:
  "bmem (written e s) = bmem s" "entries (written e s) = entries s"
  by (simp_all add: written_def)

lemma written_vfss [simp]: "vfss (written e s) = vfss s" for s :: "'a kvfs_scheme"
  by (simp add: written_def)

lemma written_platter:
  "c < BLOCKSIZE \<Longrightarrow> platter (written e s) (be_disk (entries s e)) (diskOffset (entries s e) + of_nat c) =
     bmem s (buffer (entries s e) + of_nat c)"
  by (simp add: written_def block_index)

lemma find_first: "j < n \<Longrightarrow> P j \<Longrightarrow> \<forall>x < j. \<not> P x \<Longrightarrow> List.find P [0..<n] = Some j"
  by (auto simp: find_Some_iff intro!: exI [of _ j])

lemma find_clear_full: "\<forall>j < n. \<forall>x < 8. bit (m (bm + of_nat (b + j))) x \<Longrightarrow> find_clear m bm b n = None"
proof (induction n arbitrary: b)
  case (Suc n)
  have "List.find (\<lambda>bi. \<not> bit (m (bm + of_nat b)) bi) [0..<8] = None"
    using Suc.prems [rule_format, of 0] by (auto simp: find_None_iff)
  moreover have "find_clear m bm (Suc b) n = None"
    by (rule Suc.IH) (metis Suc.prems Suc_less_eq add_Suc_shift)
  ultimately show ?case by (simp add: find_clear.simps [of _ _ _ "Suc n"])
qed (simp add: find_clear.simps)

lemma find_clear_first:
  assumes "c < n" and "bi < 8" and "\<not> bit (m (bm + of_nat (b + c))) bi"
    and "\<forall>j < c. \<forall>x < 8. bit (m (bm + of_nat (b + j))) x" and "\<forall>x < bi. bit (m (bm + of_nat (b + c))) x"
  shows "find_clear m bm b n = Some (b + c, bi)"
  using assms
proof (induction c arbitrary: b n)
  case 0
  then have "List.find (\<lambda>bi. \<not> bit (m (bm + of_nat b)) bi) [0..<8] = Some bi"
    by (intro find_first) simp_all
  with 0 show ?case by (simp add: find_clear.simps [of _ _ _ n])
next
  case (Suc c)
  have "List.find (\<lambda>bi. \<not> bit (m (bm + of_nat b)) bi) [0..<8] = None"
    using Suc.prems(4) [rule_format, of 0] by (auto simp: find_None_iff)
  moreover have "find_clear m bm (Suc b) (n - 1) = Some (Suc b + c, bi)"
  proof (rule Suc.IH)
    show "\<forall>j < c. \<forall>x < 8. bit (m (bm + of_nat (Suc b + j))) x"
      using Suc.prems(4) by (metis Suc_less_eq add_Suc_shift)
  qed (use Suc.prems in simp_all)
  ultimately show ?case using Suc.prems(1) by (simp add: find_clear.simps [of _ _ _ n])
qed

lemma bitmap_addr_split:
  assumes "c < BLOCKSIZE" "x < 8"
  shows "bitmap_addr fs (8 * BLOCKSIZE * i + 8 * c + x) s = buffer (entries s (bitmap (vfss s fs) i)) + of_nat c"
    and "(8 * BLOCKSIZE * i + 8 * c + x) mod 8 = x"
proof -
  have l: "8 * c + x < 8 * BLOCKSIZE" using assms by linarith
  have "(8 * BLOCKSIZE * i + (8 * c + x)) div (8 * BLOCKSIZE) = i" "(8 * BLOCKSIZE * i + (8 * c + x)) mod (8 * BLOCKSIZE) = 8 * c + x"
    using l by simp_all
  with assms show "bitmap_addr fs (8 * BLOCKSIZE * i + 8 * c + x) s = buffer (entries s (bitmap (vfss s fs) i)) + of_nat c"
    by (simp add: bitmap_addr_def add.assoc)
  have "(8 * BLOCKSIZE * i + 8 * c + x) mod 8 = (8 * (BLOCKSIZE * i + c) + x) mod 8" by (simp add: algebra_simps)
  also have "\<dots> = x" using assms by (simp only: mod_mult_self4) simp
  finally show "(8 * BLOCKSIZE * i + 8 * c + x) mod 8 = x" .
qed

lemma BAlloc_loop_first:
  assumes "i + d < i + n" and "k = 8 * BLOCKSIZE * (i + d) + 8 * c + x" and "c < BLOCKSIZE" and "x < 8"
    and "blksize (vfss s fs) = of_nat BLOCKSIZE"
    and "\<forall>j \<le> i + d. bitmap (vfss s fs) j \<noteq> 0" and "\<not> in_use fs k s" and "\<forall>j < k. in_use fs j s"
  shows "BAlloc_loop fs i n s = (do {
     let a = bitmap_addr fs k s;
     let s = s\<lparr>bmem := (bmem s)(a := set_bit x (bmem s a))\<rparr>;
     (r, s) \<leftarrow> BufCache_Write (bitmap (vfss s fs) (i + d)) s;
     Some (blksize (vfss s fs) * 8 * of_nat (i + d) + 8 * of_nat c + of_nat x, s) })"
  using assms
proof (induction d arbitrary: i n)
  case 0
  have u: "unat (blksize (vfss s fs)) = BLOCKSIZE" using 0(5) by (simp add: BLOCKSIZE_def)
  have b: "bit (bmem s (buffer (entries s (bitmap (vfss s fs) i)) + of_nat c')) x' = in_use fs (8 * BLOCKSIZE * i + 8 * c' + x') s"
    if "c' < BLOCKSIZE" "x' < 8" for c' x' unfolding in_use_def bitmap_addr_split [OF that] ..
  have "find_clear (bmem s) (buffer (entries s (bitmap (vfss s fs) i))) 0 (unat (blksize (vfss s fs))) = Some (0 + c, x)"
    unfolding u using 0 by (intro find_clear_first) (auto simp: b)
  moreover have "bitmap_addr fs k s = buffer (entries s (bitmap (vfss s fs) i)) + of_nat c"
    using bitmap_addr_split [OF 0(3,4)] 0(2) by simp
  ultimately show ?case using 0 by (simp add: BAlloc_loop.simps [of _ _ n] Let_def fun_upd_def)
next
  case (Suc d)
  have "find_clear (bmem s) (buffer (entries s (bitmap (vfss s fs) i))) 0 (unat (blksize (vfss s fs))) = None"
  proof (rule find_clear_full, intro allI impI)
    fix j y :: nat assume j: "j < unat (blksize (vfss s fs))" and y: "y < 8"
    then have j: "j < BLOCKSIZE" using Suc.prems(5) by (simp add: BLOCKSIZE_def)
    then have "8 * BLOCKSIZE * i + 8 * j + y < k" using Suc.prems(2) y by (simp add: algebra_simps)
    with Suc.prems(8) have "in_use fs (8 * BLOCKSIZE * i + 8 * j + y) s" by blast
    then show "bit (bmem s (buffer (entries s (bitmap (vfss s fs) i)) + word_of_nat (0 + j))) y"
      unfolding in_use_def bitmap_addr_split [OF j y] by simp
  qed
  moreover have "BAlloc_loop fs (Suc i) (n - 1) s = (do {
     let a = bitmap_addr fs k s;
     let s = s\<lparr>bmem := (bmem s)(a := set_bit x (bmem s a))\<rparr>;
     (r, s) \<leftarrow> BufCache_Write (bitmap (vfss s fs) (Suc i + d)) s;
     Some (blksize (vfss s fs) * 8 * of_nat (Suc i + d) + 8 * of_nat c + of_nat x, s) })"
    by (rule Suc.IH) (use Suc.prems in \<open>simp_all add: algebra_simps\<close>)
  ultimately show ?case using Suc.prems by (simp add: BAlloc_loop.simps [of _ _ n] fun_upd_def)
qed

text \<open>The bitmap of the examples: the first bitmap block is the third buffer.\<close>

definition bitmap_state :: "'a \<Rightarrow> 'a kvfs_scheme" where
  "bitmap_state ext = (fs_state ext)\<lparr>bmem := fs_bytes(0x30000 := 255, 0x30001 := 101),
     vfss := (\<lambda>_. \<lparr>v_disk = 1, v_refCount = 1, v_fsptr = 1, v_fsval = 0x4000, blksize = 16384, v_root = 0,
       bitmap = (\<lambda>_. 0)(0 := 3)\<rparr>)\<rparr>"

lemma bitmap_state_in_use:
  "\<not> in_use 7 9 (bitmap_state ext)" "j < 9 \<Longrightarrow> in_use 7 j (bitmap_state ext)"
proof -
  show "\<not> in_use 7 9 (bitmap_state ext)"
    by (simp add: in_use_def bitmap_addr_def bitmap_state_def fs_entry_def BLOCKSIZE_def)
  assume "j < 9"
  then have "j \<in> {0, 1, 2, 3, 4, 5, 6, 7, 8}" by auto
  then show "in_use 7 j (bitmap_state ext)"
    by (auto simp: in_use_def bitmap_addr_def bitmap_state_def fs_entry_def BLOCKSIZE_def)
qed

text \<open>
  C22. Block allocation is first fit: when \<open>k\<close> is the first block whose bitmap bit is clear, in
  one of the bitmap blocks the mount has loaded, \<^verbatim>\<open>O2FSBAlloc\<close> returns block \<open>k\<close>, the bit of
  \<open>k\<close> is then set in the cached bitmap, no other byte of memory changes, and the byte with the
  bit has been written through to the disk.
\<close>

theorem o2fs_balloc_first_fit:
  fixes s :: "'a kvfs_scheme"
  assumes "k < 16 * (8 * BLOCKSIZE)" and "blksize (vfss s fs) = of_nat BLOCKSIZE"
    and "\<forall>j \<le> k div (8 * BLOCKSIZE). bitmap (vfss s fs) j \<noteq> 0"
    and "\<not> in_use fs k s" and "\<forall>j < k. in_use fs j s"
    and "e = entries s (bitmap (vfss s fs) (k div (8 * BLOCKSIZE)))" and "disk_ok (disks s (be_disk e))"
  shows "\<exists>s'. O2FSBAlloc fs s = Some (of_nat k, s') \<and> in_use fs k s' \<and>
     (\<forall>a. a \<noteq> bitmap_addr fs k s \<longrightarrow> bmem s' a = bmem s a) \<and>
     platter s' (be_disk e) (diskOffset e + of_nat (k mod (8 * BLOCKSIZE) div 8)) = bmem s' (bitmap_addr fs k s)"
proof -
  let ?i = "k div (8 * BLOCKSIZE)" and ?c = "k mod (8 * BLOCKSIZE) div 8" and ?x = "k mod 8"
  let ?a = "bitmap_addr fs k s"
  let ?s = "s\<lparr>bmem := (bmem s)(?a := set_bit ?x (bmem s ?a))\<rparr>"
  have c: "?c < BLOCKSIZE" using mod_less_divisor [of "8 * BLOCKSIZE" k] by (simp add: BLOCKSIZE_def)
  have "8 * ?c + ?x = k mod (8 * BLOCKSIZE)"
    by (metis mod_mod_cancel dvd_triv_left mult_div_mod_eq)
  then have k: "k = 8 * BLOCKSIZE * (0 + ?i) + 8 * ?c + ?x" by (simp add: add.assoc)
  have "of_nat k = blksize (vfss s fs) * 8 * of_nat ?i + 8 * of_nat ?c + of_nat ?x"
    using arg_cong [where f = "of_nat :: nat \<Rightarrow> u64", OF k] assms(2) by (simp add: ac_simps)
  moreover have i: "0 + ?i < 0 + 16" using assms(1) by (simp add: less_mult_imp_div_less)
  moreover have "BufCache_Write (bitmap (vfss s fs) ?i) ?s = Some (0, written (bitmap (vfss s fs) ?i) ?s)"
    by (rule BufCache_Write_ok) (use assms(6,7) in simp)
  ultimately have "O2FSBAlloc fs s = Some (of_nat k, written (bitmap (vfss s fs) ?i) ?s)"
    using BAlloc_loop_first [OF i k c _ assms(2) _ assms(4,5)] assms(3) by (simp add: O2FSBAlloc_def Let_def fun_upd_def)
  moreover have "?a = buffer e + of_nat ?c" by (simp add: bitmap_addr_def assms(6))
  moreover have "platter (written (bitmap (vfss s fs) ?i) ?s) (be_disk e) (diskOffset e + of_nat ?c) = bmem ?s (buffer e + of_nat ?c)"
    using written_platter [OF c, of "bitmap (vfss s fs) ?i" ?s] by (simp add: assms(6))
  ultimately show ?thesis by (simp add: in_use_def bitmap_addr_def bit_simps)
qed

theorem o2fs_balloc_first_fit_witness:
  "\<exists>s'. O2FSBAlloc 7 (bitmap_state ()) = Some (9, s') \<and> in_use 7 9 s' \<and> platter s' 0 1 = bmem s' 0x30001"
proof -
  obtain s' where "O2FSBAlloc 7 (bitmap_state ()) = Some (of_nat 9, s')" "in_use 7 9 s'"
    "platter s' 0 (0 + of_nat (9 mod (8 * BLOCKSIZE) div 8)) = bmem s' (bitmap_addr 7 9 (bitmap_state ()))"
    using o2fs_balloc_first_fit [of 9 "bitmap_state ()" 7 "fs_entry 3"] bitmap_state_in_use [where ext = "()"]
    by (auto simp: bitmap_state_def BLOCKSIZE_def fs_entry_def ramdisk_ok)
  then show ?thesis by (auto simp: BLOCKSIZE_def bitmap_addr_def bitmap_state_def fs_entry_def)
qed

text \<open>
  C34. \<^verbatim>\<open>O2FSBFree\<close> computes the byte of a block's bit with \<^verbatim>\<open>block >> 8\<close> instead of
  \<^verbatim>\<open>block >> 3\<close>: a block between 8 and 255 that is in use is still marked in use after it has
  been freed, so it is never allocated again.
\<close>

theorem o2fs_bfree_wrong_bit:
  fixes s :: "'a kvfs_scheme"
  assumes "O2FSBFree fs block s = Some s'" and "8 \<le> unat block" and "unat block < 256"
    and "blksize (vfss s fs) = of_nat BLOCKSIZE"
    and "disk_ok (disks s (be_disk (entries s (bitmap (vfss s fs) 0))))"
  shows "in_use fs (unat block) s' = in_use fs (unat block) s"
proof -
  let ?e = "bitmap (vfss s fs) 0" let ?a = "buffer (entries s ?e)"
  let ?s = "s\<lparr>bmem := (bmem s)(?a := unset_bit (unat (block AND 7)) (bmem s ?a))\<rparr>"
  have z: "drop_bit 8 block = 0" using assms(3) by (simp add: drop_bit_eq_div word_arith_nat_div)
  have q: "block div 131072 = 0" using assms(3) by (simp add: word_arith_nat_div)
  have w: "BufCache_Write ?e ?s = Some (0, written ?e ?s)" by (rule BufCache_Write_ok) (use assms(5) in simp)
  then have "s' = written ?e ?s"
    using assms(1,4) by (auto simp: O2FSBFree_def z q u64_BLOCKSIZE kassert_def Let_def split: if_splits)
  moreover have "bitmap_addr fs (unat block) s \<noteq> ?a"
  proof -
    have "unat (of_nat (unat block div 8) :: u64) \<noteq> 0" using assms(2,3) by (simp add: unsigned_of_nat take_bit_eq_mod)
    then have "(of_nat (unat block div 8) :: u64) \<noteq> 0" by (metis unat_0)
    then show ?thesis using assms(3) by (simp add: bitmap_addr_def BLOCKSIZE_def)
  qed
  ultimately show ?thesis by (simp add: in_use_def bitmap_addr_def)
qed

theorem o2fs_bfree_wrong_bit_witness:
  "in_use 7 8 (bitmap_state ()) \<and> (\<exists>s'. O2FSBFree 7 8 (bitmap_state ()) = Some s' \<and> in_use 7 8 s')"
proof -
  have d: "disk_ok (disks (bitmap_state ()) (be_disk (entries (bitmap_state ()) (bitmap (vfss (bitmap_state ()) 7) 0))))"
    by (simp add: bitmap_state_def ramdisk_ok)
  obtain s' where "O2FSBFree 7 8 (bitmap_state ()) = Some s'"
    by (simp add: O2FSBFree_def bitmap_state_def ramdisk_ok BufCache_Write_ok Let_def)
  with o2fs_bfree_wrong_bit [of 7 8 "bitmap_state ()" s'] d bitmap_state_in_use(2) [of 8 "()"] show ?thesis
    by (auto simp: bitmap_state_def BLOCKSIZE_def)
qed

end
