(* ===== verification/Kernel.thy ===== *)
theory Kernel
  imports O2FS
begin

text \<open>
  The kernel objects that processes are made of, and the state of the whole kernel: handles
  (\<^verbatim>\<open>sys/include/handle.h\<close>), wait channels, mutexes, condition variables and semaphores,
  timer events, threads and processes (\<^verbatim>\<open>sys/include/thread.h\<close>), the console's key buffer,
  and the registers of the CPUs that a thread switch saves and restores.  Objects live in
  stores from addresses to records; \<^verbatim>\<open>NULL\<close> is 0.  A queue that threads, processes or handles
  are linked into is the list of its elements.
\<close>

section \<open>Constants\<close>

definition MAX_CPUS :: nat where "MAX_CPUS = 16"

definition MEM_USERSPACE_STKBASE :: u64 where "MEM_USERSPACE_STKBASE = 0x70000000"

definition MEM_USERSPACE_STKLEN :: u64 where "MEM_USERSPACE_STKLEN = 0x10000"

definition MEM_USERSPACE_STKTOP :: u64 where
  "MEM_USERSPACE_STKTOP = MEM_USERSPACE_STKBASE + MEM_USERSPACE_STKLEN"

definition PROCESS_HANDLE_SLOTS :: nat where "PROCESS_HANDLE_SLOTS = 128"

definition PROCESS_TITLE_LENGTH :: nat where "PROCESS_TITLE_LENGTH = 128"

definition TID_ANY :: u64 where "TID_ANY = 0xFFFFFFFF"

definition HANDLE_TYPE_FILE :: u64 where "HANDLE_TYPE_FILE = 1"

definition HANDLE_TYPE_CONSOLE :: u64 where "HANDLE_TYPE_CONSOLE = 2"

datatype schedState =
    SCHED_STATE_NULL
  | SCHED_STATE_RUNNABLE
  | SCHED_STATE_RUNNING
  | SCHED_STATE_WAITING
  | SCHED_STATE_ZOMBIE

datatype procState = PROC_STATE_NULL | PROC_STATE_READY | PROC_STATE_ZOMBIE

section \<open>Objects\<close>

text \<open>
  The four function pointers of a handle are always set together, to the functions of
  \<^verbatim>\<open>vfsuio.c\<close> or of \<^verbatim>\<open>console.c\<close>.
\<close>

datatype handle_ops = NoOps | VFSUIO_ops | Console_ops

record Handle =
  h_fd :: u64
  h_type :: u64
  h_processId :: u64
  h_vnode :: u64
  h_ops :: handle_ops

text \<open>
  Synchronisation objects are embedded in other objects; the address of an embedded object is
  a constructor over the address of the object around it.
\<close>

datatype mutexptr = zombieProcLock u64 | MutexAt u64

datatype cvptr = zombieProcCV u64 | zombieProcPCV u64 | CVAt u64

datatype chanptr = MutexChan mutexptr | CVChan cvptr | ChanAt u64

datatype semaptr = zombieSemaphore u64 | SemaAt u64

record WaitChannel =
  wc_name :: string
  chanQueue :: "u64 list"

record Semaphore =
  sem_name :: string
  sem_count :: int
  waiters :: "u64 list"

text \<open>Code addresses: user code, or the function of the kernel with the given name.\<close>

datatype code = UserCode u64 | KernelCode string

record TrapFrame =
  tf_rdi :: u64
  tf_rsi :: u64
  tf_rdx :: u64
  tf_ds :: u64
  tf_rip :: code
  tf_cs :: u64
  tf_rflags :: u64
  tf_rsp :: u64
  tf_ss :: u64

record ThreadArchStackFrame =
  sf_r15 :: u64
  sf_r14 :: u64
  sf_r13 :: u64
  sf_r12 :: u64
  sf_rbx :: u64
  sf_rdi :: u64
  sf_rbp :: u64
  sf_rip :: code

type_synonym XSAVEArea = "nat \<Rightarrow> u8"

record Thread =
  xsa :: XSAVEArea
  useFP :: bool
  t_rsp :: u64
  t_space :: u64
  kstack :: u64
  ustack :: u64
  tid :: u64
  t_refCount :: u64
  t_proc :: u64
  t_schedState :: schedState
  timerEvt :: u64
  exitValue :: u64
  ctxSwitches :: u64
  t_waitTime :: u64
  t_waitStart :: u64

definition Thread_zero :: Thread where
  "Thread_zero = \<lparr>xsa = (\<lambda>_. 0), useFP = False, t_rsp = 0, t_space = 0, kstack = 0, ustack = 0, tid = 0,
     t_refCount = 0, t_proc = 0, t_schedState = SCHED_STATE_NULL, timerEvt = 0, exitValue = 0,
     ctxSwitches = 0, t_waitTime = 0, t_waitStart = 0\<rparr>"

record Process =
  pid :: u64
  p_space :: u64
  entrypoint :: u64
  nextThreadID :: u64
  ustackNext :: u64
  p_refCount :: u64
  p_title :: "u8 list"
  p_procState :: procState
  exitCode :: u64
  parent :: u64
  childrenList :: "u64 list"
  zombieProc :: "u64 list"
  p_threads :: u64
  threadList :: "u64 list"
  zombieQueue :: "u64 list"
  nextFD :: u64
  p_handles :: "nat \<Rightarrow> u64 list"

definition Process_zero :: Process where
  "Process_zero = \<lparr>pid = 0, p_space = 0, entrypoint = 0, nextThreadID = 0, ustackNext = 0, p_refCount = 0,
     p_title = [], p_procState = PROC_STATE_NULL, exitCode = 0, parent = 0, childrenList = [], zombieProc = [],
     p_threads = 0, threadList = [], zombieQueue = [], nextFD = 0, p_handles = (\<lambda>_. [])\<rparr>"

text \<open>The callback of a timer event and its argument.\<close>

datatype KTimerCB = ThreadWakeupHelperCB | OtherCB u64

record KTimerEvent =
  te_refCount :: u64
  te_timeout :: u64
  te_cb :: KTimerCB
  te_arg :: u64

text \<open>
  A network interface; the functions \<^verbatim>\<open>tx\<close> and \<^verbatim>\<open>rx\<close> of its driver get the address of the
  interface and of the \<^verbatim>\<open>MBuf\<close>.
\<close>

type_synonym nic_op = "u64 \<Rightarrow> u64 \<Rightarrow> bytes \<Rightarrow> int \<times> bytes"

record NIC =
  nicNo :: u64
  nic_tx :: nic_op
  nic_rx :: nic_op

section \<open>The kernel state\<close>

text \<open>
  \<open>critical\<close> is the nesting level of critical sections, per CPU, outside of the sections that
  are atomic here.  \<open>cregs\<close>, \<open>cpu_rsp\<close>, \<open>fpu\<close> and \<open>rsp0\<close> are the registers that \<^verbatim>\<open>switchstack\<close>
  saves, the stack pointer, the floating point state and \<^verbatim>\<open>TSS[cpu].rsp0\<close>.  \<open>conOut\<close> is what
  has been written to the console and \<open>serialIn\<close> what the serial port will deliver.
\<close>

record khandles = kvfs +
  hdls :: "u64 \<Rightarrow> Handle"
  handleSlab :: slab
  handleFreeHead :: u64
  nextKey :: nat
  lastKey :: nat
  keyBuf :: "nat \<Rightarrow> u8"
  serialIn :: "u8 list"
  conOut :: "u8 list"

record ksync = khandles +
  chans :: "chanptr \<Rightarrow> WaitChannel"
  chanList :: "chanptr list"
  semas :: "semaptr \<Rightarrow> Semaphore"
  semaList :: "semaptr list"
  critical :: "nat \<Rightarrow> u32"

record kthreads = ksync +
  thrs :: "u64 \<Rightarrow> Thread"
  procs :: "u64 \<Rightarrow> Process"
  waitQueue :: "u64 list"
  runnableQueue :: "u64 list"
  curProc :: "nat \<Rightarrow> u64"
  threadSlab :: slab
  processSlab :: slab
  nextProcessID :: u64
  processList :: "u64 list"
  kernelProcess :: u64

record kcpus = kthreads +
  tframes :: "u64 \<Rightarrow> TrapFrame"
  sframes :: "u64 \<Rightarrow> ThreadArchStackFrame"
  cregs :: "nat \<Rightarrow> ThreadArchStackFrame"
  cpu_rsp :: "nat \<Rightarrow> u64"
  fpu :: "nat \<Rightarrow> XSAVEArea"
  rsp0 :: "nat \<Rightarrow> u64"

record kern = kcpus +
  timerHead :: nat
  timerNow :: u64
  timerSlot :: "nat \<Rightarrow> u64 list"
  timerSlab :: slab
  tevents :: "u64 \<Rightarrow> KTimerEvent"
  nics :: "u64 \<Rightarrow> NIC"
  nicList :: "u64 list"
  nextNICNo :: u64
  sysctlNode :: "nat \<Rightarrow> u64"

text \<open>Updates of one object, and the removal from a queue, which requires that it is queued.\<close>

definition upd_thr :: "u64 \<Rightarrow> (Thread \<Rightarrow> Thread) \<Rightarrow> 'a kern_scheme \<Rightarrow> 'a kern_scheme" where
  "upd_thr t f s = s\<lparr>thrs := (thrs s)(t := f (thrs s t))\<rparr>"

definition upd_proc :: "u64 \<Rightarrow> (Process \<Rightarrow> Process) \<Rightarrow> 'a kern_scheme \<Rightarrow> 'a kern_scheme" where
  "upd_proc p f s = s\<lparr>procs := (procs s)(p := f (procs s p))\<rparr>"

definition unlink :: "'a \<Rightarrow> 'a list \<Rightarrow> 'a list option" where
  "unlink x xs = (if x \<in> set xs then Some (remove1 x xs) else None)"

text \<open>The zeroed pages of the page allocator, in the byte view of the memory.\<close>

definition alloc_page :: "'a kern_scheme \<Rightarrow> (u64 \<times> 'a kern_scheme) option" where
  "alloc_page s = do {
     (pg, s) \<leftarrow> PAlloc_AllocPage s;
     Some (pg, s\<lparr>bmem := memset pg 0 PGSIZE (bmem s)\<rparr>)
   }"

lemma unlink_Some [simp]: "unlink x xs = Some ys \<longleftrightarrow> x \<in> set xs \<and> ys = remove1 x xs"
  by (auto simp: unlink_def)

lemma unlink_member [simp]: "x \<in> set xs \<Longrightarrow> unlink x xs = Some (remove1 x xs)"
  by (simp add: unlink_def)

end
