(* ===== verification/Frames.thy ===== *)
theory Frames
  imports Kernel
begin

text \<open>
  What the memory allocators leave alone.  The state of the kernel is a chain of record
  extensions; an allocator changes the part of the chain it belongs to, and the extension behind
  it stays as it is.
\<close>

lemma PAlloc_Release_more: "PAlloc_Release p s = Some s' \<Longrightarrow> kmem.more s' = kmem.more s"
  by (auto simp: PAlloc_Release_def PAllocFreePage_def Let_def split: if_splits)

lemma vmem_more: "kmem.more s = kmem.more t \<Longrightarrow> vmem.more s = vmem.more t"
  for s t :: "'a vmem_scheme"
  by (cases s, cases t, simp)

lemma PAlloc_Release_vmore: "PAlloc_Release p s = Some s' \<Longrightarrow> vmem.more s' = vmem.more s" for s :: "'a vmem_scheme"
  by (rule vmem_more) (rule PAlloc_Release_more)

text \<open>Page tables.\<close>

lemma for_each_vmore:
  fixes s :: "'a vmem_scheme"
  shows "for_each xs f s = Some s' \<Longrightarrow> (\<And>i s s'. f i s = Some s' \<Longrightarrow> vmem.more s' = vmem.more s) \<Longrightarrow> vmem.more s' = vmem.more s"
  by (rule for_each_more [of f vmem.more])

lemma destroy_l4_more: "destroy_l4 t i s = Some s' \<Longrightarrow> vmem.more s' = vmem.more s"
  by (auto simp: destroy_l4_def Let_def split: if_splits dest: PAlloc_Release_vmore)

lemma destroy_l3_more: "destroy_l3 t i s = Some s' \<Longrightarrow> vmem.more s' = vmem.more s"
  by (auto simp: destroy_l3_def Let_def bind_eq_Some_conv split: if_splits
      dest!: PAlloc_Release_vmore for_each_vmore [OF _ destroy_l4_more])

lemma destroy_l2_more: "destroy_l2 t i s = Some s' \<Longrightarrow> vmem.more s' = vmem.more s"
  by (auto simp: destroy_l2_def Let_def bind_eq_Some_conv split: if_splits
      dest!: PAlloc_Release_vmore for_each_vmore [OF _ destroy_l3_more])

lemma destroy_l1_more: "destroy_l1 t i s = Some s' \<Longrightarrow> vmem.more s' = vmem.more s"
  by (auto simp: destroy_l1_def Let_def bind_eq_Some_conv split: if_splits
      dest!: PAlloc_Release_vmore for_each_vmore [OF _ destroy_l2_more])

lemma PMap_DestroyAS_more: "PMap_DestroyAS a s = Some s' \<Longrightarrow> vmem.more s' = vmem.more s"
  by (auto simp: PMap_DestroyAS_def bind_eq_Some_conv dest!: PAlloc_Release_vmore for_each_vmore [OF _ destroy_l1_more])

lemma PMap_NewAS_more: "PMap_NewAS s = Some (a, s') \<Longrightarrow> vmem.more s' = vmem.more s"
proof -
  assume "PMap_NewAS s = Some (a, s')"
  then obtain a1 s1 r s2 s3 where 1: "PAlloc_AllocPage s = Some (a1, s1)" and 2: "PAlloc_AllocPage s1 = Some (r, s2)"
    and 3: "for_each [0..<PAGETABLE_ENTRIES div 2] (\<lambda>i s. Some (set_word (pte_addr (mem s a1) (of_nat i)) 0 s))
       (set_word (a1 + 16) 0 (set_word (a1 + 8) 1 (set_word a1 r s2))) = Some s3"
    and 4: "for_each [PAGETABLE_ENTRIES div 2..<PAGETABLE_ENTRIES]
       (\<lambda>i s. Some (set_word (pte_addr (mem s a1) (of_nat i)) (mem s (pte_addr (mem s (systemAS s)) (of_nat i))) s)) s3 = Some s'"
    by (auto simp: PMap_NewAS_def bind_eq_Some_conv Let_def)
  have "vmem.more s' = vmem.more s3" using 4 by (rule for_each_vmore) auto
  also have "\<dots> = vmem.more s2" using for_each_vmore [OF 3] by auto
  also have "\<dots> = vmem.more s" using PAlloc_AllocPage_more [OF 1] PAlloc_AllocPage_more [OF 2] by simp
  finally show ?thesis .
qed

lemma PMap_AllocMap_more: "PMap_AllocMap as va len fl s = Some s' \<Longrightarrow> vmem.more s' = vmem.more s"
proof -
  assume "PMap_AllocMap as va len fl s = Some s'"
  then have "for_each [0..<unat ((len + PGSIZE - 1) div PGSIZE)] (\<lambda>i s. do {
       off \<leftarrow> cint_mul 4096 (int i);
       (entry, s) \<leftarrow> PMapLookupEntry as (va + of_int off) PGSIZE s;
       if mem s entry AND PTE_P \<noteq> PTE_P then do {
         (pg, s) \<leftarrow> PAlloc_AllocPage s;
         Some (set_word entry (DMVA2PA pg OR PTE_P OR PTE_U OR fl) s)
       } else Some s
     }) s = Some s'"
    by (simp add: PMap_AllocMap_def Let_def)
  then show ?thesis
    by (rule for_each_vmore)
       (auto simp: bind_eq_Some_conv split: if_splits dest!: PMapLookupEntry_more PAlloc_AllocPage_more)
qed

text \<open>Regions and slabs.\<close>

lemma XMem_grow_more: "XMem_grow x off s = Some s' \<Longrightarrow> xmem.more s' = xmem.more s"
proof -
  assume "XMem_grow x off s = Some s'"
  then obtain pg s1 s2 where 1: "PAlloc_AllocPage s = Some (pg, s1)"
    and 2: "PMap_SystemMap (DMVA2PA pg) (base (regions s1 x) + off) 1 0 s1 = Some s2"
    and 3: "xmem.more s' = xmem.more s2"
    by (auto simp: XMem_grow_def bind_eq_Some_conv)
  from 2 obtain e s3 where e: "PMapLookupEntry (systemAS s1) (base (regions s1 x) + off) PGSIZE s1 = Some (e, s3)"
    and s2: "vmem.more s2 = vmem.more s3"
    by (auto simp: PMap_SystemMap_one bind_eq_Some_conv)
  have "vmem.more s2 = vmem.more s" using s2 PMapLookupEntry_more [OF e] PAlloc_AllocPage_more [OF 1] by simp
  then have "xmem.more s2 = xmem.more s" by (cases s2, cases s, simp)
  with 3 show ?thesis by simp
qed

lemma XMem_Allocate_loop_more: "XMem_Allocate_loop x off len s = Some s' \<Longrightarrow> xmem.more s' = xmem.more s"
  by (erule XMem_Allocate_loop.raw_induct [where P = "\<lambda>x off len s s'. xmem.more s' = xmem.more s"
         and xa = "(((x, off), len), s)", unfolded prod.case, rotated])
     (auto simp: bind_eq_Some_conv split: if_splits dest: XMem_grow_more)

lemma XMem_Allocate_more: "XMem_Allocate x len s = Some (b, s') \<Longrightarrow> xmem.more s' = xmem.more s"
  by (auto simp: XMem_Allocate_def bind_eq_Some_conv split: if_splits dest: XMem_Allocate_loop_more)

lemma kslabs_more: "xmem.more s = xmem.more t \<Longrightarrow> kslabs.more s = kslabs.more t" for s t :: "'a kslabs_scheme"
  by (cases s, cases t, simp)

lemma SlabExtend_more: "SlabExtend sl s = Some (r, sl', s') \<Longrightarrow> kslabs.more s' = kslabs.more s"
  by (rule kslabs_more)
     (auto simp: SlabExtend_def bind_eq_Some_conv Let_def split: if_splits dest: XMem_Allocate_more)

lemma Slab_Alloc_more: "Slab_Alloc sl s = Some (p, sl', s') \<Longrightarrow> kslabs.more s' = kslabs.more s"
  by (auto simp: Slab_Alloc_def bind_eq_Some_conv neq_Nil_conv split: if_splits list.splits dest: SlabExtend_more)

section \<open>Fields of the kernel state\<close>

lemma kbufs_fields:
  fixes s t :: "'a kbufs_scheme"
  assumes "kslabs.more s = kslabs.more t"
  shows "bmem s = bmem t" "entries s = entries t" "hashTable s = hashTable t" "lruList s = lruList t" "disks s = disks t"
    "platter s = platter t" "ticksPerSecond s = ticksPerSecond t"
  using assms by (cases s, cases t, simp)+

lemma kvfs_fields:
  fixes s t :: "'a kvfs_scheme"
  assumes "kslabs.more s = kslabs.more t"
  shows "vfss s = vfss t" "vnodes s = vnodes t" "rootFS s = rootFS t" "vnodeSlab s = vnodeSlab t" "vfsSlab s = vfsSlab t"
  using assms by (cases s, cases t, simp)+

lemma kern_fields:
  fixes s t :: "'a kern_scheme"
  assumes "kslabs.more s = kslabs.more t"
  shows "thrs s = thrs t" "procs s = procs t" "hdls s = hdls t" "runnableQueue s = runnableQueue t" "waitQueue s = waitQueue t"
    "curProc s = curProc t" "chans s = chans t" "semas s = semas t" "handleSlab s = handleSlab t" "threadSlab s = threadSlab t"
    "processList s = processList t" "tevents s = tevents t" "timerSlot s = timerSlot t" "timerNow s = timerNow t"
    "timerHead s = timerHead t" "processSlab s = processSlab t" "nextProcessID s = nextProcessID t"
  using assms by (cases s, cases t, simp)+

lemma kslabs_from_vmem: "vmem.more s = vmem.more t \<Longrightarrow> kslabs.more s = kslabs.more t" for s t :: "'a kslabs_scheme"
  by (cases s, cases t, simp)

lemma kslabs_from_kmem: "kmem.more s = kmem.more t \<Longrightarrow> kslabs.more s = kslabs.more t" for s t :: "'a kslabs_scheme"
  by (cases s, cases t, simp)

end
