(* ===== verification/Vfs.thy ===== *)
theory Vfs
  imports Frames
begin

text \<open>
  The virtual file system layer (\<^verbatim>\<open>sys/kern/vfs.c\<close>): mounting the root file system, the walk
  of \<^verbatim>\<open>VFS_Lookup\<close> along a path in memory and the dispatch to the file system.  O2FS is the
  only file system, so \<^verbatim>\<open>vn->op\<close> always points to its operations.
\<close>

section \<open>Definitions\<close>

definition sizeof_VFS :: u64 where "sizeof_VFS = 312"

definition sizeof_VNode :: u64 where "sizeof_VNode = 176"

text \<open>\<^verbatim>\<open>VFS_MountRoot\<close>; a failing \<^verbatim>\<open>getroot\<close> is a panic.\<close>

definition VFS_MountRoot :: "u64 \<Rightarrow> 'a kvfs_scheme \<Rightarrow> (int \<times> 'a kvfs_scheme) option" where
  "VFS_MountRoot rootDisk s = do {
     (vs, s) \<leftarrow> Slab_Init ''VFS Slab'' sizeof_VFS 16 s;
     (ns, s) \<leftarrow> Slab_Init ''VNode Slab'' sizeof_VNode 16 (s\<lparr>vfsSlab := vs\<rparr>);
     (fs, s) \<leftarrow> O2FS_Mount rootDisk (s\<lparr>vnodeSlab := ns\<rparr>);
     case fs of None \<Rightarrow> Some (- 1, s\<lparr>rootFS := 0\<rparr>)
     | Some fs \<Rightarrow> do {
         (status, dn, s) \<leftarrow> O2FS_GetRoot fs (s\<lparr>rootFS := fs\<rparr>);
         kassert (\<not> status < 0);
         Some (0, case dn of None \<Rightarrow> s | Some d \<Rightarrow> s\<lparr>rootNode := d\<rparr>)
       }
   }"

text \<open>The end of the path component that starts at \<open>p\<close>: the next slash or terminator.\<close>

partial_function (option) component_end :: "bytes \<Rightarrow> u64 \<Rightarrow> u64 option" where
  "component_end m p = (if m p \<noteq> 0 \<and> m p \<noteq> 47 then component_end m (p + 1) else Some p)"

definition bytes_at :: "bytes \<Rightarrow> u64 \<Rightarrow> nat \<Rightarrow> u8 list" where
  "bytes_at m a n = map (\<lambda>i. m (a + of_nat i)) [0..<n]"

text \<open>
  The loop of \<^verbatim>\<open>VFS_Lookup\<close>.  A component of exactly 256 characters passes the test, but its
  terminator is written behind the array \<^verbatim>\<open>curName\<close>.
\<close>

partial_function (option) VFS_Lookup_loop :: "u64 \<Rightarrow> u64 \<Rightarrow> 'a kvfs_scheme \<Rightarrow> (u64 \<times> 'a kvfs_scheme) option" where
  "VFS_Lookup_loop start curNode s =
     Option.bind (component_end (bmem s) start) (\<lambda>end.
       let len = end - start in
       if len = 0 then Some (curNode, s)
       else if 256 < len then Some (0, s)
       else Option.bind (kassert (len < 256 \<and> curNode \<noteq> 0)) (\<lambda>_.
         Option.bind (O2FS_Lookup curNode (bytes_at (bmem s) start (unat len)) s) (\<lambda>(status, fn, s).
           if status < 0 then Some (0, s)
           else let curNode = (case fn of None \<Rightarrow> 0 | Some v \<Rightarrow> v) in
             if bmem s end = 0 then Some (curNode, s)
             else VFS_Lookup_loop (end + 1) curNode s)))"

definition VFS_Lookup :: "u64 \<Rightarrow> 'a kvfs_scheme \<Rightarrow> (u64 \<times> 'a kvfs_scheme) option" where
  "VFS_Lookup path s =
     (if bmem s path \<noteq> 47 then Some (0, s)
      else do {
        (status, dn, s) \<leftarrow> O2FS_GetRoot (rootFS s) s;
        kassert (\<not> status < 0);
        curNode \<leftarrow> dn;
        VFS_Lookup_loop (path + 1) curNode s
      })"

definition VFS_Stat :: "u64 \<Rightarrow> 'a kvfs_scheme \<Rightarrow> (int \<times> stat option \<times> 'a kvfs_scheme) option" where
  "VFS_Stat path s = do {
     (vn, s) \<leftarrow> VFS_Lookup path s;
     if vn = 0 then Some (- ENOENT, None, s)
     else do { (status, sb) \<leftarrow> O2FS_Stat vn s; Some (0, Some sb, s) }
   }"

text \<open>The functions below dereference the node they get.\<close>

definition VFS_Open :: "u64 \<Rightarrow> 'a kvfs_scheme \<Rightarrow> int option" where
  "VFS_Open fn s = do { kassert (fn \<noteq> 0); Some (O2FS_Open fn s) }"

definition VFS_Close :: "u64 \<Rightarrow> 'a kvfs_scheme \<Rightarrow> int option" where
  "VFS_Close fn s = do { kassert (fn \<noteq> 0); Some (O2FS_Close fn s) }"

definition VFS_Read :: "u64 \<Rightarrow> u64 \<Rightarrow> u64 \<Rightarrow> u64 \<Rightarrow> 'a kvfs_scheme \<Rightarrow> (int \<times> 'a kvfs_scheme) option" where
  "VFS_Read fn buf off len s = do { kassert (fn \<noteq> 0); O2FS_Read fn buf off len s }"

definition VFS_Write :: "u64 \<Rightarrow> u64 \<Rightarrow> u64 \<Rightarrow> u64 \<Rightarrow> 'a kvfs_scheme \<Rightarrow> (int \<times> 'a kvfs_scheme) option" where
  "VFS_Write fn buf off len s = do { kassert (fn \<noteq> 0); O2FS_Write fn buf off len s }"

text \<open>\<open>dent\<close> and \<open>de\<close> are the stack addresses of the local structures of \<^verbatim>\<open>O2FS_ReadDir\<close>.\<close>

definition VFS_ReadDir ::
  "u64 \<Rightarrow> u64 \<Rightarrow> u64 \<Rightarrow> u64 \<Rightarrow> u64 \<Rightarrow> u64 \<Rightarrow> 'a kvfs_scheme \<Rightarrow> (int \<times> u64 \<times> 'a kvfs_scheme) option" where
  "VFS_ReadDir dent de fn buf len off s = do { kassert (fn \<noteq> 0); O2FS_ReadDir dent de fn buf len off s }"

end
