(* ===== verification/Sched.thy ===== *)
theory Sched
  imports Vfs
begin

text \<open>
  The scheduler (\<^verbatim>\<open>sys/kern/sched.c\<close>), the thread switch (\<^verbatim>\<open>sys/amd64/thread.c\<close>,
  \<^verbatim>\<open>sys/amd64/switch.S\<close>) and the sleeping locks it calls (\<^verbatim>\<open>sys/kern/waitchannel.c\<close>,
  \<^verbatim>\<open>mutex.c\<close>, \<^verbatim>\<open>cv.c\<close>).  A thread is linked into a queue through one pair of pointers, so
  queueing a thread that is already in one of the scheduler's queues destroys that queue;
  such a call is undefined here.
\<close>

section \<open>Thread switch\<close>

definition Thread_InitArch :: "u64 \<Rightarrow> 'a kern_scheme \<Rightarrow> 'a kern_scheme" where
  "Thread_InitArch thr = upd_thr thr (useFP_update (\<lambda>_. True))"

definition SEL_KCS :: u64 where "SEL_KCS = 0x08"

definition SEL_UCS :: u64 where "SEL_UCS = 0x30"

definition SEL_UDS :: u64 where "SEL_UDS = 0x38"

definition RFLAGS_IF :: u64 where "RFLAGS_IF = 0x200"

definition sizeof_TrapFrame :: u64 where "sizeof_TrapFrame = 184"

definition sizeof_ThreadArchStackFrame :: u64 where "sizeof_ThreadArchStackFrame = 64"

definition Thread_SetupKThread :: "u64 \<Rightarrow> code \<Rightarrow> u64 \<Rightarrow> u64 \<Rightarrow> u64 \<Rightarrow> 'a kern_scheme \<Rightarrow> 'a kern_scheme" where
  "Thread_SetupKThread thr f arg1 arg2 arg3 s =
     (let stacktop = kstack (thrs s thr) + PGSIZE;
          tf = stacktop - sizeof_TrapFrame;
          sf = stacktop - sizeof_TrapFrame - sizeof_ThreadArchStackFrame
      in (upd_thr thr (t_rsp_update (\<lambda>_. sf)) s)
           \<lparr>sframes := (sframes s)(sf :=
              \<lparr>sf_r15 = 0, sf_r14 = 0, sf_r13 = 0, sf_r12 = 0, sf_rbx = 0, sf_rdi = tf, sf_rbp = 0,
               sf_rip = KernelCode ''ThreadKThreadEntry''\<rparr>),
            tframes := (tframes s)(tf :=
              \<lparr>tf_rdi = arg1, tf_rsi = arg2, tf_rdx = arg3, tf_ds = 0, tf_rip = f, tf_cs = SEL_KCS,
               tf_rflags = RFLAGS_IF, tf_rsp = stacktop, tf_ss = 0\<rparr>)\<rparr>)"

definition Thread_SetupUThread :: "u64 \<Rightarrow> u64 \<Rightarrow> u64 \<Rightarrow> 'a kern_scheme \<Rightarrow> 'a kern_scheme" where
  "Thread_SetupUThread thr rip arg s =
     Thread_SetupKThread thr (KernelCode ''ThreadEnterUserLevelCB'') rip (ustack (thrs s thr)) arg s"

text \<open>The trap frame with which \<^verbatim>\<open>ThreadEnterUserLevelCB\<close> enters user level.\<close>

definition ThreadEnterUserLevelCB :: "u64 \<Rightarrow> u64 \<Rightarrow> u64 \<Rightarrow> TrapFrame" where
  "ThreadEnterUserLevelCB arg1 arg2 arg3 =
     \<lparr>tf_rdi = arg3, tf_rsi = 0, tf_rdx = 0, tf_ds = SEL_UDS OR 3, tf_rip = UserCode arg1, tf_cs = SEL_UCS OR 3,
      tf_rflags = RFLAGS_IF, tf_rsp = arg2 + MEM_USERSPACE_STKLEN - PGSIZE, tf_ss = SEL_UDS OR 3\<rparr>"

text \<open>
  \<^verbatim>\<open>switchstack\<close>: the callee saved registers are pushed below the return address of the old
  stack and popped from the new one.
\<close>

definition switchstack :: "nat \<Rightarrow> u64 \<Rightarrow> u64 \<Rightarrow> 'a kern_scheme \<Rightarrow> 'a kern_scheme" where
  "switchstack cpu oldthr newrsp s =
     (let sp = cpu_rsp s cpu - 56;
          frames = (sframes s)(sp := cregs s cpu)
      in (upd_thr oldthr (t_rsp_update (\<lambda>_. sp)) s)
           \<lparr>sframes := frames, cregs := (cregs s)(cpu := frames newrsp), cpu_rsp := (cpu_rsp s)(cpu := newrsp + 64)\<rparr>)"

text \<open>
  The assignment to \<^verbatim>\<open>TSS[CPU()].rsp0\<close> runs on the new stack: \<^verbatim>\<open>oldthr\<close> is there the thread
  that left the CPU by the same call, which is the new current thread.  A thread that runs for
  the first time sets the same value in \<^verbatim>\<open>ThreadKThreadEntry\<close>.
\<close>

definition Thread_SwitchArch :: "nat \<Rightarrow> u64 \<Rightarrow> u64 \<Rightarrow> 'a kern_scheme \<Rightarrow> 'a kern_scheme" where
  "Thread_SwitchArch cpu oldthr newthr s =
     (let s = (if useFP (thrs s oldthr) then upd_thr oldthr (xsa_update (\<lambda>_. fpu s cpu)) s else s);
          s = (if useFP (thrs s newthr) then s\<lparr>fpu := (fpu s)(cpu := xsa (thrs s newthr))\<rparr> else s);
          s = switchstack cpu oldthr (t_rsp (thrs s newthr)) s
      in s\<lparr>rsp0 := (rsp0 s)(cpu := kstack (thrs s newthr) + 4096)\<rparr>)"

definition ThreadKThreadEntry :: "nat \<Rightarrow> 'a kern_scheme \<Rightarrow> 'a kern_scheme" where
  "ThreadKThreadEntry cpu s = s\<lparr>rsp0 := (rsp0 s)(cpu := kstack (thrs s (curProc s cpu)) + 4096)\<rparr>"

section \<open>Wait channels, mutexes and condition variables\<close>

definition WAITCHANNEL_NAMELEN :: nat where "WAITCHANNEL_NAMELEN = 32"

definition WaitChannel_Init :: "chanptr \<Rightarrow> string \<Rightarrow> 'a kern_scheme \<Rightarrow> 'a kern_scheme" where
  "WaitChannel_Init wchan name s =
     s\<lparr>chans := (chans s)(wchan := \<lparr>wc_name = take WAITCHANNEL_NAMELEN name, chanQueue = []\<rparr>),
       chanList := wchan # chanList s\<rparr>"

definition WaitChannel_Destroy :: "chanptr \<Rightarrow> 'a kern_scheme \<Rightarrow> 'a kern_scheme option" where
  "WaitChannel_Destroy wchan s = do {
     kassert (chanQueue (chans s wchan) = []);
     l \<leftarrow> unlink wchan (chanList s);
     Some (s\<lparr>chanList := l\<rparr>)
   }"

definition Mutex_Init :: "mutexptr \<Rightarrow> string \<Rightarrow> 'a kern_scheme \<Rightarrow> 'a kern_scheme" where
  "Mutex_Init mtx name = WaitChannel_Init (MutexChan mtx) name"

definition Mutex_Destroy :: "mutexptr \<Rightarrow> 'a kern_scheme \<Rightarrow> 'a kern_scheme option" where
  "Mutex_Destroy mtx = WaitChannel_Destroy (MutexChan mtx)"

text \<open>\<^verbatim>\<open>Mutex_Lock\<close> and its companions are not filled in: they neither block nor record an owner.\<close>

definition Mutex_Lock :: "nat \<Rightarrow> mutexptr \<Rightarrow> 'a kern_scheme \<Rightarrow> 'a kern_scheme option" where
  "Mutex_Lock cpu mtx s = do { kassert (critical s cpu = 0); Some s }"

definition Mutex_TryLock :: "mutexptr \<Rightarrow> 'a kern_scheme \<Rightarrow> int \<times> 'a kern_scheme" where
  "Mutex_TryLock mtx s = (0, s)"

definition Mutex_Unlock :: "mutexptr \<Rightarrow> 'a kern_scheme \<Rightarrow> 'a kern_scheme" where
  "Mutex_Unlock mtx s = s"

definition CV_Init :: "cvptr \<Rightarrow> string \<Rightarrow> 'a kern_scheme \<Rightarrow> 'a kern_scheme" where
  "CV_Init cv name = WaitChannel_Init (CVChan cv) name"

definition CV_Destroy :: "cvptr \<Rightarrow> 'a kern_scheme \<Rightarrow> 'a kern_scheme option" where
  "CV_Destroy cv = WaitChannel_Destroy (CVChan cv)"

definition CV_Wait :: "nat \<Rightarrow> cvptr \<Rightarrow> mutexptr \<Rightarrow> 'a kern_scheme \<Rightarrow> 'a kern_scheme option" where
  "CV_Wait cpu cv mtx s = do { kassert (critical s cpu = 0); Some s }"

definition CV_Signal :: "cvptr \<Rightarrow> 'a kern_scheme \<Rightarrow> 'a kern_scheme" where
  "CV_Signal cv s = s"

definition CV_Broadcast :: "cvptr \<Rightarrow> 'a kern_scheme \<Rightarrow> 'a kern_scheme" where
  "CV_Broadcast cv s = s"

section \<open>Scheduler\<close>

definition Thread_Retain :: "u64 \<Rightarrow> 'a kern_scheme \<Rightarrow> 'a kern_scheme option" where
  "Thread_Retain thr s = do {
     kassert (t_refCount (thrs s thr) \<noteq> 0);
     Some (upd_thr thr (t_refCount_update (\<lambda>c. c + 1)) s)
   }"

definition Sched_Current :: "nat \<Rightarrow> 'a kern_scheme \<Rightarrow> (u64 \<times> 'a kern_scheme) option" where
  "Sched_Current cpu s = do {
     let thr = curProc s cpu;
     kassert (thr \<noteq> 0);
     s \<leftarrow> Thread_Retain thr s;
     Some (thr, s)
   }"

definition linked :: "u64 \<Rightarrow> 'a kern_scheme \<Rightarrow> bool" where
  "linked thr s \<longleftrightarrow> thr \<in> set (waitQueue s) \<or> thr \<in> set (runnableQueue s)"

definition Sched_SetRunnable :: "u64 \<Rightarrow> 'a kern_scheme \<Rightarrow> 'a kern_scheme option" where
  "Sched_SetRunnable thr s = do {
     kassert (thr \<noteq> 0);
     let p = t_proc (thrs s thr);
     let s = (if p_procState (procs s p) = PROC_STATE_NULL
              then upd_proc p (p_procState_update (\<lambda>_. PROC_STATE_READY)) s else s);
     s \<leftarrow> (if t_schedState (thrs s thr) = SCHED_STATE_WAITING
           then do {
             now \<leftarrow> KTime_GetEpochNS s;
             q \<leftarrow> unlink thr (waitQueue s);
             Some ((upd_thr thr (\<lambda>t. t\<lparr>t_waitTime := t_waitTime t + (now - t_waitStart t), t_waitStart := 0\<rparr>) s)
                     \<lparr>waitQueue := q\<rparr>)
           }
           else Some s);
     kassert (\<not> linked thr s);
     Some ((upd_thr thr (t_schedState_update (\<lambda>_. SCHED_STATE_RUNNABLE)) s)
             \<lparr>runnableQueue := runnableQueue s @ [thr]\<rparr>)
   }"

definition Sched_SetWaiting :: "u64 \<Rightarrow> 'a kern_scheme \<Rightarrow> 'a kern_scheme option" where
  "Sched_SetWaiting thr s = do {
     kassert (t_schedState (thrs s thr) = SCHED_STATE_RUNNING);
     kassert (\<not> linked thr s);
     now \<leftarrow> KTime_GetEpochNS s;
     Some ((upd_thr thr (\<lambda>t. t\<lparr>t_schedState := SCHED_STATE_WAITING, t_waitStart := now\<rparr>) s)
             \<lparr>waitQueue := waitQueue s @ [thr]\<rparr>)
   }"

definition Sched_SetZombie :: "nat \<Rightarrow> u64 \<Rightarrow> 'a kern_scheme \<Rightarrow> 'a kern_scheme option" where
  "Sched_SetZombie cpu thr s = do {
     let p = t_proc (thrs s thr);
     kassert (critical s cpu = 0);
     let last = (p_threads (procs s p) = 1);
     let par = parent (procs s p);
     s \<leftarrow> (if last
           then do {
             kassert (par \<noteq> 0);
             s \<leftarrow> Mutex_Lock cpu (zombieProcLock par) s;
             let s = upd_proc p (p_procState_update (\<lambda>_. PROC_STATE_ZOMBIE)) s;
             ch \<leftarrow> unlink p (childrenList (procs s par));
             let s = upd_proc par (\<lambda>q. q\<lparr>childrenList := ch, zombieProc := zombieProc q @ [p]\<rparr>) s;
             Some (CV_Signal (zombieProcCV par) (CV_Signal (zombieProcPCV p) s))
           }
           else Some s);
     let s = upd_thr thr (t_schedState_update (\<lambda>_. SCHED_STATE_ZOMBIE)) s;
     kassert (\<not> linked thr s);
     let s = upd_proc p (\<lambda>q. q\<lparr>zombieQueue := zombieQueue q @ [thr]\<rparr>) s;
     Some (if last then Mutex_Unlock (zombieProcLock par) s else s)
   }"

definition Sched_Switch :: "nat \<Rightarrow> u64 \<Rightarrow> u64 \<Rightarrow> 'a kern_scheme \<Rightarrow> 'a kern_scheme" where
  "Sched_Switch cpu oldthr newthr s =
     Thread_SwitchArch cpu oldthr newthr (PMap_LoadAS cpu (t_space (thrs s newthr)) s)"

text \<open>
  \<^verbatim>\<open>Sched_Scheduler\<close> up to the point where the CPU runs the next thread; the caller of
  \<^verbatim>\<open>Sched_Scheduler\<close> continues when its thread is switched to again.
\<close>

definition Sched_Scheduler :: "nat \<Rightarrow> 'a kern_scheme \<Rightarrow> 'a kern_scheme option" where
  "Sched_Scheduler cpu s =
     (case runnableQueue s of
        [] \<Rightarrow> do {
          kassert (curProc s cpu \<noteq> 0 \<and> t_schedState (thrs s (curProc s cpu)) = SCHED_STATE_RUNNING);
          Some s
        }
      | nxt # rest \<Rightarrow> do {
          kassert (t_schedState (thrs s nxt) = SCHED_STATE_RUNNABLE);
          let prev = curProc s cpu;
          kassert (prev \<noteq> 0);
          let s = (upd_thr nxt (\<lambda>t. t\<lparr>t_schedState := SCHED_STATE_RUNNING, ctxSwitches := ctxSwitches t + 1\<rparr>) s)
                    \<lparr>runnableQueue := rest, curProc := (curProc s)(cpu := nxt)\<rparr>;
          s \<leftarrow> (if t_schedState (thrs s prev) = SCHED_STATE_RUNNING
                then do {
                  kassert (\<not> linked prev s);
                  Some ((upd_thr prev (t_schedState_update (\<lambda>_. SCHED_STATE_RUNNABLE)) s)
                          \<lparr>runnableQueue := runnableQueue s @ [prev]\<rparr>)
                }
                else Some s);
          Some (Sched_Switch cpu prev nxt s)
        })"

text \<open>
  \<^verbatim>\<open>WaitChannel_Sleep\<close>: \<open>WaitChannel_Enqueue\<close> is the part under the lock of the channel.
\<close>

definition WaitChannel_Enqueue :: "nat \<Rightarrow> chanptr \<Rightarrow> 'a kern_scheme \<Rightarrow> 'a kern_scheme option" where
  "WaitChannel_Enqueue cpu wchan s = do {
     (thr, s) \<leftarrow> Sched_Current cpu s;
     s \<leftarrow> Sched_SetWaiting thr s;
     Some (s\<lparr>chans := (chans s)(wchan := (chans s wchan)\<lparr>chanQueue := chanQueue (chans s wchan) @ [thr]\<rparr>)\<rparr>)
   }"

definition WaitChannel_Sleep :: "nat \<Rightarrow> chanptr \<Rightarrow> 'a kern_scheme \<Rightarrow> 'a kern_scheme option" where
  "WaitChannel_Sleep cpu wchan s = do { s \<leftarrow> WaitChannel_Enqueue cpu wchan s; Sched_Scheduler cpu s }"

section \<open>The scheduler's view of the state\<close>

definition st :: "'a kern_scheme \<Rightarrow> u64 \<Rightarrow> schedState" where
  "st s t = t_schedState (thrs s t)"

text \<open>
  The invariant, for the set \<open>C\<close> of CPUs that run threads: the runnable threads are those in the
  run queue, the waiting threads those in the wait queue, each queued once, and the running
  threads are the current threads of the CPUs, a different one for each.
\<close>

definition sched_inv :: "nat set \<Rightarrow> 'a kern_scheme \<Rightarrow> bool" where
  "sched_inv C s \<longleftrightarrow>
     distinct (runnableQueue s) \<and> distinct (waitQueue s) \<and> inj_on (curProc s) C \<and>
     (\<forall>t. t \<in> set (runnableQueue s) \<longleftrightarrow> st s t = SCHED_STATE_RUNNABLE) \<and>
     (\<forall>t. t \<in> set (waitQueue s) \<longleftrightarrow> st s t = SCHED_STATE_WAITING) \<and>
     (\<forall>t. t \<in> curProc s ` C \<longleftrightarrow> st s t = SCHED_STATE_RUNNING) \<and>
     st s 0 = SCHED_STATE_NULL"

lemma sched_invD:
  assumes "sched_inv C s"
  shows "distinct (runnableQueue s)" "distinct (waitQueue s)" "inj_on (curProc s) C"
    "t \<in> set (runnableQueue s) \<longleftrightarrow> st s t = SCHED_STATE_RUNNABLE"
    "t \<in> set (waitQueue s) \<longleftrightarrow> st s t = SCHED_STATE_WAITING"
    "t \<in> curProc s ` C \<longleftrightarrow> st s t = SCHED_STATE_RUNNING"
    "st s 0 = SCHED_STATE_NULL"
  using assms by (auto simp: sched_inv_def)

lemma sched_inv_current:
  assumes "sched_inv C s" and "c \<in> C"
  shows "st s (curProc s c) = SCHED_STATE_RUNNING" and "curProc s c \<noteq> 0" and "\<not> linked (curProc s c) s"
proof -
  show r: "st s (curProc s c) = SCHED_STATE_RUNNING" using assms sched_invD(6) [OF assms(1)] by blast
  then show "curProc s c \<noteq> 0" using sched_invD(7) [OF assms(1)] by auto
  show "\<not> linked (curProc s c) s" using r sched_invD(4,5) [OF assms(1)] by (auto simp: linked_def)
qed

lemma sched_inv_cong:
  assumes "runnableQueue s' = runnableQueue s" "waitQueue s' = waitQueue s" "curProc s' = curProc s" "st s' = st s"
  shows "sched_inv C s' = sched_inv C s"
  unfolding sched_inv_def assms ..

text \<open>What the parts of the operations that are not about the queues leave alone.\<close>

lemma st_upd_thr [simp]: "(\<And>t. t_schedState (f t) = t_schedState t) \<Longrightarrow> st (upd_thr x f s) = st s"
  by (simp add: st_def upd_thr_def fun_eq_iff)

lemma upd_simps [simp]:
  "thrs (upd_thr x f s) = (thrs s)(x := f (thrs s x))" "runnableQueue (upd_thr x f s) = runnableQueue s"
  "waitQueue (upd_thr x f s) = waitQueue s" "curProc (upd_thr x f s) = curProc s" "procs (upd_thr x f s) = procs s"
  "chans (upd_thr x f s) = chans s" "critical (upd_thr x f s) = critical s" "ticksPerSecond (upd_thr x f s) = ticksPerSecond s"
  "linked t (upd_thr x f s) = linked t s" "KTime_GetEpochNS (upd_thr x f s) = KTime_GetEpochNS s"
  "procs (upd_proc p g s) = (procs s)(p := g (procs s p))" "runnableQueue (upd_proc p g s) = runnableQueue s"
  "waitQueue (upd_proc p g s) = waitQueue s" "curProc (upd_proc p g s) = curProc s" "thrs (upd_proc p g s) = thrs s"
  "chans (upd_proc p g s) = chans s" "critical (upd_proc p g s) = critical s" "ticksPerSecond (upd_proc p g s) = ticksPerSecond s"
  "linked t (upd_proc p g s) = linked t s" "KTime_GetEpochNS (upd_proc p g s) = KTime_GetEpochNS s" "st (upd_proc p g s) = st s"
  by (simp_all add: upd_thr_def upd_proc_def linked_def st_def KTime_GetEpochNS_def fun_eq_iff)

lemma Sched_Switch_simps [simp]:
  "runnableQueue (Sched_Switch c a b s) = runnableQueue s" "waitQueue (Sched_Switch c a b s) = waitQueue s"
  "curProc (Sched_Switch c a b s) = curProc s" "st (Sched_Switch c a b s) = st s" "procs (Sched_Switch c a b s) = procs s"
  "chans (Sched_Switch c a b s) = chans s" "critical (Sched_Switch c a b s) = critical s"
  "ticksPerSecond (Sched_Switch c a b s) = ticksPerSecond s"
  "t_refCount (thrs (Sched_Switch c a b s) x) = t_refCount (thrs s x)"
  "t_space (thrs (Sched_Switch c a b s) x) = t_space (thrs s x)" "kstack (thrs (Sched_Switch c a b s) x) = kstack (thrs s x)"
  by (simp_all add: Sched_Switch_def Thread_SwitchArch_def switchstack_def PMap_LoadAS_def Let_def st_def fun_eq_iff)

lemma KTime_Some: "ticksPerSecond s \<noteq> 0 \<Longrightarrow> \<exists>now. KTime_GetEpochNS s = Some now"
  by (simp add: KTime_GetEpochNS_def)

section \<open>The operations on the queues\<close>

lemma Sched_Scheduler_empty:
  assumes "sched_inv C s" and "c \<in> C" and "runnableQueue s = []"
  shows "Sched_Scheduler c s = Some s"
  using sched_inv_current [OF assms(1,2)] assms(3) by (simp add: Sched_Scheduler_def st_def)

text \<open>A switch to the head of the queue.\<close>

lemma Sched_Scheduler_switch:
  assumes q: "runnableQueue s = nxt # rest" and "st s nxt = SCHED_STATE_RUNNABLE" and "curProc s c \<noteq> 0"
    and "distinct (runnableQueue s)" and "curProc s c \<noteq> nxt"
    and prev: "st s (curProc s c) = SCHED_STATE_RUNNING \<Longrightarrow> \<not> linked (curProc s c) s"
  obtains s' where "Sched_Scheduler c s = Some s'" and "curProc s' = (curProc s)(c := nxt)" and "waitQueue s' = waitQueue s"
    and "runnableQueue s' = rest @ (if st s (curProc s c) = SCHED_STATE_RUNNING then [curProc s c] else [])"
    and "st s' = (st s)(nxt := SCHED_STATE_RUNNING,
           curProc s c := if st s (curProc s c) = SCHED_STATE_RUNNING then SCHED_STATE_RUNNABLE else st s (curProc s c))"
    and "procs s' = procs s" and "chans s' = chans s" and "critical s' = critical s" and "ticksPerSecond s' = ticksPerSecond s"
    and "\<And>t. t_refCount (thrs s' t) = t_refCount (thrs s t)"
proof -
  let ?p = "curProc s c"
  let ?s1 = "(upd_thr nxt (\<lambda>t. t\<lparr>t_schedState := SCHED_STATE_RUNNING, ctxSwitches := ctxSwitches t + 1\<rparr>) s)
               \<lparr>runnableQueue := rest, curProc := (curProc s)(c := nxt)\<rparr>"
  let ?s2 = "if st s ?p = SCHED_STATE_RUNNING
     then (upd_thr ?p (t_schedState_update (\<lambda>_. SCHED_STATE_RUNNABLE)) ?s1)\<lparr>runnableQueue := rest @ [?p]\<rparr> else ?s1"
  have "st s ?p = SCHED_STATE_RUNNING \<Longrightarrow> \<not> linked ?p ?s1" using prev q by (auto simp: linked_def)
  then have "Sched_Scheduler c s = Some (Sched_Switch c ?p nxt ?s2)"
    using assms(2,3,5) q by (simp add: Sched_Scheduler_def st_def Let_def)
  then show thesis
    by (rule that) (use assms(5) in \<open>auto simp: st_def fun_eq_iff\<close>)
qed

lemma sched_inv_nxt:
  assumes "sched_inv C s" and "runnableQueue s = nxt # rest"
  shows "st s nxt = SCHED_STATE_RUNNABLE" "distinct (nxt # rest)"
  using sched_invD(1,4) [OF assms(1)] assms(2) by (metis list.set_intros(1), simp)

text \<open>
  Once the current thread of a CPU has been moved to another state, switching to the head of
  the run queue restores the invariant.  \<open>sched_left C c s\<close> is the invariant in between: the
  CPU \<open>c\<close> still points to a thread that is no longer running.
\<close>

definition sched_left :: "nat set \<Rightarrow> nat \<Rightarrow> 'a kern_scheme \<Rightarrow> bool" where
  "sched_left C c s \<longleftrightarrow> sched_inv (C - {c}) s \<and> c \<in> C \<and> curProc s c \<noteq> 0 \<and>
     curProc s c \<notin> curProc s ` (C - {c}) \<and> st s (curProc s c) \<notin> {SCHED_STATE_RUNNING, SCHED_STATE_RUNNABLE}"

lemma Sched_Scheduler_left:
  assumes "sched_left C c s" and "runnableQueue s \<noteq> []"
  shows "\<exists>s'. Sched_Scheduler c s = Some s' \<and> sched_inv C s'"
proof -
  obtain nxt rest where q: "runnableQueue s = nxt # rest" using assms(2) by (cases "runnableQueue s") auto
  note L = assms(1) [unfolded sched_left_def]
  then have i: "sched_inv (C - {c}) s" and c: "c \<in> C" by blast+
  note I = sched_invD [OF i] and n = sched_inv_nxt [OF i q]
  have ne: "curProc s c \<noteq> nxt" using L n(1) by auto
  obtain s' where s': "Sched_Scheduler c s = Some s'" "curProc s' = (curProc s)(c := nxt)" "waitQueue s' = waitQueue s"
      "runnableQueue s' = rest" "st s' = (st s)(nxt := SCHED_STATE_RUNNING)"
    by (rule Sched_Scheduler_switch [OF q n(1) _ I(1) ne]) (use L ne in \<open>auto simp: fun_upd_idem_iff\<close>)
  have nc: "nxt \<notin> curProc s ` (C - {c})" using I(6) [of nxt] n(1) by simp
  have "sched_inv C s'"
    unfolding sched_inv_def s'(2-5)
  proof (intro conjI allI)
    show "distinct rest" "distinct (waitQueue s)" using n(2) I(2) by simp_all
    have "inj_on (curProc s) (C - {c})" by (rule I(3))
    then have "inj_on ((curProc s)(c := nxt)) (insert c (C - {c}))"
      using nc by (subst inj_on_insert) (auto intro: inj_on_fun_updI)
    then show "inj_on ((curProc s)(c := nxt)) C" using c by (simp add: insert_absorb)
    show "t \<in> set rest \<longleftrightarrow> ((st s)(nxt := SCHED_STATE_RUNNING)) t = SCHED_STATE_RUNNABLE" for t
      using I(4) [of t] n(2) q by auto
    show "t \<in> set (waitQueue s) \<longleftrightarrow> ((st s)(nxt := SCHED_STATE_RUNNING)) t = SCHED_STATE_WAITING" for t
      using I(5) [of t] n(1) by auto
    have "(curProc s)(c := nxt) ` C = insert nxt (curProc s ` (C - {c}))" using c by auto
    then show "t \<in> (curProc s)(c := nxt) ` C \<longleftrightarrow> ((st s)(nxt := SCHED_STATE_RUNNING)) t = SCHED_STATE_RUNNING" for t
      using I(6) [of t] by auto
    show "((st s)(nxt := SCHED_STATE_RUNNING)) 0 = SCHED_STATE_NULL" using I(7) n(1) by auto
  qed
  with s'(1) show ?thesis by blast
qed

text \<open>A switch away from a running thread, which is queued at the end.\<close>

lemma Sched_Scheduler_yield:
  assumes i: "sched_inv C s" and c: "c \<in> C" and q: "runnableQueue s = nxt # rest"
  obtains s' where "Sched_Scheduler c s = Some s'" and "sched_inv C s'" and "curProc s' = (curProc s)(c := nxt)"
    and "runnableQueue s' = rest @ [curProc s c]" and "waitQueue s' = waitQueue s"
    and "procs s' = procs s" and "\<And>t. t_refCount (thrs s' t) = t_refCount (thrs s t)"
proof -
  let ?p = "curProc s c"
  note I = sched_invD [OF i] and n = sched_inv_nxt [OF i q] and p = sched_inv_current [OF i c]
  have ne: "?p \<noteq> nxt" using p(1) n(1) by auto
  obtain s' where s': "Sched_Scheduler c s = Some s'" "curProc s' = (curProc s)(c := nxt)" "waitQueue s' = waitQueue s"
      "runnableQueue s' = rest @ [?p]" "st s' = (st s)(nxt := SCHED_STATE_RUNNING, ?p := SCHED_STATE_RUNNABLE)"
      "procs s' = procs s" "\<And>t. t_refCount (thrs s' t) = t_refCount (thrs s t)"
    by (rule Sched_Scheduler_switch [OF q n(1) p(2) I(1) ne p(3)]) (use p(1) in auto)
  have nc: "nxt \<notin> curProc s ` C" using I(6) [of nxt] n(1) by simp
  have "sched_inv C s'"
    unfolding sched_inv_def s'(2-5)
  proof (intro conjI allI)
    have pr: "?p \<notin> set (runnableQueue s)" using p(3) by (simp add: linked_def)
    show "distinct (rest @ [?p])" "distinct (waitQueue s)" using n(2) I(2) pr q by simp_all
    show "inj_on ((curProc s)(c := nxt)) C" using I(3) nc by (auto intro: inj_on_fun_updI)
    show "t \<in> set (rest @ [?p]) \<longleftrightarrow> ((st s)(nxt := SCHED_STATE_RUNNING, ?p := SCHED_STATE_RUNNABLE)) t = SCHED_STATE_RUNNABLE" for t
      using I(4) [of t] n(2) q ne by auto
    show "t \<in> set (waitQueue s) \<longleftrightarrow> ((st s)(nxt := SCHED_STATE_RUNNING, ?p := SCHED_STATE_RUNNABLE)) t = SCHED_STATE_WAITING" for t
      using I(5) [of t] n(1) p(1) by auto
    have "(curProc s)(c := nxt) ` C = insert nxt (curProc s ` (C - {c}))" using c by auto
    moreover have "t \<in> curProc s ` (C - {c}) \<longleftrightarrow> t \<in> curProc s ` C \<and> t \<noteq> ?p" for t
      using I(3) c by (auto simp: inj_on_def)
    ultimately show "t \<in> (curProc s)(c := nxt) ` C \<longleftrightarrow>
        ((st s)(nxt := SCHED_STATE_RUNNING, ?p := SCHED_STATE_RUNNABLE)) t = SCHED_STATE_RUNNING" for t
      using I(6) [of t] ne by auto
    show "((st s)(nxt := SCHED_STATE_RUNNING, ?p := SCHED_STATE_RUNNABLE)) 0 = SCHED_STATE_NULL" using I(7) n(1) p(2) by auto
  qed
  with that s' show thesis by blast
qed

text \<open>Moving the current thread of a CPU out of the running state.\<close>

lemma sched_left_intro:
  assumes i: "sched_inv C s" and c: "c \<in> C" and cur: "curProc s' = curProc s" and rq: "runnableQueue s' = runnableQueue s"
    and wq: "waitQueue s' = waitQueue s @ (if x = SCHED_STATE_WAITING then [curProc s c] else [])"
    and x: "x = SCHED_STATE_WAITING \<or> x = SCHED_STATE_ZOMBIE" and st: "st s' = (st s)(curProc s c := x)"
  shows "sched_left C c s'"
proof -
  let ?p = "curProc s c"
  note I = sched_invD [OF i] and p = sched_inv_current [OF i c]
  have rest: "t \<in> curProc s ` (C - {c}) \<longleftrightarrow> t \<in> curProc s ` C \<and> t \<noteq> ?p" for t
    using I(3) c by (auto simp: inj_on_def)
  have "sched_inv (C - {c}) s'"
    unfolding sched_inv_def cur rq wq st
  proof (intro conjI allI)
    show "distinct (runnableQueue s)" by (rule I(1))
    show "distinct (waitQueue s @ (if x = SCHED_STATE_WAITING then [?p] else []))" using I(2) p(3) by (simp add: linked_def)
    show "inj_on (curProc s) (C - {c})" using I(3) by (rule inj_on_subset) blast
    show "t \<in> set (runnableQueue s) \<longleftrightarrow> ((st s)(?p := x)) t = SCHED_STATE_RUNNABLE" for t
      using I(4) [of t] x p(1) by auto
    show "t \<in> set (waitQueue s @ (if x = SCHED_STATE_WAITING then [?p] else [])) \<longleftrightarrow> ((st s)(?p := x)) t = SCHED_STATE_WAITING" for t
      using I(5) [of t] x p(1) by auto
    show "t \<in> curProc s ` (C - {c}) \<longleftrightarrow> ((st s)(?p := x)) t = SCHED_STATE_RUNNING" for t
      unfolding rest using I(6) [of t] x by auto
    show "((st s)(?p := x)) 0 = SCHED_STATE_NULL" using I(7) p(2) by simp
  qed
  then show ?thesis using c p(2) x rest [of ?p] by (auto simp: sched_left_def cur st)
qed

text \<open>The part of \<^verbatim>\<open>WaitChannel_Sleep\<close> and of \<^verbatim>\<open>Syscall_Exit\<close> before the switch.\<close>

lemma Sched_SetWaiting_view:
  assumes "st s t = SCHED_STATE_RUNNING" and "\<not> linked t s" and "ticksPerSecond s \<noteq> 0"
  obtains s' where "Sched_SetWaiting t s = Some s'" "curProc s' = curProc s" "runnableQueue s' = runnableQueue s"
    "waitQueue s' = waitQueue s @ [t]" "st s' = (st s)(t := SCHED_STATE_WAITING)" "chans s' = chans s" "semas s' = semas s"
    "procs s' = procs s" "ticksPerSecond s' = ticksPerSecond s" "\<And>x. t_refCount (thrs s' x) = t_refCount (thrs s x)"
    "\<And>x. t_proc (thrs s' x) = t_proc (thrs s x)"
proof -
  obtain now where "KTime_GetEpochNS s = Some now" using KTime_Some [OF assms(3)] by blast
  then have "Sched_SetWaiting t s = Some ((upd_thr t (\<lambda>t. t\<lparr>t_schedState := SCHED_STATE_WAITING, t_waitStart := now\<rparr>) s)
      \<lparr>waitQueue := waitQueue s @ [t]\<rparr>)"
    using assms(1,2) by (simp add: Sched_SetWaiting_def st_def)
  then show thesis by (rule that) (simp_all add: st_def fun_eq_iff, simp add: upd_thr_def)
qed

lemma WaitChannel_Enqueue_view:
  assumes "sched_inv C s" and "c \<in> C" and "t_refCount (thrs s (curProc s c)) \<noteq> 0" and "ticksPerSecond s \<noteq> 0"
  obtains s' where "WaitChannel_Enqueue c w s = Some s'" "sched_left C c s'" "curProc s' = curProc s"
    "runnableQueue s' = runnableQueue s" "waitQueue s' = waitQueue s @ [curProc s c]" "st s' = (st s)(curProc s c := SCHED_STATE_WAITING)"
    "chanQueue (chans s' w) = chanQueue (chans s w) @ [curProc s c]" "ticksPerSecond s' = ticksPerSecond s" "procs s' = procs s"
    "\<And>x. t_refCount (thrs s' x) = t_refCount (thrs s x) + (if x = curProc s c then 1 else 0)"
    "\<And>x. t_proc (thrs s' x) = t_proc (thrs s x)"
proof -
  let ?p = "curProc s c"
  let ?s1 = "upd_thr ?p (t_refCount_update (\<lambda>c. c + 1)) s"
  note p = sched_inv_current [OF assms(1,2)]
  have s1: "Sched_Current c s = Some (?p, ?s1)" using p(2) assms(3) by (simp add: Sched_Current_def Thread_Retain_def Let_def)
  obtain s2 where s2: "Sched_SetWaiting ?p ?s1 = Some s2" "curProc s2 = curProc ?s1" "runnableQueue s2 = runnableQueue ?s1"
      "waitQueue s2 = waitQueue ?s1 @ [?p]" "st s2 = (st ?s1)(?p := SCHED_STATE_WAITING)" "chans s2 = chans ?s1"
      "procs s2 = procs ?s1" "ticksPerSecond s2 = ticksPerSecond ?s1"
      "\<And>x. t_refCount (thrs s2 x) = t_refCount (thrs ?s1 x)" "\<And>x. t_proc (thrs s2 x) = t_proc (thrs ?s1 x)"
    by (rule Sched_SetWaiting_view [of ?s1 ?p]) (use p assms(4) in simp_all)
  let ?s3 = "s2\<lparr>chans := (chans s2)(w := (chans s2 w)\<lparr>chanQueue := chanQueue (chans s2 w) @ [?p]\<rparr>)\<rparr>"
  have v: "curProc ?s3 = curProc s" "runnableQueue ?s3 = runnableQueue s" "waitQueue ?s3 = waitQueue s @ [?p]"
    "st ?s3 = (st s)(?p := SCHED_STATE_WAITING)"
    using s2 by (simp_all add: st_def fun_eq_iff)
  have "sched_left C c ?s3"
    by (rule sched_left_intro [OF assms(1,2), where x = SCHED_STATE_WAITING]) (use v in simp_all)
  moreover have "WaitChannel_Enqueue c w s = Some ?s3" using s1 s2(1) by (simp add: WaitChannel_Enqueue_def)
  ultimately show thesis using that [of ?s3] v s2 by simp
qed

lemma Sched_SetZombie_left:
  assumes i: "sched_inv C s" and c: "c \<in> C" and "critical s c = 0" and p: "p = t_proc (thrs s (curProc s c))"
    and last: "p_threads (procs s p) = 1 \<Longrightarrow> parent (procs s p) \<noteq> 0 \<and> parent (procs s p) \<noteq> p \<and>
      p \<in> set (childrenList (procs s (parent (procs s p))))"
  obtains s' where "Sched_SetZombie c (curProc s c) s = Some s'" "sched_left C c s'" "runnableQueue s' = runnableQueue s"
proof -
  let ?t = "curProc s c"
  note cu = sched_inv_current [OF i c]
  have "\<exists>s'. Sched_SetZombie c ?t s = Some s' \<and> curProc s' = curProc s \<and> runnableQueue s' = runnableQueue s \<and>
      waitQueue s' = waitQueue s \<and> st s' = (st s)(?t := SCHED_STATE_ZOMBIE)"
  proof (cases "p_threads (procs s p) = 1")
    case True
    with last assms(3) cu(3) p show ?thesis
      by (simp add: Sched_SetZombie_def Mutex_Lock_def CV_Signal_def Mutex_Unlock_def Let_def st_def fun_eq_iff)
  next
    case False
    with assms(3) cu(3) p show ?thesis by (simp add: Sched_SetZombie_def Let_def st_def fun_eq_iff)
  qed
  then obtain s' where s': "Sched_SetZombie c ?t s = Some s'" "curProc s' = curProc s" "runnableQueue s' = runnableQueue s"
      "waitQueue s' = waitQueue s" "st s' = (st s)(?t := SCHED_STATE_ZOMBIE)" by blast
  have "sched_left C c s'"
    by (rule sched_left_intro [OF i c, where x = SCHED_STATE_ZOMBIE]) (use s' in simp_all)
  with s' that show thesis by blast
qed

text \<open>Making a waiting or a new thread runnable.\<close>

lemma Sched_SetRunnable_view:
  assumes i: "sched_inv C s" and "t \<noteq> 0" and t: "st s t = SCHED_STATE_WAITING \<or> st s t = SCHED_STATE_NULL"
    and "ticksPerSecond s \<noteq> 0"
  obtains s' where "Sched_SetRunnable t s = Some s'" "sched_inv C s'" "runnableQueue s' = runnableQueue s @ [t]"
    "waitQueue s' = remove1 t (waitQueue s)" "curProc s' = curProc s" "st s' = (st s)(t := SCHED_STATE_RUNNABLE)"
    "semas s' = semas s" "chans s' = chans s" "ticksPerSecond s' = ticksPerSecond s"
    "\<And>x. t_refCount (thrs s' x) = t_refCount (thrs s x)" "\<And>x. t_proc (thrs s' x) = t_proc (thrs s x)"
    "\<And>p. p_refCount (procs s' p) = p_refCount (procs s p)"
proof -
  note I = sched_invD [OF i]
  obtain now where now: "KTime_GetEpochNS s = Some now" using KTime_Some [OF assms(4)] by blast
  have nr: "t \<notin> set (runnableQueue s)" using I(4) [of t] t by auto
  have nw: "t \<notin> set (remove1 t (waitQueue s))" using I(2) by simp
  have w: "t \<in> set (waitQueue s) \<longleftrightarrow> st s t = SCHED_STATE_WAITING" by (rule I(5))
  then have r1: "st s t \<noteq> SCHED_STATE_WAITING \<Longrightarrow> remove1 t (waitQueue s) = waitQueue s" by (simp add: remove1_idem)
  have "\<exists>s'. Sched_SetRunnable t s = Some s' \<and> runnableQueue s' = runnableQueue s @ [t] \<and>
     waitQueue s' = remove1 t (waitQueue s) \<and> curProc s' = curProc s \<and> st s' = (st s)(t := SCHED_STATE_RUNNABLE) \<and>
     semas s' = semas s \<and> chans s' = chans s \<and> ticksPerSecond s' = ticksPerSecond s \<and>
     (\<forall>x. t_refCount (thrs s' x) = t_refCount (thrs s x)) \<and> (\<forall>x. t_proc (thrs s' x) = t_proc (thrs s x)) \<and>
     (\<forall>p. p_refCount (procs s' p) = p_refCount (procs s p))"
    using assms(2) t now nr nw w r1
    by (auto simp: Sched_SetRunnable_def Let_def st_def fun_eq_iff linked_def upd_thr_def upd_proc_def KTime_GetEpochNS_def)
  then obtain s' where s': "Sched_SetRunnable t s = Some s'" "runnableQueue s' = runnableQueue s @ [t]"
     "waitQueue s' = remove1 t (waitQueue s)" "curProc s' = curProc s" "st s' = (st s)(t := SCHED_STATE_RUNNABLE)"
     "semas s' = semas s" "chans s' = chans s" "ticksPerSecond s' = ticksPerSecond s"
     "\<And>x. t_refCount (thrs s' x) = t_refCount (thrs s x)" "\<And>x. t_proc (thrs s' x) = t_proc (thrs s x)"
     "\<And>p. p_refCount (procs s' p) = p_refCount (procs s p)" by blast
  have "sched_inv C s'"
    unfolding sched_inv_def s'(2-5)
    using I(1-3) nr nw I(4-7) t assms(2) by (auto simp: distinct_remove1)
  with that s' show thesis by blast
qed

section \<open>Runs of the scheduler\<close>

text \<open>
  The steps of the system: a CPU calls the scheduler, its thread goes to sleep on a wait channel
  or exits, or a waiting or new thread is made runnable.
\<close>

datatype sched_op = Yield nat | Sleep nat chanptr | Exit nat | Wake u64

fun sched_step :: "sched_op \<Rightarrow> 'a kern_scheme \<Rightarrow> 'a kern_scheme option" where
  "sched_step (Yield c) s = Sched_Scheduler c s"
| "sched_step (Sleep c w) s = WaitChannel_Sleep c w s"
| "sched_step (Exit c) s = do { s \<leftarrow> Sched_SetZombie c (curProc s c) s; Sched_Scheduler c s }"
| "sched_step (Wake t) s = Sched_SetRunnable t s"

text \<open>
  When a step is allowed: there is a thread to switch to (the idle threads see to that), the
  clock runs, the thread that sleeps is referenced, the one that is woken waits or is new, and
  the last thread of a process exits only if the process is a child of another one.
\<close>

fun sched_ok :: "nat set \<Rightarrow> sched_op \<Rightarrow> 'a kern_scheme \<Rightarrow> bool" where
  "sched_ok C (Yield c) s \<longleftrightarrow> c \<in> C"
| "sched_ok C (Sleep c w) s \<longleftrightarrow> c \<in> C \<and> runnableQueue s \<noteq> [] \<and> ticksPerSecond s \<noteq> 0 \<and> t_refCount (thrs s (curProc s c)) \<noteq> 0"
| "sched_ok C (Exit c) s \<longleftrightarrow> c \<in> C \<and> runnableQueue s \<noteq> [] \<and> critical s c = 0 \<and>
     (let p = t_proc (thrs s (curProc s c)); q = parent (procs s p) in
      p_threads (procs s p) = 1 \<longrightarrow> q \<noteq> 0 \<and> q \<noteq> p \<and> p \<in> set (childrenList (procs s q)))"
| "sched_ok C (Wake t) s \<longleftrightarrow> t \<noteq> 0 \<and> ticksPerSecond s \<noteq> 0 \<and> (st s t = SCHED_STATE_WAITING \<or> st s t = SCHED_STATE_NULL)"

lemma sched_step_inv:
  fixes s :: "'a kern_scheme"
  assumes i: "sched_inv C s" and "sched_ok C x s"
  shows "\<exists>s'. sched_step x s = Some s' \<and> sched_inv C s'"
proof (cases x)
  case (Yield c)
  with assms(2) have c: "c \<in> C" by simp
  show ?thesis
  proof (cases "runnableQueue s")
    case Nil
    then show ?thesis using Sched_Scheduler_empty [OF i c] i Yield by simp
  next
    case (Cons nxt rest)
    obtain s' where "Sched_Scheduler c s = Some s'" "sched_inv C s'" by (rule Sched_Scheduler_yield [OF i c Cons])
    with Yield show ?thesis by simp
  qed
next
  case (Sleep c w)
  with assms(2) have c: "c \<in> C" "runnableQueue s \<noteq> []" "ticksPerSecond s \<noteq> 0" "t_refCount (thrs s (curProc s c)) \<noteq> 0" by simp_all
  obtain s1 where "WaitChannel_Enqueue c w s = Some s1" "sched_left C c s1" "runnableQueue s1 = runnableQueue s"
    by (rule WaitChannel_Enqueue_view [OF i c(1,4,3)])
  with Sched_Scheduler_left [of C c s1] c(2) Sleep show ?thesis by (simp add: WaitChannel_Sleep_def)
next
  case (Exit c)
  with assms(2) have c: "c \<in> C" "runnableQueue s \<noteq> []" "critical s c = 0"
    "p_threads (procs s (t_proc (thrs s (curProc s c)))) = 1 \<Longrightarrow>
       parent (procs s (t_proc (thrs s (curProc s c)))) \<noteq> 0 \<and>
       parent (procs s (t_proc (thrs s (curProc s c)))) \<noteq> t_proc (thrs s (curProc s c)) \<and>
       t_proc (thrs s (curProc s c)) \<in> set (childrenList (procs s (parent (procs s (t_proc (thrs s (curProc s c)))))))"
    by (simp_all add: Let_def)
  obtain s1 where "Sched_SetZombie c (curProc s c) s = Some s1" "sched_left C c s1" "runnableQueue s1 = runnableQueue s"
    by (rule Sched_SetZombie_left [OF i c(1,3) refl c(4)])
  with Sched_Scheduler_left [of C c s1] c(2) Exit show ?thesis by simp
next
  case (Wake t)
  with assms(2) have t: "t \<noteq> 0" "st s t = SCHED_STATE_WAITING \<or> st s t = SCHED_STATE_NULL" "ticksPerSecond s \<noteq> 0" by simp_all
  obtain s' where "Sched_SetRunnable t s = Some s'" "sched_inv C s'" by (rule Sched_SetRunnable_view [OF i t])
  with Wake show ?thesis by simp
qed

interpretation scheduler: step_system sched_step "sched_ok C" "sched_inv C" for C
  by unfold_locales (use sched_step_inv in fastforce)+

lemma run_steps_append: "run_steps step (xs @ ys) s = run_steps step xs s \<bind> run_steps step ys"
  by (induction xs arbitrary: s) (auto split: bind_split)

text \<open>Repeated calls of the scheduler on one CPU.\<close>

lemma yields:
  assumes "sched_inv C s" and "c \<in> C" and "runnableQueue s = qs" and "i < length qs"
  shows "\<exists>s'. run_steps sched_step (replicate (Suc i) (Yield c)) s = Some s' \<and> sched_inv C s' \<and>
     curProc s' c = qs ! i \<and> runnableQueue s' = drop (Suc i) qs @ curProc s c # take i qs"
  using assms(4)
proof (induction i)
  case 0
  then obtain nxt rest where q: "qs = nxt # rest" by (cases qs) auto
  obtain s' where "Sched_Scheduler c s = Some s'" "sched_inv C s'" "curProc s' = (curProc s)(c := nxt)"
      "runnableQueue s' = rest @ [curProc s c]"
    using assms(3) q by (metis Sched_Scheduler_yield [OF assms(1,2)])
  with q show ?case by simp
next
  case (Suc i)
  then obtain s1 where s1: "run_steps sched_step (replicate (Suc i) (Yield c)) s = Some s1" "sched_inv C s1"
      "curProc s1 c = qs ! i" "runnableQueue s1 = drop (Suc i) qs @ curProc s c # take i qs"
    by (meson Suc_lessD)
  have d: "drop (Suc i) qs = qs ! Suc i # drop (Suc (Suc i)) qs" using Suc.prems by (simp add: Cons_nth_drop_Suc)
  have q: "runnableQueue s1 = qs ! Suc i # (drop (Suc (Suc i)) qs @ curProc s c # take i qs)"
    unfolding s1(4) d by simp
  obtain s' where s': "Sched_Scheduler c s1 = Some s'" "sched_inv C s'" "curProc s' = (curProc s1)(c := qs ! Suc i)"
      "runnableQueue s' = (drop (Suc (Suc i)) qs @ curProc s c # take i qs) @ [curProc s1 c]"
    by (rule Sched_Scheduler_yield [OF s1(2) assms(2) q]) blast
  have e: "replicate (Suc (Suc i)) (Yield c) = replicate (Suc i) (Yield c) @ [Yield c]" by (simp add: replicate_append_same)
  have "run_steps sched_step (replicate (Suc (Suc i)) (Yield c)) s = Some s'"
    unfolding e run_steps_append s1(1) using s'(1) by simp
  moreover have "take (Suc i) qs = take i qs @ [qs ! i]" using Suc.prems by (simp add: take_Suc_conv_app_nth)
  ultimately show ?case using s' s1(3) by simp
qed

section \<open>Properties\<close>

text \<open>
  An example: CPU 0 runs the thread at \<open>0x100\<close> and CPU 1 the thread at \<open>0x200\<close>, and the
  threads of the list \<open>q\<close> are runnable.  All belong to the process at \<open>0x10\<close>.
\<close>

definition kern_state :: "u64 list \<Rightarrow> kern" where
  "kern_state q = fs_state \<lparr>hdls = (\<lambda>_. \<lparr>h_fd = 0, h_type = 0, h_processId = 0, h_vnode = 0, h_ops = NoOps\<rparr>),
     handleSlab = slab_example, handleFreeHead = 0xFFFF800000001000, nextKey = 0, lastKey = 0, keyBuf = (\<lambda>_. 0), serialIn = [], conOut = [],
     chans = (\<lambda>_. \<lparr>wc_name = [], chanQueue = []\<rparr>), chanList = [],
     semas = (\<lambda>_. \<lparr>sem_name = [], sem_count = 0, waiters = []\<rparr>), semaList = [], critical = (\<lambda>_. 0),
     thrs = (\<lambda>a. if a = 0x100 \<or> a = 0x200
       then Thread_zero\<lparr>t_schedState := SCHED_STATE_RUNNING, t_refCount := 1, t_proc := 0x10, t_space := 0x20, useFP := True\<rparr>
       else if a \<in> set q
       then Thread_zero\<lparr>t_schedState := SCHED_STATE_RUNNABLE, t_refCount := 1, t_proc := 0x10, t_space := 0x20, useFP := True\<rparr>
       else Thread_zero),
     procs = (\<lambda>_. Process_zero)(0x10 := Process_zero\<lparr>pid := 2, p_refCount := 3, p_threads := 3\<rparr>),
     waitQueue = [], runnableQueue = q, curProc = (\<lambda>_. 0)(0 := 0x100, 1 := 0x200),
     threadSlab = slab_example, processSlab = slab_example, nextProcessID = 3, processList = [0x10], kernelProcess = 0,
     tframes = (\<lambda>_. \<lparr>tf_rdi = 0, tf_rsi = 0, tf_rdx = 0, tf_ds = 0, tf_rip = UserCode 0, tf_cs = 0, tf_rflags = 0, tf_rsp = 0, tf_ss = 0\<rparr>),
     sframes = (\<lambda>_. \<lparr>sf_r15 = 0, sf_r14 = 0, sf_r13 = 0, sf_r12 = 0, sf_rbx = 0, sf_rdi = 0, sf_rbp = 0, sf_rip = UserCode 0\<rparr>),
     cregs = (\<lambda>_. \<lparr>sf_r15 = 0, sf_r14 = 0, sf_r13 = 0, sf_r12 = 0, sf_rbx = 0, sf_rdi = 0, sf_rbp = 0, sf_rip = UserCode 0\<rparr>),
     cpu_rsp = (\<lambda>_. 0), fpu = (\<lambda>_ _. 0), rsp0 = (\<lambda>_. 0),
     timerHead = 0, timerNow = 0, timerSlot = (\<lambda>_. []), timerSlab = slab_example,
     tevents = (\<lambda>_. \<lparr>te_refCount = 0, te_timeout = 0, te_cb = ThreadWakeupHelperCB, te_arg = 0\<rparr>),
     nics = (\<lambda>_. \<lparr>nicNo = 0, nic_tx = (\<lambda>_ _ m. (0, m)), nic_rx = (\<lambda>_ _ m. (0, m))\<rparr>), nicList = [], nextNICNo = 0,
     sysctlNode = (\<lambda>i. 0x40000 + 0x100 * of_nat i)\<rparr>"

lemma kern_state_simps [simp]:
  "runnableQueue (kern_state q) = q" "waitQueue (kern_state q) = []" "curProc (kern_state q) = (\<lambda>_. 0)(0 := 0x100, 1 := 0x200)"
  "ticksPerSecond (kern_state q) = 1" "critical (kern_state q) = (\<lambda>_. 0)"
  "chans (kern_state q) = (\<lambda>_. \<lparr>wc_name = [], chanQueue = []\<rparr>)"
  "semas (kern_state q) = (\<lambda>_. \<lparr>sem_name = [], sem_count = 0, waiters = []\<rparr>)"
  "procs (kern_state q) = (\<lambda>_. Process_zero)(0x10 := Process_zero\<lparr>pid := 2, p_refCount := 3, p_threads := 3\<rparr>)"
  "thrs (kern_state q) = (\<lambda>a. if a = 0x100 \<or> a = 0x200
       then Thread_zero\<lparr>t_schedState := SCHED_STATE_RUNNING, t_refCount := 1, t_proc := 0x10, t_space := 0x20, useFP := True\<rparr>
       else if a \<in> set q
       then Thread_zero\<lparr>t_schedState := SCHED_STATE_RUNNABLE, t_refCount := 1, t_proc := 0x10, t_space := 0x20, useFP := True\<rparr>
       else Thread_zero)"
  by (simp_all add: kern_state_def fs_state_def kbufs_state_def vmem_state_def)

lemma kern_state_inv:
  assumes "distinct q" and "0 \<notin> set q" and "0x100 \<notin> set q" and "0x200 \<notin> set q"
  shows "sched_inv {0, 1} (kern_state q)"
  using assms by (auto simp: sched_inv_def st_def Thread_zero_def)



text \<open>
  C13. Round robin: when a CPU calls the scheduler again and again while nothing else changes the
  run queue, the threads of the queue run in their order: after \<open>i + 1\<close> calls the CPU runs the
  thread at position \<open>i\<close>, with the threads that have run behind those that have not, so every
  runnable thread runs after at most as many calls as there are runnable threads.
\<close>

theorem sched_round_robin:
  fixes s :: "'a kern_scheme"
  assumes "sched_inv C s" and "c \<in> C" and "i < length (runnableQueue s)"
  shows "\<exists>s'. run_steps sched_step (replicate (Suc i) (Yield c)) s = Some s' \<and> sched_inv C s' \<and>
     curProc s' c = runnableQueue s ! i \<and>
     runnableQueue s' = drop (Suc i) (runnableQueue s) @ curProc s c # take i (runnableQueue s)"
  using yields [OF assms(1,2) refl assms(3)] .

theorem sched_round_robin_witness:
  "\<exists>s'. run_steps sched_step [Yield 0, Yield 0] (kern_state [0x300, 0x400]) = Some s' \<and> curProc s' 0 = 0x400 \<and>
     runnableQueue s' = [0x100, 0x300]"
proof -
  have "sched_inv {0, 1} (kern_state [0x300, 0x400])" by (rule kern_state_inv) simp_all
  from sched_round_robin [OF this, of 0 1] show ?thesis by auto
qed

text \<open>
  C15. A context switch: when the scheduler switches a CPU, the new thread's address space is
  loaded, its kernel stack is the one the CPU uses for interrupts, and it continues with the
  registers and the floating point state that were saved for it; the registers of the old
  thread are saved on its stack, at the stack pointer recorded for it.
\<close>

theorem sched_switch_context:
  fixes s :: "'a kern_scheme"
  assumes "sched_inv C s" and "c \<in> C" and "runnableQueue s = nxt # rest" and "cpu_rsp s c - 56 \<noteq> t_rsp (thrs s nxt)"
    and "useFP (thrs s nxt)" and "useFP (thrs s (curProc s c))"
  shows "\<exists>s'. Sched_Scheduler c s = Some s' \<and> curProc s' c = nxt \<and>
     currentAS s' c = t_space (thrs s nxt) \<and> cr3 s' c = DMVA2PA (mem s (t_space (thrs s nxt))) \<and>
     rsp0 s' c = kstack (thrs s nxt) + 4096 \<and>
     cregs s' c = sframes s (t_rsp (thrs s nxt)) \<and> cpu_rsp s' c = t_rsp (thrs s nxt) + 64 \<and> fpu s' c = xsa (thrs s nxt) \<and>
     sframes s' (t_rsp (thrs s' (curProc s c))) = cregs s c \<and> xsa (thrs s' (curProc s c)) = fpu s c"
proof -
  let ?p = "curProc s c"
  note p = sched_inv_current [OF assms(1,2)] and n = sched_inv_nxt [OF assms(1,3)]
  have ne: "?p \<noteq> nxt" using p(1) n(1) by auto
  then have "?p \<notin> set (waitQueue s)" "?p \<notin> set rest" using p(3) assms(3) by (auto simp: linked_def)
  then show ?thesis
    using assms(3-6) p(1,2) n(1) ne
    by (auto simp: Sched_Scheduler_def Sched_Switch_def Thread_SwitchArch_def switchstack_def PMap_LoadAS_def st_def
        Let_def linked_def upd_thr_def)
qed

theorem sched_switch_context_witness:
  "\<exists>s'. Sched_Scheduler 0 (kern_state [0x300]) = Some s' \<and> curProc s' 0 = 0x300 \<and> currentAS s' 0 = 0x20 \<and> cpu_rsp s' 0 = 64"
proof -
  have "sched_inv {0, 1} (kern_state [0x300])" by (rule kern_state_inv) simp_all
  moreover have "cpu_rsp (kern_state [0x300]) 0 = 0" by (simp add: kern_state_def fs_state_def kbufs_state_def vmem_state_def)
  ultimately show ?thesis
    using sched_switch_context [of "{0, 1}" "kern_state [0x300]" 0 "0x300" "[]"] by (auto simp: Thread_zero_def)
qed

end
