(* ===== verification/Console.thy ===== *)
theory Console
  imports Sched
begin

text \<open>
  The console (\<^verbatim>\<open>sys/dev/console.c\<close>): the keyboard's ring buffer, line input, output and the
  functions behind a console handle.  Output goes to the screen, the serial port and the debug
  port alike and is collected in \<open>conOut\<close>.  \<^verbatim>\<open>Console_Getc\<close> polls; when neither the buffer nor
  the serial port has a character it does not return, which is \<open>None\<close>.
\<close>

section \<open>Definitions\<close>

definition CONSOLE_KEYBUF_MAXLEN :: nat where "CONSOLE_KEYBUF_MAXLEN = 256"

definition Console_Putc :: "u8 \<Rightarrow> 'a kern_scheme \<Rightarrow> 'a kern_scheme" where
  "Console_Putc ch s = s\<lparr>conOut := conOut s @ [ch]\<rparr>"

definition Console_Puts :: "u8 list \<Rightarrow> 'a kern_scheme \<Rightarrow> 'a kern_scheme" where
  "Console_Puts str s = s\<lparr>conOut := conOut s @ str\<rparr>"

definition Console_Init :: "u8 list \<Rightarrow> u8 list \<Rightarrow> 'a kern_scheme \<Rightarrow> 'a kern_scheme" where
  "Console_Init title name s = (Console_Puts name (Console_Puts title s))\<lparr>nextKey := 0, lastKey := 0\<rparr>"

definition Console_Getc :: "'a kern_scheme \<Rightarrow> (u8 \<times> 'a kern_scheme) option" where
  "Console_Getc s =
     (if nextKey s \<noteq> lastKey s
      then Some (keyBuf s (nextKey s), s\<lparr>nextKey := (nextKey s + 1) mod CONSOLE_KEYBUF_MAXLEN\<rparr>)
      else case serialIn s of
        [] \<Rightarrow> None
      | key # ks \<Rightarrow> Some (if key = 13 then 10 else if key = 0x7f then 8 else key, s\<lparr>serialIn := ks\<rparr>))"

definition Console_EnqueueKey :: "u8 \<Rightarrow> 'a kern_scheme \<Rightarrow> 'a kern_scheme" where
  "Console_EnqueueKey key s =
     (if (lastKey s + 1) mod CONSOLE_KEYBUF_MAXLEN = lastKey s then s
      else s\<lparr>keyBuf := (keyBuf s)(lastKey s := key), lastKey := (lastKey s + 1) mod CONSOLE_KEYBUF_MAXLEN\<rparr>)"

text \<open>
  \<^verbatim>\<open>Console_Gets\<close>: \<open>i\<close> is the index at the head of the loop.  A backspace at index 0 leaves the
  index alone, other backspaces step back by one.  Characters are signed.
\<close>

partial_function (option) Gets_loop :: "u64 \<Rightarrow> u64 \<Rightarrow> nat \<Rightarrow> 'a kern_scheme \<Rightarrow> 'a kern_scheme option" where
  "Gets_loop str n i s =
     (if of_nat i < n - 1
      then Option.bind (Console_Getc s) (\<lambda>(ch, s).
        if ch = 8 then (if 0 < i then Gets_loop str n (i - 1) (Console_Putc ch s) else Gets_loop str n i s)
        else if ch = 10 \<or> ch = 13
        then Some ((Console_Putc 10 s)\<lparr>bmem := (bmem s)(str + of_nat i := 0)\<rparr>)
        else if ch = 9
        then Gets_loop str n (i + 1) ((Console_Putc 9 s)\<lparr>bmem := (bmem s)(str + of_nat i := 9)\<rparr>)
        else if sint ch < 0x20 then Gets_loop str n (i + 1) s
        else Gets_loop str n (i + 1) ((Console_Putc ch s)\<lparr>bmem := (bmem s)(str + of_nat i := ch)\<rparr>))
      else Some (s\<lparr>bmem := (bmem s)(str + of_nat i + 1 := 0)\<rparr>))"

definition Console_Gets :: "u64 \<Rightarrow> u64 \<Rightarrow> 'a kern_scheme \<Rightarrow> 'a kern_scheme option" where
  "Console_Gets str n s = Gets_loop str n 0 s"

section \<open>Console handles\<close>

text \<open>\<open>c\<close> and \<open>kbuf\<close> are the stack addresses of the local variables.\<close>

definition Console_Read :: "u64 \<Rightarrow> u64 \<Rightarrow> u64 \<Rightarrow> u64 \<Rightarrow> u64 \<Rightarrow> 'a kern_scheme \<Rightarrow> (int \<times> 'a kern_scheme) option" where
  "Console_Read c handle buf off len s = do {
     s \<leftarrow> for_each [0..<unat len] (\<lambda>i s. do {
            (ch, s) \<leftarrow> Console_Getc s;
            let s = Console_Putc ch s;
            Some (snd (Copy_Out c (buf + of_nat i) 1 (s\<lparr>bmem := (bmem s)(c := ch)\<rparr>)))
          }) s;
     Some (int_of_u64 len, s)
   }"

definition chunksz :: "u64 \<Rightarrow> u64" where
  "chunksz len = (if 512 < len then 512 else len)"

definition Console_Write_chunk :: "u64 \<Rightarrow> u64 \<Rightarrow> u64 \<Rightarrow> 'a kern_scheme \<Rightarrow> 'a kern_scheme" where
  "Console_Write_chunk kbuf b sz s =
     (let s = snd (Copy_In b kbuf sz s)
      in Console_Puts (map (\<lambda>i. bmem s (kbuf + of_nat i)) [0..<unat sz]) s)"

text \<open>
  The chunk size is computed from the whole length, not from what remains.
\<close>

partial_function (option) Console_Write_loop :: "u64 \<Rightarrow> u64 \<Rightarrow> u64 \<Rightarrow> u64 \<Rightarrow> 'a kern_scheme \<Rightarrow> (int \<times> 'a kern_scheme) option" where
  "Console_Write_loop kbuf b len nbytes s =
     (if nbytes < len
      then Console_Write_loop kbuf b len (nbytes + chunksz len) (Console_Write_chunk kbuf (b + nbytes) (chunksz len) s)
      else Some (int_of_u64 nbytes, s))"

definition Console_Write :: "u64 \<Rightarrow> u64 \<Rightarrow> u64 \<Rightarrow> u64 \<Rightarrow> u64 \<Rightarrow> 'a kern_scheme \<Rightarrow> (int \<times> 'a kern_scheme) option" where
  "Console_Write kbuf handle buf off len s = Console_Write_loop kbuf buf len 0 s"

definition Console_Flush :: "u64 \<Rightarrow> 'a kern_scheme \<Rightarrow> int" where "Console_Flush handle s = 0"

text \<open>
  A free handle holds the links of the slab's free list in its first two words, which are the
  fields \<^verbatim>\<open>fd\<close> and \<^verbatim>\<open>type\<close>: the address of the next free handle, and the address of the link that
  leads to it, \<open>handleFreeHead\<close> for the first one.
\<close>

fun link_free :: "u64 \<Rightarrow> u64 list \<Rightarrow> (u64 \<Rightarrow> Handle) \<Rightarrow> u64 \<Rightarrow> Handle" where
  "link_free pv [] f = f"
| "link_free pv (e # es) f = link_free e es (f(e := (f e)\<lparr>h_fd := (case es of [] \<Rightarrow> 0 | x # _ \<Rightarrow> x), h_type := pv\<rparr>))"

text \<open>The object that is taken off the list keeps the links it had there.\<close>

definition Handle_Alloc :: "'a kern_scheme \<Rightarrow> (u64 \<times> 'a kern_scheme) option" where
  "Handle_Alloc s = do {
     (h, sl, s) \<leftarrow> Slab_Alloc (handleSlab s) s;
     let s = s\<lparr>handleSlab := sl\<rparr>;
     Some (case h of
         None \<Rightarrow> (0, s)
       | Some p \<Rightarrow> (p, s\<lparr>hdls := link_free (handleFreeHead s) (slabFree sl) (link_free (handleFreeHead s) (p # slabFree sl) (hdls s))\<rparr>))
   }"

text \<open>Freeing a handle that is on the list already would tie the list into a ring (\<open>None\<close>).\<close>

definition Handle_Free :: "u64 \<Rightarrow> 'a kern_scheme \<Rightarrow> 'a kern_scheme option" where
  "Handle_Free h s = do {
     kassert (h \<notin> set (slabFree (handleSlab s)));
     let sl = Slab_Free (handleSlab s) h;
     Some (s\<lparr>handleSlab := sl, hdls := link_free (handleFreeHead s) (slabFree sl) (hdls s)\<rparr>)
   }"

definition Console_Close :: "u64 \<Rightarrow> 'a kern_scheme \<Rightarrow> (int \<times> 'a kern_scheme) option" where
  "Console_Close handle s = do { s \<leftarrow> Handle_Free handle s; Some (0, s) }"

text \<open>\<^verbatim>\<open>Console_OpenHandle\<close> does not set the type and the node of the handle.\<close>

definition Console_OpenHandle :: "'a kern_scheme \<Rightarrow> (u64 \<times> 'a kern_scheme) option" where
  "Console_OpenHandle s = do {
     (h, s) \<leftarrow> Handle_Alloc s;
     Some (h, if h = 0 then s else s\<lparr>hdls := (hdls s)(h := (hdls s h)\<lparr>h_ops := Console_ops\<rparr>)\<rparr>)
   }"

section \<open>The key buffer as a queue\<close>

text \<open>The keys in the ring buffer, in the order in which they are read.\<close>

definition pending :: "nat \<Rightarrow> nat \<Rightarrow> nat" where
  "pending n l = (if n \<le> l then l - n else l + CONSOLE_KEYBUF_MAXLEN - n)"

definition keys :: "'a kern_scheme \<Rightarrow> u8 list" where
  "keys s = map (\<lambda>i. keyBuf s ((nextKey s + i) mod CONSOLE_KEYBUF_MAXLEN)) [0..<pending (nextKey s) (lastKey s)]"

definition keys_inv :: "u8 list \<times> 'a kern_scheme \<Rightarrow> bool" where
  "keys_inv x \<longleftrightarrow> nextKey (snd x) < CONSOLE_KEYBUF_MAXLEN \<and> lastKey (snd x) < CONSOLE_KEYBUF_MAXLEN"

text \<open>Key presses, and reads whose results are collected in a list.\<close>

datatype key_op = KeyPress u8 | KeyRead

fun key_step :: "key_op \<Rightarrow> u8 list \<times> 'a kern_scheme \<Rightarrow> (u8 list \<times> 'a kern_scheme) option" where
  "key_step (KeyPress k) (got, s) = Some (got, Console_EnqueueKey k s)"
| "key_step KeyRead (got, s) = map_option (\<lambda>(ch, s). (got @ [ch], s)) (Console_Getc s)"

fun key_ok :: "key_op \<Rightarrow> u8 list \<times> 'a kern_scheme \<Rightarrow> bool" where
  "key_ok (KeyPress k) (got, s) \<longleftrightarrow> length (keys s) + 1 < CONSOLE_KEYBUF_MAXLEN"
| "key_ok KeyRead (got, s) \<longleftrightarrow> keys s \<noteq> []"

definition key_abs :: "u8 list \<times> 'a kern_scheme \<Rightarrow> u8 list \<times> u8 list" where
  "key_abs x = (fst x, keys (snd x))"

fun key_astep :: "key_op \<Rightarrow> u8 list \<times> u8 list \<Rightarrow> u8 list \<times> u8 list" where
  "key_astep (KeyPress k) (got, q) = (got, q @ [k])"
| "key_astep KeyRead (got, q) = (got @ [hd q], tl q)"

lemma ring_mod: "x < n + n \<Longrightarrow> x mod n = (if x < n then x else x - n)" for x n :: nat
  by (simp add: le_mod_geq)

lemma ring_index:
  assumes "n < CONSOLE_KEYBUF_MAXLEN" and "l < CONSOLE_KEYBUF_MAXLEN" and "i < pending n l"
  shows "(n + i) mod CONSOLE_KEYBUF_MAXLEN \<noteq> l"
proof -
  have "n + i < CONSOLE_KEYBUF_MAXLEN + CONSOLE_KEYBUF_MAXLEN" using assms by (auto simp: pending_def split: if_splits)
  then show ?thesis using assms by (auto simp: ring_mod pending_def split: if_splits)
qed

lemma ring_last:
  assumes "n < CONSOLE_KEYBUF_MAXLEN" and "l < CONSOLE_KEYBUF_MAXLEN"
  shows "(n + pending n l) mod CONSOLE_KEYBUF_MAXLEN = l"
  using assms by (simp add: pending_def ring_mod)

lemma ring_push:
  assumes "n < CONSOLE_KEYBUF_MAXLEN" and "l < CONSOLE_KEYBUF_MAXLEN"
  shows "pending n ((l + 1) mod CONSOLE_KEYBUF_MAXLEN) = (if pending n l + 1 < CONSOLE_KEYBUF_MAXLEN then pending n l + 1 else 0)"
  using assms by (cases "l + 1 = CONSOLE_KEYBUF_MAXLEN") (auto simp: pending_def ring_mod)

lemma ring_pop:
  assumes "n < CONSOLE_KEYBUF_MAXLEN" and "l < CONSOLE_KEYBUF_MAXLEN" and "n \<noteq> l"
  shows "pending n l = Suc (pending ((n + 1) mod CONSOLE_KEYBUF_MAXLEN) l)"
  using assms by (cases "n + 1 = CONSOLE_KEYBUF_MAXLEN") (auto simp: pending_def ring_mod)

lemma enqueue_fields:
  assumes "lastKey s < CONSOLE_KEYBUF_MAXLEN"
  shows "nextKey (Console_EnqueueKey k s) = nextKey s"
    and "lastKey (Console_EnqueueKey k s) = (lastKey s + 1) mod CONSOLE_KEYBUF_MAXLEN"
    and "keyBuf (Console_EnqueueKey k s) = (keyBuf s)(lastKey s := k)"
proof -
  have "(lastKey s + 1) mod CONSOLE_KEYBUF_MAXLEN \<noteq> lastKey s"
    using assms by (cases "lastKey s + 1 = CONSOLE_KEYBUF_MAXLEN") (auto simp: CONSOLE_KEYBUF_MAXLEN_def)
  then show "nextKey (Console_EnqueueKey k s) = nextKey s"
    and "lastKey (Console_EnqueueKey k s) = (lastKey s + 1) mod CONSOLE_KEYBUF_MAXLEN"
    and "keyBuf (Console_EnqueueKey k s) = (keyBuf s)(lastKey s := k)"
    by (simp_all add: Console_EnqueueKey_def)
qed

lemma keys_enqueue:
  assumes "keys_inv (got, s)"
  shows "keys (Console_EnqueueKey k s) = (if length (keys s) + 1 < CONSOLE_KEYBUF_MAXLEN then keys s @ [k] else [])"
proof -
  have b: "nextKey s < CONSOLE_KEYBUF_MAXLEN" "lastKey s < CONSOLE_KEYBUF_MAXLEN" using assms by (simp_all add: keys_inv_def)
  show ?thesis
    unfolding keys_def enqueue_fields [OF b(2)] ring_push [OF b]
    using ring_index [OF b] ring_last [OF b] by auto
qed

lemma Console_Getc_keys:
  assumes "keys_inv (got, s)" and "keys s \<noteq> []"
  shows "\<exists>s'. Console_Getc s = Some (hd (keys s), s') \<and> keys_inv (got', s') \<and> keys s' = tl (keys s)"
proof -
  have b: "nextKey s < CONSOLE_KEYBUF_MAXLEN" "lastKey s < CONSOLE_KEYBUF_MAXLEN" using assms(1) by (simp_all add: keys_inv_def)
  have ne: "nextKey s \<noteq> lastKey s" using assms(2) by (auto simp: keys_def pending_def)
  let ?s' = "s\<lparr>nextKey := (nextKey s + 1) mod CONSOLE_KEYBUF_MAXLEN\<rparr>"
  have "keys s = keyBuf s (nextKey s) # keys ?s'"
    unfolding keys_def ring_pop [OF b ne] upt_conv_Cons [OF zero_less_Suc]
    using b by (simp add: map_Suc_upt [symmetric] mod_simps del: upt_Suc)
  then show ?thesis using b ne by (simp add: Console_Getc_def keys_inv_def CONSOLE_KEYBUF_MAXLEN_def)
qed

interpretation keyboard: simulation key_step key_ok keys_inv key_abs key_astep
proof
  fix x :: "u8 list \<times> 'a kern_scheme" and a
  assume i: "keys_inv x" and ok: "key_ok a x"
  obtain got s where x: "x = (got, s)" by (cases x)
  show "\<exists>x'. key_step a x = Some x' \<and> keys_inv x' \<and> key_abs x' = key_astep a (key_abs x)"
  proof (cases a)
    case (KeyPress k)
    then show ?thesis
      using i ok keys_enqueue [of got s k] enqueue_fields [of s k] by (auto simp: x key_abs_def keys_inv_def CONSOLE_KEYBUF_MAXLEN_def)
  next
    case KeyRead
    then show ?thesis using i ok Console_Getc_keys [of got s "got @ [hd (keys s)]"] by (auto simp: x key_abs_def)
  qed
qed

section \<open>Output in chunks\<close>

lemma kuser_movsb_more: "kuser.more (snd (movsb n t f s)) = kuser.more s" for s :: "'a kuser_scheme"
  by (induction n arbitrary: t f s) (simp_all add: Let_def)

lemma Copy_In_conOut: "conOut (snd (Copy_In f t n s)) = conOut s" for s :: "'a kern_scheme"
proof -
  have "kuser.more (snd (Copy_In f t n s)) = kuser.more s"
    by (simp add: Copy_In_def copy_unsafe_def kuser_movsb_more)
  moreover have "kuser.more x = kuser.more y \<Longrightarrow> conOut x = conOut y" for x y :: "'a kern_scheme"
    by (cases x, cases y, simp)
  ultimately show ?thesis by blast
qed

lemma Console_Write_chunk_length:
  "length (conOut (Console_Write_chunk kbuf b sz s)) = length (conOut s) + unat sz"
  by (simp add: Console_Write_chunk_def Console_Puts_def Let_def Copy_In_conOut)

text \<open>The loop makes \<open>k\<close> more steps when \<open>k\<close> chunks are the first to reach the length.\<close>

lemma Console_Write_steps:
  assumes "unat nb + k * unat (chunksz len) < 2 ^ 31" and "unat len \<le> unat nb + k * unat (chunksz len)"
    and "\<And>j. j < k \<Longrightarrow> unat nb + j * unat (chunksz len) < unat len"
  shows "\<exists>s'. Console_Write_loop kbuf b len nb s = Some (int (unat nb + k * unat (chunksz len)), s') \<and>
     length (conOut s') = length (conOut s) + k * unat (chunksz len)"
  using assms
proof (induction k arbitrary: nb s)
  case 0
  then have "\<not> nb < len" by (simp add: word_less_nat_alt)
  then show ?case using 0(1) by (subst Console_Write_loop.simps) (simp add: int_of_u64_small)
next
  case (Suc k)
  let ?c = "chunksz len" and ?s = "Console_Write_chunk kbuf (b + nb) (chunksz len) s"
  have "nb < len" using Suc.prems(3) [of 0] by (simp add: word_less_nat_alt)
  moreover have u: "unat (nb + ?c) = unat nb + unat ?c" using Suc.prems(1) by (simp add: unat_word_ariths)
  moreover have "\<exists>s'. Console_Write_loop kbuf b len (nb + ?c) ?s = Some (int (unat (nb + ?c) + k * unat ?c), s') \<and>
     length (conOut s') = length (conOut ?s) + k * unat ?c"
  proof (rule Suc.IH)
    show "unat (nb + ?c) + k * unat ?c < 2 ^ 31" "unat len \<le> unat (nb + ?c) + k * unat ?c" using Suc.prems(1,2) by (simp_all add: u)
    show "unat (nb + ?c) + j * unat ?c < unat len" if "j < k" for j using Suc.prems(3) [of "Suc j"] that by (simp add: u)
  qed
  ultimately show ?case by (subst Console_Write_loop.simps) (auto simp: Console_Write_chunk_length)
qed

lemma chunksz_nat: "unat (chunksz len) = min 512 (unat len)"
  by (simp add: chunksz_def word_less_nat_alt)

section \<open>Properties\<close>

text \<open>
  C23. The key buffer is a queue.  As long as fewer than 255 keys are pending, key presses and
  reads in any order behave as on a queue: every read returns the key pressed longest ago
  that has not been read, and no key is lost, repeated or reordered.
\<close>

theorem console_keys_fifo:
  fixes s :: "'a kern_scheme"
  assumes "keys_inv (got, s)" and "run_ok key_step key_ok ops (got, s)"
  shows "\<exists>got' s'. run_steps key_step ops (got, s) = Some (got', s') \<and> keys_inv (got', s') \<and>
     (got', keys s') = fold key_astep ops (got, keys s)"
  using keyboard.run_sim [OF assms] by (auto simp: key_abs_def)

lemma kern_state_console: "nextKey (kern_state q) = 0" "lastKey (kern_state q) = 0" "conOut (kern_state q) = []"
  by (simp_all add: kern_state_def fs_state_def kbufs_state_def vmem_state_def)

theorem console_keys_fifo_witness:
  "\<exists>got' s'. run_steps key_step [KeyPress 65, KeyPress 66, KeyRead, KeyPress 67, KeyRead] ([], kern_state []) = Some (got', s') \<and>
     got' = [65, 66] \<and> keys s' = [67]"
proof -
  note z = kern_state_console(1,2) [of "[]"]
  have k: "keys_inv ([], kern_state [])" "keys (kern_state []) = []"
    by (simp_all add: z keys_def pending_def keys_inv_def CONSOLE_KEYBUF_MAXLEN_def)
  have "run_ok key_step key_ok [KeyPress 65, KeyPress 66, KeyRead, KeyPress 67, KeyRead] ([], kern_state [])"
    by (simp add: z keys_def pending_def CONSOLE_KEYBUF_MAXLEN_def Console_EnqueueKey_def Console_Getc_def)
  from console_keys_fifo [OF k(1) this] show ?thesis by (auto simp: k(2))
qed

text \<open>
  C40. The test for a full key buffer never holds, so a key press while 255 keys are pending makes
  the buffer empty: all pending keys are lost, the new one included.
\<close>

theorem console_key_overflow:
  fixes s :: "'a kern_scheme"
  assumes "nextKey s < CONSOLE_KEYBUF_MAXLEN" and "lastKey s < CONSOLE_KEYBUF_MAXLEN" and "length (keys s) = 255"
  shows "keys (Console_EnqueueKey k s) = []"
  using keys_enqueue [of "[]" s k] assms by (simp add: keys_inv_def CONSOLE_KEYBUF_MAXLEN_def)

theorem console_key_overflow_witness:
  "length (keys ((kern_state [])\<lparr>lastKey := 255\<rparr>)) = 255 \<and> keys (Console_EnqueueKey 65 ((kern_state [])\<lparr>lastKey := 255\<rparr>)) = []"
proof -
  let ?s = "(kern_state [])\<lparr>lastKey := 255\<rparr>"
  have s: "nextKey ?s < CONSOLE_KEYBUF_MAXLEN" "lastKey ?s < CONSOLE_KEYBUF_MAXLEN" "length (keys ?s) = 255"
    by (simp_all add: keys_def pending_def kern_state_console CONSOLE_KEYBUF_MAXLEN_def)
  from console_key_overflow [OF this, of 65] s(3) show ?thesis by blast
qed



end
