(* ===== verification/ProcThread.thy ===== *)
theory ProcThread
  imports Console
begin

text \<open>
  Handles and handle tables (\<^verbatim>\<open>sys/kern/handle.c\<close>, \<^verbatim>\<open>vfsuio.c\<close>), semaphores
  (\<^verbatim>\<open>semaphore.c\<close>), processes (\<^verbatim>\<open>process.c\<close>) and threads (\<^verbatim>\<open>thread.c\<close>), and the operations on
  wait channels that drop references to threads.
\<close>

section \<open>File handles\<close>

definition VFSUIO_Read :: "u64 \<Rightarrow> u64 \<Rightarrow> u64 \<Rightarrow> u64 \<Rightarrow> 'a kern_scheme \<Rightarrow> (int \<times> 'a kern_scheme) option" where
  "VFSUIO_Read handle buf len off s = do {
     kassert (h_type (hdls s handle) = HANDLE_TYPE_FILE);
     VFS_Read (h_vnode (hdls s handle)) buf len off s
   }"

definition VFSUIO_Write :: "u64 \<Rightarrow> u64 \<Rightarrow> u64 \<Rightarrow> u64 \<Rightarrow> 'a kern_scheme \<Rightarrow> (int \<times> 'a kern_scheme) option" where
  "VFSUIO_Write handle buf len off s = do {
     kassert (h_type (hdls s handle) = HANDLE_TYPE_FILE);
     VFS_Write (h_vnode (hdls s handle)) buf len off s
   }"

definition VFSUIO_Flush :: "u64 \<Rightarrow> 'a kern_scheme \<Rightarrow> int option" where
  "VFSUIO_Flush handle s = do { kassert (h_type (hdls s handle) = HANDLE_TYPE_FILE); Some (- EINVAL) }"

definition VFSUIO_Close :: "u64 \<Rightarrow> 'a kern_scheme \<Rightarrow> (int \<times> 'a kern_scheme) option" where
  "VFSUIO_Close handle s = do {
     kassert (h_type (hdls s handle) = HANDLE_TYPE_FILE);
     status \<leftarrow> VFS_Close (h_vnode (hdls s handle)) s;
     s \<leftarrow> Handle_Free handle s;
     Some (status, s)
   }"

definition VFSUIO_Open :: "u64 \<Rightarrow> 'a kern_scheme \<Rightarrow> (int \<times> u64 \<times> 'a kern_scheme) option" where
  "VFSUIO_Open path s = do {
     (hdl, s) \<leftarrow> Handle_Alloc s;
     if hdl = 0 then Some (- ENOMEM, 0, s)
     else do {
       (vn, s) \<leftarrow> VFS_Lookup path s;
       if vn = 0 then do { s \<leftarrow> Handle_Free hdl s; Some (- ENOENT, 0, s) }
       else do {
         status \<leftarrow> VFS_Open vn s;
         if status \<noteq> 0 then do { s \<leftarrow> Handle_Free hdl s; Some (status, 0, s) }
         else Some (0, hdl, s\<lparr>hdls := (hdls s)(hdl := (hdls s hdl)
                       \<lparr>h_vnode := vn, h_type := HANDLE_TYPE_FILE, h_ops := VFSUIO_ops\<rparr>)\<rparr>)
       }
     }
   }"

text \<open>The call of \<^verbatim>\<open>handle->close\<close>; a handle without functions has no valid pointer there.\<close>

definition handle_close :: "u64 \<Rightarrow> 'a kern_scheme \<Rightarrow> (int \<times> 'a kern_scheme) option" where
  "handle_close h s =
     (case h_ops (hdls s h) of
        NoOps \<Rightarrow> None
      | VFSUIO_ops \<Rightarrow> VFSUIO_Close h s
      | Console_ops \<Rightarrow> Console_Close h s)"

section \<open>Handle tables\<close>

definition sizeof_Handle :: u64 where "sizeof_Handle = 80"

definition Handle_GlobalInit :: "'a kern_scheme \<Rightarrow> 'a kern_scheme option" where
  "Handle_GlobalInit s = do {
     (sl, s) \<leftarrow> Slab_Init ''Handle Objects'' sizeof_Handle 16 s;
     Some (s\<lparr>handleSlab := sl\<rparr>)
   }"

definition Handle_Init :: "u64 \<Rightarrow> 'a kern_scheme \<Rightarrow> 'a kern_scheme" where
  "Handle_Init proc = upd_proc proc (\<lambda>p. p\<lparr>p_handles := (\<lambda>i. if i < PROCESS_HANDLE_SLOTS then [] else p_handles p i)\<rparr>)"

definition fd_slot :: "u64 \<Rightarrow> nat" where
  "fd_slot fd = unat fd mod PROCESS_HANDLE_SLOTS"

definition Handle_Destroy_slot :: "u64 \<Rightarrow> nat \<Rightarrow> 'a kern_scheme \<Rightarrow> 'a kern_scheme option" where
  "Handle_Destroy_slot proc i s =
     for_each (p_handles (procs s proc) i) (\<lambda>h s. do {
       let s = upd_proc proc (\<lambda>p. p\<lparr>p_handles := (p_handles p)(i := remove1 h (p_handles p i))\<rparr>) s;
       (r, s) \<leftarrow> handle_close h s;
       Some s
     }) s"

definition Handle_Destroy :: "u64 \<Rightarrow> 'a kern_scheme \<Rightarrow> 'a kern_scheme option" where
  "Handle_Destroy proc = for_each [0..<PROCESS_HANDLE_SLOTS] (Handle_Destroy_slot proc)"

definition Handle_Add :: "u64 \<Rightarrow> u64 \<Rightarrow> 'a kern_scheme \<Rightarrow> (u64 \<times> 'a kern_scheme) option" where
  "Handle_Add proc handle s = do {
     kassert (handle \<noteq> 0);
     let fd = nextFD (procs s proc);
     let s = s\<lparr>hdls := (hdls s)(handle := (hdls s handle)\<lparr>h_fd := fd, h_processId := pid (procs s proc)\<rparr>)\<rparr>;
     Some (fd, upd_proc proc (\<lambda>p. p\<lparr>nextFD := nextFD p + 1,
                 p_handles := (p_handles p)(fd_slot fd := handle # p_handles p (fd_slot fd))\<rparr>) s)
   }"

definition Handle_Remove :: "u64 \<Rightarrow> u64 \<Rightarrow> 'a kern_scheme \<Rightarrow> 'a kern_scheme option" where
  "Handle_Remove proc handle s = do {
     let slot = fd_slot (h_fd (hdls s handle));
     l \<leftarrow> unlink handle (p_handles (procs s proc) slot);
     Some (upd_proc proc (\<lambda>p. p\<lparr>p_handles := (p_handles p)(slot := l)\<rparr>) s)
   }"

definition Handle_Lookup :: "u64 \<Rightarrow> u64 \<Rightarrow> 'a kern_scheme \<Rightarrow> u64 option" where
  "Handle_Lookup proc fd s = List.find (\<lambda>h. h_fd (hdls s h) = fd) (p_handles (procs s proc) (fd_slot fd))"

section \<open>Semaphores\<close>

definition SEMAPHORE_NAMELEN :: nat where "SEMAPHORE_NAMELEN = 32"

definition Semaphore_Init :: "semaptr \<Rightarrow> int \<Rightarrow> string \<Rightarrow> 'a kern_scheme \<Rightarrow> 'a kern_scheme" where
  "Semaphore_Init sema count name s =
     s\<lparr>semas := (semas s)(sema := \<lparr>sem_name = take SEMAPHORE_NAMELEN name, sem_count = count, waiters = []\<rparr>),
       semaList := sema # semaList s\<rparr>"

definition Semaphore_Destroy :: "semaptr \<Rightarrow> 'a kern_scheme \<Rightarrow> 'a kern_scheme option" where
  "Semaphore_Destroy sema s = do { l \<leftarrow> unlink sema (semaList s); Some (s\<lparr>semaList := l\<rparr>) }"

definition upd_sema :: "semaptr \<Rightarrow> (Semaphore \<Rightarrow> Semaphore) \<Rightarrow> 'a kern_scheme \<Rightarrow> 'a kern_scheme" where
  "upd_sema x f s = s\<lparr>semas := (semas s)(x := f (semas s x))\<rparr>"

definition Semaphore_Release :: "semaptr \<Rightarrow> 'a kern_scheme \<Rightarrow> 'a kern_scheme option" where
  "Semaphore_Release sema s = do {
     kassert (sem_count (semas s sema) < 2147483647);
     let s = upd_sema sema (sem_count_update (\<lambda>c. c + 1)) s;
     case waiters (semas s sema) of
       [] \<Rightarrow> Some s
     | thr # ws \<Rightarrow> Sched_SetRunnable thr (upd_sema sema (waiters_update (\<lambda>_. ws)) s)
   }"

definition Semaphore_TryAcquire :: "semaptr \<Rightarrow> 'a kern_scheme \<Rightarrow> bool \<times> 'a kern_scheme" where
  "Semaphore_TryAcquire sema s =
     (if 0 < sem_count (semas s sema) then (True, upd_sema sema (sem_count_update (\<lambda>c. c - 1)) s) else (False, s))"

section \<open>Processes\<close>

definition sizeof_Process :: u64 where "sizeof_Process = 3424"

text \<open>
  A title of 128 characters or more has its terminator in the first byte of \<^verbatim>\<open>procState\<close>, which
  is \<^verbatim>\<open>PROC_STATE_NULL\<close>, that is 0, at this point anyway.
\<close>

definition Process_fresh :: "u64 \<Rightarrow> u8 list \<Rightarrow> Process" where
  "Process_fresh ident title = Process_zero\<lparr>pid := ident, p_refCount := 1, p_procState := PROC_STATE_NULL,
     p_title := take PROCESS_TITLE_LENGTH title\<rparr>"

definition Process_Create :: "u64 \<Rightarrow> u8 list \<Rightarrow> 'a kern_scheme \<Rightarrow> (u64 \<times> 'a kern_scheme) option" where
  "Process_Create par title s = do {
     (p, sl, s) \<leftarrow> Slab_Alloc (processSlab s) s;
     let s = s\<lparr>processSlab := sl\<rparr>;
     case p of None \<Rightarrow> Some (0, s)
     | Some proc \<Rightarrow> do {
         let s = (upd_proc proc (\<lambda>_. Process_fresh (nextProcessID s) title) s)\<lparr>nextProcessID := nextProcessID s + 1\<rparr>;
         (as, s) \<leftarrow> PMap_NewAS s;
         if as = 0 then Some (0, s\<lparr>processSlab := Slab_Free (processSlab s) proc\<rparr>)
         else do {
           let s = upd_proc proc (\<lambda>p. p\<lparr>p_space := as, ustackNext := MEM_USERSPACE_STKBASE\<rparr>) s;
           let s = Semaphore_Init (zombieSemaphore proc) 0 ''Zombie Semaphore'' s;
           let s = Handle_Init proc s;
           let s = upd_proc proc (\<lambda>p. p\<lparr>parent := par\<rparr>) s;
           let s = (if par \<noteq> 0 then upd_proc par (\<lambda>p. p\<lparr>childrenList := childrenList p @ [proc]\<rparr>) s else s);
           let s = upd_proc proc (\<lambda>p. p\<lparr>childrenList := [], zombieProc := []\<rparr>) s;
           let s = Mutex_Init (zombieProcLock proc) ''Zombie Process Lock'' s;
           let s = CV_Init (zombieProcCV proc) ''Zombie Process CV'' s;
           let s = CV_Init (zombieProcPCV proc) ''Zombie Process PCV'' s;
           Some (proc, s\<lparr>processList := processList s @ [proc]\<rparr>)
         }
       }
   }"

definition Process_Destroy :: "u64 \<Rightarrow> 'a kern_scheme \<Rightarrow> 'a kern_scheme option" where
  "Process_Destroy proc s = do {
     s \<leftarrow> Handle_Destroy proc s;
     s \<leftarrow> Semaphore_Destroy (zombieSemaphore proc) s;
     s \<leftarrow> CV_Destroy (zombieProcPCV proc) s;
     s \<leftarrow> CV_Destroy (zombieProcCV proc) s;
     s \<leftarrow> Mutex_Destroy (zombieProcLock proc) s;
     s \<leftarrow> PMap_DestroyAS (p_space (procs s proc)) s;
     l \<leftarrow> unlink proc (processList s);
     Some (s\<lparr>processList := l, processSlab := Slab_Free (processSlab s) proc\<rparr>)
   }"

definition Process_Retain :: "u64 \<Rightarrow> 'a kern_scheme \<Rightarrow> 'a kern_scheme option" where
  "Process_Retain proc s = do {
     kassert (p_refCount (procs s proc) \<noteq> 0);
     Some (upd_proc proc (p_refCount_update (\<lambda>c. c + 1)) s)
   }"

definition Process_Release :: "u64 \<Rightarrow> 'a kern_scheme \<Rightarrow> 'a kern_scheme option" where
  "Process_Release proc s = do {
     kassert (p_refCount (procs s proc) \<noteq> 0);
     let old = p_refCount (procs s proc);
     let s = upd_proc proc (p_refCount_update (\<lambda>c. c - 1)) s;
     if old = 1 then Process_Destroy proc s else Some s
   }"

definition Process_Lookup :: "u64 \<Rightarrow> 'a kern_scheme \<Rightarrow> (u64 \<times> 'a kern_scheme) option" where
  "Process_Lookup ident s =
     (case List.find (\<lambda>p. pid (procs s p) = ident) (processList s) of
        None \<Rightarrow> Some (0, s)
      | Some p \<Rightarrow> do { s \<leftarrow> Process_Retain p s; Some (p, s) })"

definition SYSCALL_PACK :: "u64 \<Rightarrow> u64 \<Rightarrow> u64" where
  "SYSCALL_PACK errcode val = push_bit 32 errcode OR val"

definition SYSCALL_ERRCODE :: "u64 \<Rightarrow> u64" where
  "SYSCALL_ERRCODE result = drop_bit 32 result"

definition SYSCALL_VALUE :: "u64 \<Rightarrow> u64" where
  "SYSCALL_VALUE result = result AND 0xFFFFFFFF"

text \<open>
  \<^verbatim>\<open>Process_Wait\<close> is a placeholder that returns at once; the code after its \<^verbatim>\<open>return\<close> is dead.
\<close>

definition Process_Wait :: "u64 \<Rightarrow> u64 \<Rightarrow> 'a kern_scheme \<Rightarrow> u64 option" where
  "Process_Wait proc ident s = do { kassert (ident \<noteq> 0); Some (SYSCALL_PACK 0 (push_bit 16 ident)) }"

section \<open>Threads\<close>

definition sizeof_Thread :: u64 where "sizeof_Thread = 616"

text \<open>The allocation of a zeroed thread with its kernel stack; 0 if there is no memory.\<close>

definition Thread_new :: "u64 \<Rightarrow> 'a kern_scheme \<Rightarrow> (u64 \<times> 'a kern_scheme) option" where
  "Thread_new proc s = do {
     (t, sl, s) \<leftarrow> Slab_Alloc (threadSlab s) s;
     let s = s\<lparr>threadSlab := sl\<rparr>;
     case t of None \<Rightarrow> Some (0, s)
     | Some thr \<Rightarrow> do {
         kassert (proc \<noteq> 0);
         let s = upd_thr thr (\<lambda>_. Thread_zero\<lparr>tid := nextThreadID (procs s proc)\<rparr>) s;
         let s = upd_proc proc (\<lambda>p. p\<lparr>nextThreadID := nextThreadID p + 1\<rparr>) s;
         (pg, s) \<leftarrow> PAlloc_AllocPage s;
         let s = upd_thr thr (\<lambda>t. t\<lparr>kstack := pg\<rparr>) s;
         if pg = 0 then Some (0, s\<lparr>threadSlab := Slab_Free (threadSlab s) thr\<rparr>) else Some (thr, s)
       }
   }"

definition Thread_Create :: "u64 \<Rightarrow> 'a kern_scheme \<Rightarrow> (u64 \<times> 'a kern_scheme) option" where
  "Thread_Create proc s = do {
     (thr, s) \<leftarrow> Thread_new proc s;
     if thr = 0 then Some (0, s)
     else do {
       s \<leftarrow> Process_Retain proc s;
       let s = upd_thr thr (\<lambda>t. t\<lparr>t_proc := proc, t_space := p_space (procs s proc),
                 ustack := ustackNext (procs s proc)\<rparr>) s;
       let s = upd_proc proc (\<lambda>p. p\<lparr>p_threads := p_threads p + 1, threadList := threadList p @ [thr],
                 ustackNext := ustackNext p + MEM_USERSPACE_STKLEN\<rparr>) s;
       let s = upd_thr thr (\<lambda>t. t\<lparr>t_schedState := SCHED_STATE_NULL, timerEvt := 0, t_refCount := 1\<rparr>) s;
       Some (thr, Thread_InitArch thr s)
     }
   }"

definition Thread_KThreadCreate :: "code \<Rightarrow> u64 \<Rightarrow> 'a kern_scheme \<Rightarrow> (u64 \<times> 'a kern_scheme) option" where
  "Thread_KThreadCreate f arg s = do {
     (thr, s) \<leftarrow> Thread_Create (kernelProcess s) s;
     Some (thr, if thr = 0 then s else Thread_SetupKThread thr f arg 0 0 s)
   }"

definition Thread_UThreadCreate :: "u64 \<Rightarrow> u64 \<Rightarrow> u64 \<Rightarrow> 'a kern_scheme \<Rightarrow> (u64 \<times> 'a kern_scheme) option" where
  "Thread_UThreadCreate oldThr rip arg s = do {
     let proc = t_proc (thrs s oldThr);
     (thr, s) \<leftarrow> Thread_new proc s;
     if thr = 0 then Some (0, s)
     else do {
       let s = upd_thr thr (\<lambda>t. t\<lparr>t_space := t_space (thrs s oldThr), t_schedState := SCHED_STATE_NULL,
                 t_refCount := 1, ustack := ustackNext (procs s proc)\<rparr>) s;
       let s = upd_proc proc (\<lambda>p. p\<lparr>ustackNext := ustackNext p + MEM_USERSPACE_STKLEN\<rparr>) s;
       s \<leftarrow> PMap_AllocMap (t_space (thrs s thr)) (ustack (thrs s thr)) MEM_USERSPACE_STKLEN PTE_W s;
       let s = Thread_SetupUThread thr rip arg (Thread_InitArch thr s);
       s \<leftarrow> Process_Retain proc s;
       let s = upd_thr thr (\<lambda>t. t\<lparr>t_proc := proc\<rparr>) s;
       Some (thr, upd_proc proc (\<lambda>p. p\<lparr>p_threads := p_threads p + 1, threadList := threadList p @ [thr]\<rparr>) s)
     }
   }"

definition Thread_Destroy :: "u64 \<Rightarrow> 'a kern_scheme \<Rightarrow> 'a kern_scheme option" where
  "Thread_Destroy thr s = do {
     let proc = t_proc (thrs s thr);
     kassert (pid (procs s proc) \<noteq> 1);
     l \<leftarrow> unlink thr (threadList (procs s proc));
     let s = upd_proc proc (\<lambda>p. p\<lparr>p_threads := p_threads p - 1, threadList := l\<rparr>) s;
     s \<leftarrow> PAlloc_Release (kstack (thrs s thr)) s;
     s \<leftarrow> Process_Release (t_proc (thrs s thr)) s;
     Some (s\<lparr>threadSlab := Slab_Free (threadSlab s) thr\<rparr>)
   }"

definition Thread_Release :: "u64 \<Rightarrow> 'a kern_scheme \<Rightarrow> 'a kern_scheme option" where
  "Thread_Release thr s = do {
     kassert (t_refCount (thrs s thr) \<noteq> 0);
     let old = t_refCount (thrs s thr);
     let s = upd_thr thr (t_refCount_update (\<lambda>c. c - 1)) s;
     if old = 1 then Thread_Destroy thr s else Some s
   }"

definition Thread_Lookup :: "u64 \<Rightarrow> u64 \<Rightarrow> 'a kern_scheme \<Rightarrow> (u64 \<times> 'a kern_scheme) option" where
  "Thread_Lookup proc ident s =
     (case List.find (\<lambda>t. tid (thrs s t) = ident) (threadList (procs s proc)) of
        None \<Rightarrow> Some (0, s)
      | Some t \<Rightarrow> do { s \<leftarrow> Thread_Retain t s; Some (t, s) })"

definition Thread_Wait_take :: "u64 \<Rightarrow> u64 \<Rightarrow> 'a kern_scheme \<Rightarrow> (u64 \<times> 'a kern_scheme) option" where
  "Thread_Wait_take proc t s = do {
     let s = upd_proc proc (\<lambda>p. p\<lparr>zombieQueue := remove1 t (zombieQueue p)\<rparr>) s;
     let status = exitValue (thrs s t);
     s \<leftarrow> Thread_Release t s;
     Some (SYSCALL_PACK 0 status, s)
   }"

definition Thread_Wait :: "u64 \<Rightarrow> u64 \<Rightarrow> 'a kern_scheme \<Rightarrow> (u64 \<times> 'a kern_scheme) option" where
  "Thread_Wait thr ident s = do {
     let proc = t_proc (thrs s thr);
     kassert (proc \<noteq> 0);
     if ident = TID_ANY
     then (case zombieQueue (procs s proc) of
             [] \<Rightarrow> Some (SYSCALL_PACK (of_int EAGAIN) 0, s)
           | t # _ \<Rightarrow> Thread_Wait_take proc t s)
     else (case List.find (\<lambda>t. tid (thrs s t) = ident) (zombieQueue (procs s proc)) of
             None \<Rightarrow> Some (0, s)
           | Some t \<Rightarrow> Thread_Wait_take proc t s)
   }"

text \<open>\<^verbatim>\<open>Thread_Init\<close>: the kernel process, the process \<^verbatim>\<open>init\<close> and the thread that is running.\<close>

definition Thread_Init :: "u8 list \<Rightarrow> u8 list \<Rightarrow> 'a kern_scheme \<Rightarrow> 'a kern_scheme option" where
  "Thread_Init kernel_title init_title s = do {
     (ps, s) \<leftarrow> Slab_Init ''Process Objects'' sizeof_Process 16 (s\<lparr>nextProcessID := 1\<rparr>);
     (ts, s) \<leftarrow> Slab_Init ''Thread Objects'' sizeof_Thread 16 (s\<lparr>processSlab := ps\<rparr>);
     s \<leftarrow> Handle_GlobalInit (s\<lparr>threadSlab := ts, waitQueue := [], runnableQueue := [], processList := []\<rparr>);
     (kp, s) \<leftarrow> Process_Create 0 kernel_title s;
     (proc, s) \<leftarrow> Process_Create 0 init_title (s\<lparr>kernelProcess := kp\<rparr>);
     (thr, s) \<leftarrow> Thread_Create proc s;
     kassert (thr \<noteq> 0);
     Some ((upd_thr thr (t_schedState_update (\<lambda>_. SCHED_STATE_RUNNING)) s)\<lparr>curProc := (curProc s)(0 := thr)\<rparr>)
   }"

definition Thread_InitAP :: "nat \<Rightarrow> 'a kern_scheme \<Rightarrow> 'a kern_scheme option" where
  "Thread_InitAP cpu s = do {
     (thr, s) \<leftarrow> Thread_Create (kernelProcess s) s;
     kassert (thr \<noteq> 0);
     Some ((upd_thr thr (t_schedState_update (\<lambda>_. SCHED_STATE_RUNNING)) s)\<lparr>curProc := (curProc s)(cpu := thr)\<rparr>)
   }"

section \<open>Waking and blocking\<close>

definition WaitChannel_wake_one :: "chanptr \<Rightarrow> u64 \<Rightarrow> 'a kern_scheme \<Rightarrow> 'a kern_scheme option" where
  "WaitChannel_wake_one wchan thr s = do {
     let s = s\<lparr>chans := (chans s)(wchan := (chans s wchan)\<lparr>chanQueue := remove1 thr (chanQueue (chans s wchan))\<rparr>)\<rparr>;
     s \<leftarrow> Sched_SetRunnable thr s;
     Thread_Release thr s
   }"

definition WaitChannel_Wake :: "chanptr \<Rightarrow> 'a kern_scheme \<Rightarrow> 'a kern_scheme option" where
  "WaitChannel_Wake wchan s =
     (case chanQueue (chans s wchan) of [] \<Rightarrow> Some s | thr # _ \<Rightarrow> WaitChannel_wake_one wchan thr s)"

definition WaitChannel_WakeAll :: "chanptr \<Rightarrow> 'a kern_scheme \<Rightarrow> 'a kern_scheme option" where
  "WaitChannel_WakeAll wchan s = for_each (chanQueue (chans s wchan)) (WaitChannel_wake_one wchan) s"

text \<open>
  One round of the loop of \<^verbatim>\<open>Semaphore_Acquire\<close> by the thread \<open>cur\<close>.  The flag tells whether the
  semaphore is acquired; if not, the thread is queued and the CPU runs another thread, and the
  next round follows when \<open>cur\<close> runs again.  \<open>Semaphore_Enqueue\<close> is the part under the lock of
  the semaphore.
\<close>

definition Semaphore_Enqueue :: "semaptr \<Rightarrow> u64 \<Rightarrow> 'a kern_scheme \<Rightarrow> 'a kern_scheme option" where
  "Semaphore_Enqueue sema cur s =
     Sched_SetWaiting cur (upd_sema sema (\<lambda>m. m\<lparr>waiters := waiters m @ [cur]\<rparr>) s)"

definition Semaphore_Acquire_round :: "nat \<Rightarrow> semaptr \<Rightarrow> u64 \<Rightarrow> 'a kern_scheme \<Rightarrow> (bool \<times> 'a kern_scheme) option" where
  "Semaphore_Acquire_round cpu sema cur s =
     (if 0 < sem_count (semas s sema)
      then do {
        s \<leftarrow> Thread_Release cur (upd_sema sema (sem_count_update (\<lambda>c. c - 1)) s);
        Some (True, s)
      }
      else do {
        s \<leftarrow> Semaphore_Enqueue sema cur s;
        s \<leftarrow> Sched_Scheduler cpu s;
        Some (False, s)
      })"

definition Semaphore_Acquire :: "nat \<Rightarrow> semaptr \<Rightarrow> 'a kern_scheme \<Rightarrow> (bool \<times> 'a kern_scheme) option" where
  "Semaphore_Acquire cpu sema s = do {
     (cur, s) \<leftarrow> Sched_Current cpu s;
     Semaphore_Acquire_round cpu sema cur s
   }"

end
