(* ===== verification/Loader.thy ===== *)
theory Loader
  imports ProcThread
begin

text \<open>
  The program loader (\<^verbatim>\<open>sys/kern/loader.c\<close>): the check of the ELF header, loading and zeroing
  segments page by page through the page tables of the target address space, and the loader of
  a program and of \<^verbatim>\<open>init\<close>.  The headers are read from the bytes of memory.
\<close>

section \<open>ELF headers\<close>

definition rd32 :: "bytes \<Rightarrow> u64 \<Rightarrow> u32" where
  "rd32 m a = ucast (m a) OR push_bit 8 (ucast (m (a + 1))) OR push_bit 16 (ucast (m (a + 2))) OR push_bit 24 (ucast (m (a + 3)))"

definition EM_AMD64 :: u16 where "EM_AMD64 = 62"
definition ELFCLASS64 :: u8 where "ELFCLASS64 = 2"
definition PT_LOAD :: u32 where "PT_LOAD = 1"
definition PT_DYNAMIC :: u32 where "PT_DYNAMIC = 2"

definition e_machine :: "bytes \<Rightarrow> u64 \<Rightarrow> u16" where "e_machine m e = rd16 m (e + 18)"
definition e_entry :: "bytes \<Rightarrow> u64 \<Rightarrow> u64" where "e_entry m e = rd64 m (e + 24)"
definition e_phoff :: "bytes \<Rightarrow> u64 \<Rightarrow> u64" where "e_phoff m e = rd64 m (e + 32)"
definition e_phnum :: "bytes \<Rightarrow> u64 \<Rightarrow> u16" where "e_phnum m e = rd16 m (e + 56)"

definition sizeof_Elf64_Phdr :: u64 where "sizeof_Elf64_Phdr = 56"

definition p_type :: "bytes \<Rightarrow> u64 \<Rightarrow> u32" where "p_type m p = rd32 m p"
definition p_offset :: "bytes \<Rightarrow> u64 \<Rightarrow> u64" where "p_offset m p = rd64 m (p + 8)"
definition p_vaddr :: "bytes \<Rightarrow> u64 \<Rightarrow> u64" where "p_vaddr m p = rd64 m (p + 16)"
definition p_filesz :: "bytes \<Rightarrow> u64 \<Rightarrow> u64" where "p_filesz m p = rd64 m (p + 32)"
definition p_memsz :: "bytes \<Rightarrow> u64 \<Rightarrow> u64" where "p_memsz m p = rd64 m (p + 40)"

definition Loader_CheckHeader :: "bytes \<Rightarrow> u64 \<Rightarrow> bool" where
  "Loader_CheckHeader m e \<longleftrightarrow>
     \<not> (m e \<noteq> 0x7f \<or> m (e + 1) \<noteq> 0x45 \<or> m (e + 2) \<noteq> 0x4c \<or> m (e + 3) \<noteq> 0x46) \<and>
     m (e + 4) = ELFCLASS64 \<and> e_machine m e = EM_AMD64"

section \<open>Segments\<close>

text \<open>The address in the direct map of the page of a user address.\<close>

definition user_page :: "u64 \<Rightarrow> u64 \<Rightarrow> 'a vmem_scheme \<Rightarrow> u64 option" where
  "user_page as va s = do { pa \<leftarrow> PMap_Translate as va s; Some (DMPA2VA pa) }"

definition load_piece :: "u64 \<Rightarrow> u64 \<Rightarrow> u64 \<Rightarrow> u64 \<Rightarrow> u64 \<Rightarrow> 'a kern_scheme \<Rightarrow> 'a kern_scheme option" where
  "load_piece as vn vaddr off len s = do {
     raddr \<leftarrow> user_page as vaddr s;
     (r, s) \<leftarrow> VFS_Read vn raddr off len s;
     Some s
   }"

partial_function (option) LoadSegment_loop ::
  "u64 \<Rightarrow> u64 \<Rightarrow> u64 \<Rightarrow> u64 \<Rightarrow> u64 \<Rightarrow> 'a kern_scheme \<Rightarrow> 'a kern_scheme option" where
  "LoadSegment_loop as vn vaddr off len s =
     (if PGSIZE < len
      then Option.bind (load_piece as vn vaddr off PGSIZE s)
             (LoadSegment_loop as vn (vaddr + PGSIZE) (off + PGSIZE) (len - PGSIZE))
      else if 0 < len then load_piece as vn vaddr off len s
      else Some s)"

definition first_len :: "u64 \<Rightarrow> u64 \<Rightarrow> u64" where
  "first_len vaddr len = (if PGSIZE - vaddr mod PGSIZE < len then PGSIZE - vaddr mod PGSIZE else len)"

definition LoaderLoadSegment :: "u64 \<Rightarrow> u64 \<Rightarrow> u64 \<Rightarrow> u64 \<Rightarrow> u64 \<Rightarrow> 'a kern_scheme \<Rightarrow> 'a kern_scheme option" where
  "LoaderLoadSegment as vn vaddr off len s =
     (if vaddr mod PGSIZE \<noteq> 0
      then do {
        let rlen = first_len vaddr len;
        s \<leftarrow> load_piece as vn vaddr off rlen s;
        LoadSegment_loop as vn (vaddr + rlen) (off + rlen) (len - rlen) s
      }
      else LoadSegment_loop as vn vaddr off len s)"

definition zero_piece :: "u64 \<Rightarrow> u64 \<Rightarrow> u64 \<Rightarrow> 'a kern_scheme \<Rightarrow> 'a kern_scheme option" where
  "zero_piece as vaddr len s = do {
     raddr \<leftarrow> user_page as vaddr s;
     Some (s\<lparr>bmem := memset raddr 0 len (bmem s)\<rparr>)
   }"

partial_function (option) ZeroSegment_loop :: "u64 \<Rightarrow> u64 \<Rightarrow> u64 \<Rightarrow> 'a kern_scheme \<Rightarrow> 'a kern_scheme option" where
  "ZeroSegment_loop as vaddr len s =
     (if PGSIZE < len
      then Option.bind (zero_piece as vaddr PGSIZE s) (ZeroSegment_loop as (vaddr + PGSIZE) (len - PGSIZE))
      else if 0 < len then zero_piece as vaddr len s
      else Some s)"

definition LoaderZeroSegment :: "u64 \<Rightarrow> u64 \<Rightarrow> u64 \<Rightarrow> 'a kern_scheme \<Rightarrow> 'a kern_scheme option" where
  "LoaderZeroSegment as vaddr len s =
     (if vaddr mod PGSIZE \<noteq> 0
      then do {
        let rlen = first_len vaddr len;
        s \<leftarrow> zero_piece as vaddr rlen s;
        ZeroSegment_loop as (vaddr + rlen) (len - rlen) s
      }
      else ZeroSegment_loop as vaddr len s)"

section \<open>Programs\<close>

text \<open>\<open>phdr\<close> is the address of the first program header, \<open>i\<close> the index of one.\<close>

definition Load_map :: "u64 \<Rightarrow> u64 \<Rightarrow> nat \<Rightarrow> 'a kern_scheme \<Rightarrow> 'a kern_scheme option" where
  "Load_map as phdr i s = do {
     let p = phdr + of_nat i * sizeof_Elf64_Phdr;
     kassert (p_type (bmem s) p \<noteq> PT_DYNAMIC);
     if p_type (bmem s) p = PT_LOAD
     then do {
       let va = p_vaddr (bmem s) p AND NOT PGMASK;
       let memsz = p_memsz (bmem s) p + (p_vaddr (bmem s) p - va);
       PMap_AllocMap as va memsz PTE_W s
     }
     else Some s
   }"

definition Load_segment :: "u64 \<Rightarrow> u64 \<Rightarrow> u64 \<Rightarrow> nat \<Rightarrow> 'a kern_scheme \<Rightarrow> 'a kern_scheme option" where
  "Load_segment as vn phdr i s = do {
     let p = phdr + of_nat i * sizeof_Elf64_Phdr;
     if p_type (bmem s) p = PT_LOAD
     then do {
       s \<leftarrow> LoaderLoadSegment as vn (p_vaddr (bmem s) p) (p_offset (bmem s) p) (p_filesz (bmem s) p) s;
       if p_filesz (bmem s) p \<le> p_memsz (bmem s) p
       then LoaderZeroSegment as (p_filesz (bmem s) p + p_vaddr (bmem s) p) (p_memsz (bmem s) p - p_filesz (bmem s) p) s
       else Some s
     }
     else Some s
   }"

text \<open>A loop over the program headers; \<^verbatim>\<open>e_phnum\<close> is read in every iteration.\<close>

partial_function (option) Load_loop ::
  "(nat \<Rightarrow> 'a kern_scheme \<Rightarrow> 'a kern_scheme option) \<Rightarrow> u64 \<Rightarrow> nat \<Rightarrow> 'a kern_scheme \<Rightarrow> 'a kern_scheme option" where
  "Load_loop f buf i s =
     (if i < unat (e_phnum (bmem s) buf) then Option.bind (f i s) (Load_loop f buf (i + 1)) else Some s)"

definition Loader_Load :: "u64 \<Rightarrow> u64 \<Rightarrow> u64 \<Rightarrow> u64 \<Rightarrow> 'a kern_scheme \<Rightarrow> (bool \<times> 'a kern_scheme) option" where
  "Loader_Load thr vn buf len s = do {
     let as = t_space (thrs s thr);
     let phdr = buf + e_phoff (bmem s) buf;
     if \<not> Loader_CheckHeader (bmem s) buf then Some (False, s)
     else do {
       s \<leftarrow> Load_loop (Load_map as phdr) buf 0 s;
       s \<leftarrow> PMap_AllocMap as MEM_USERSPACE_STKBASE MEM_USERSPACE_STKLEN PTE_W s;
       s \<leftarrow> Load_loop (Load_segment as vn phdr) buf 0 s;
       Some (True, upd_proc (t_proc (thrs s thr)) (\<lambda>p. p\<lparr>entrypoint := e_entry (bmem s) buf\<rparr>) s)
     }
   }"

definition open_console :: "u64 \<Rightarrow> 'a kern_scheme \<Rightarrow> 'a kern_scheme option" where
  "open_console proc s = do {
     (h, s) \<leftarrow> Console_OpenHandle s;
     (fd, s) \<leftarrow> Handle_Add proc h s;
     Some s
   }"

text \<open>
  \<^verbatim>\<open>Loader_LoadInit\<close> up to the return to user level: the result is the trap frame it pops.
  \<open>path\<close> is the address of the string \<^verbatim>\<open>/sbin/init\<close>, \<open>ap\<close> of the local array of arguments.
\<close>

definition Loader_LoadInit :: "nat \<Rightarrow> u64 \<Rightarrow> u64 \<Rightarrow> 'a kern_scheme \<Rightarrow> (TrapFrame \<times> 'a kern_scheme) option" where
  "Loader_LoadInit cpu path ap s = do {
     (pg, s) \<leftarrow> alloc_page s;
     kassert (pg \<noteq> 0);
     (initvn, s) \<leftarrow> VFS_Lookup path s;
     status \<leftarrow> VFS_Open initvn s;
     kassert (\<not> status < 0);
     (status, s) \<leftarrow> VFS_Read initvn pg 0 1024 s;
     kassert (\<not> status < 0);
     (thr, s) \<leftarrow> Sched_Current cpu s;
     s \<leftarrow> open_console (t_proc (thrs s thr)) s;
     s \<leftarrow> open_console (t_proc (thrs s thr)) s;
     s \<leftarrow> open_console (t_proc (thrs s thr)) s;
     (ok, s) \<leftarrow> Loader_Load thr initvn pg 1024 s;
     status \<leftarrow> VFS_Close initvn s;
     let s = PMap_LoadAS cpu (t_space (thrs s thr)) s;
     let s = s\<lparr>bmem := wr64 (ap + 16) 0xDEADBEEF (wr64 (ap + 8) 0 (wr64 ap 0 (bmem s)))\<rparr>;
     let rsp = MEM_USERSPACE_STKTOP - PGSIZE;
     let s = snd (Copy_Out ap rsp 24 s);
     Some (\<lparr>tf_rdi = rsp, tf_rsi = 0, tf_rdx = 0, tf_ds = SEL_UDS OR 3,
            tf_rip = UserCode (entrypoint (procs s (t_proc (thrs s thr)))), tf_cs = SEL_UCS OR 3,
            tf_rflags = RFLAGS_IF, tf_rsp = rsp, tf_ss = SEL_UDS OR 3\<rparr>, s)
   }"

end
