(* ===== verification/Waiting.thy ===== *)
theory Waiting
  imports ProcThread
begin

text \<open>
  Wait channels (\<^verbatim>\<open>sys/kern/waitchannel.c\<close>) and semaphores (\<^verbatim>\<open>sys/kern/semaphore.c\<close>) on top of the
  scheduler: the order in which sleeping threads are woken, the semaphore as a counter with a
  queue, and the race between going to sleep and switching.
\<close>

section \<open>Waking sleeping threads\<close>

lemma semas_upd [simp]: "semas (Sched_Switch c a b s) = semas s" "semas (upd_thr t f s) = semas s" "semas (upd_proc p g s) = semas s"
  by (simp_all add: Sched_Switch_def Thread_SwitchArch_def switchstack_def PMap_LoadAS_def Let_def upd_thr_def upd_proc_def)

lemma Sched_Scheduler_frame:
  assumes "Sched_Scheduler c s = Some s'"
  shows "semas s' = semas s" "chans s' = chans s" "ticksPerSecond s' = ticksPerSecond s" "waitQueue s' = waitQueue s"
    "t_refCount (thrs s' t) = t_refCount (thrs s t)"
proof -
  have "semas s' = semas s \<and> chans s' = chans s \<and> ticksPerSecond s' = ticksPerSecond s \<and> waitQueue s' = waitQueue s \<and>
      t_refCount (thrs s' t) = t_refCount (thrs s t)"
  proof (cases "runnableQueue s")
    case Nil
    with assms show ?thesis by (auto simp: Sched_Scheduler_def)
  next
    case (Cons nxt rest)
    with assms show ?thesis by (auto simp: Sched_Scheduler_def Let_def split: if_splits)
  qed
  then show "semas s' = semas s" "chans s' = chans s" "ticksPerSecond s' = ticksPerSecond s" "waitQueue s' = waitQueue s"
    "t_refCount (thrs s' t) = t_refCount (thrs s t)" by blast+
qed

lemma Thread_Release_keep:
  assumes "t_refCount (thrs s t) \<notin> {0, 1}"
  shows "Thread_Release t s = Some (upd_thr t (t_refCount_update (\<lambda>c. c - 1)) s)"
  using assms by (simp add: Thread_Release_def Let_def)

text \<open>
  The threads in a wait channel are waiting, each is there once and the channel holds a
  reference to it that is not the last one.
\<close>

definition chan_ok :: "chanptr \<Rightarrow> 'a kern_scheme \<Rightarrow> bool" where
  "chan_ok w s \<longleftrightarrow> ticksPerSecond s \<noteq> 0 \<and> distinct (chanQueue (chans s w)) \<and>
     (\<forall>t \<in> set (chanQueue (chans s w)). st s t = SCHED_STATE_WAITING \<and> t_refCount (thrs s t) \<notin> {0, 1})"

lemma WaitChannel_wake_one_view:
  assumes i: "sched_inv C s" and ok: "chan_ok w s" and q: "chanQueue (chans s w) = t # ts"
  obtains s' where "WaitChannel_wake_one w t s = Some s'" "sched_inv C s'" "chan_ok w s'" "chanQueue (chans s' w) = ts"
    "runnableQueue s' = runnableQueue s @ [t]" "curProc s' = curProc s"
    "\<And>x. t_refCount (thrs s' x) = t_refCount (thrs s x) - (if x = t then 1 else 0)"
proof -
  let ?s1 = "s\<lparr>chans := (chans s)(w := (chans s w)\<lparr>chanQueue := ts\<rparr>)\<rparr>"
  have t: "st s t = SCHED_STATE_WAITING" "t_refCount (thrs s t) \<notin> {0, 1}" "t \<notin> set ts" "ticksPerSecond s \<noteq> 0"
    using ok q by (auto simp: chan_ok_def)
  then have t0: "t \<noteq> 0" using sched_invD(7) [OF i] by auto
  have i1: "sched_inv C ?s1" using i by (simp add: sched_inv_cong [of ?s1 s] st_def fun_eq_iff)
  have st1: "st ?s1 = st s" by (simp add: st_def fun_eq_iff)
  obtain s2 where s2: "Sched_SetRunnable t ?s1 = Some s2" "sched_inv C s2" "runnableQueue s2 = runnableQueue ?s1 @ [t]"
      "curProc s2 = curProc ?s1" "st s2 = (st ?s1)(t := SCHED_STATE_RUNNABLE)" "chans s2 = chans ?s1"
      "ticksPerSecond s2 = ticksPerSecond ?s1" "\<And>x. t_refCount (thrs s2 x) = t_refCount (thrs ?s1 x)"
    by (rule Sched_SetRunnable_view [OF i1 t0]) (use t st1 in simp_all)
  let ?s3 = "upd_thr t (t_refCount_update (\<lambda>c. c - 1)) s2"
  have st3: "st ?s3 = st s2" by simp
  have "WaitChannel_wake_one w t s = Some ?s3"
    using s2(1) Thread_Release_keep [of s2 t] s2(8) [of t] t(2) q by (simp add: WaitChannel_wake_one_def Let_def)
  moreover have "sched_inv C ?s3" using s2(2) by (simp add: sched_inv_cong [of ?s3 s2] st3)
  moreover have "chan_ok w ?s3" unfolding chan_ok_def st3 s2(5) st1
    using ok q t(3) s2(6-8) by (auto simp: chan_ok_def)
  ultimately show thesis using that [of ?s3] s2 by simp
qed

lemma wake_run:
  assumes "sched_inv C s" and "chan_ok w s" and "chanQueue (chans s w) = ts @ rest"
  shows "\<exists>s'. for_each ts (\<lambda>t. WaitChannel_Wake w) s = Some s' \<and> for_each ts (WaitChannel_wake_one w) s = Some s' \<and>
     sched_inv C s' \<and> chan_ok w s' \<and> chanQueue (chans s' w) = rest \<and> runnableQueue s' = runnableQueue s @ ts \<and>
     curProc s' = curProc s"
  using assms
proof (induction ts arbitrary: s)
  case (Cons t ts)
  then obtain s1 where "WaitChannel_wake_one w t s = Some s1" "sched_inv C s1" "chan_ok w s1" "chanQueue (chans s1 w) = ts @ rest"
    "runnableQueue s1 = runnableQueue s @ [t]" "curProc s1 = curProc s"
    by (metis WaitChannel_wake_one_view append_Cons)
  with Cons.IH [of s1] Cons.prems(3) show ?case by (auto simp: WaitChannel_Wake_def)
qed simp

lemma for_each_const: "length xs = length ys \<Longrightarrow> for_each xs (\<lambda>_. f) s = for_each ys (\<lambda>_. f) s"
  by (induction xs ys arbitrary: s rule: list_induct2) (auto simp: fun_eq_iff intro: arg_cong [where f = "Option.bind _"])

text \<open>
  C16. Wait channels are fair: when threads sleep on a channel, \<open>k\<close> wake-ups make the \<open>k\<close> threads
  that have slept longest runnable, in the order in which they went to sleep and behind the
  threads that are already runnable, and the others stay asleep; waking all threads does the
  same for all of them.  No assertion fails and the scheduler's queues stay consistent.
\<close>

theorem wait_channel_fifo:
  fixes s :: "'a kern_scheme"
  assumes "sched_inv C s" and "chan_ok w s" and "k \<le> length (chanQueue (chans s w))"
  shows "(\<exists>s'. for_each [0..<k] (\<lambda>_. WaitChannel_Wake w) s = Some s' \<and> sched_inv C s' \<and>
      runnableQueue s' = runnableQueue s @ take k (chanQueue (chans s w)) \<and> chanQueue (chans s' w) = drop k (chanQueue (chans s w))) \<and>
    (\<exists>s'. WaitChannel_WakeAll w s = Some s' \<and> sched_inv C s' \<and>
      runnableQueue s' = runnableQueue s @ chanQueue (chans s w) \<and> chanQueue (chans s' w) = [])"
proof
  let ?q = "chanQueue (chans s w)"
  have "for_each [0..<k] (\<lambda>_. WaitChannel_Wake w) s = for_each (take k ?q) (\<lambda>_. WaitChannel_Wake w) s"
    using assms(3) by (intro for_each_const) simp
  then show "\<exists>s'. for_each [0..<k] (\<lambda>_. WaitChannel_Wake w) s = Some s' \<and> sched_inv C s' \<and>
      runnableQueue s' = runnableQueue s @ take k ?q \<and> chanQueue (chans s' w) = drop k ?q"
    using wake_run [OF assms(1,2), of "take k ?q" "drop k ?q"] by auto
  show "\<exists>s'. WaitChannel_WakeAll w s = Some s' \<and> sched_inv C s' \<and> runnableQueue s' = runnableQueue s @ ?q \<and> chanQueue (chans s' w) = []"
    using wake_run [OF assms(1,2), of ?q "[]"] by (auto simp: WaitChannel_WakeAll_def)
qed

text \<open>An example: the threads \<open>q\<close> sleep on a channel, the last one has just been queued.\<close>

definition sleep_state :: "u64 list \<Rightarrow> kern" where
  "sleep_state q = (kern_state [])\<lparr>waitQueue := q,
     chans := (\<lambda>_. \<lparr>wc_name = [], chanQueue = []\<rparr>)(ChanAt 1 := \<lparr>wc_name = [], chanQueue = q\<rparr>),
     thrs := (\<lambda>a. if a \<in> set q then Thread_zero\<lparr>t_schedState := SCHED_STATE_WAITING, t_refCount := 2, t_proc := 0x10\<rparr>
       else thrs (kern_state []) a)\<rparr>"

lemma sleep_state_ok:
  assumes "distinct q" and "0 \<notin> set q" and "0x100 \<notin> set q" and "0x200 \<notin> set q"
  shows "sched_inv {0, 1} (sleep_state q)" and "chan_ok (ChanAt 1) (sleep_state q)"
  using assms by (auto simp: sched_inv_def chan_ok_def sleep_state_def st_def Thread_zero_def)

theorem wait_channel_fifo_witness:
  "(\<exists>s'. for_each [0..<2] (\<lambda>_. WaitChannel_Wake (ChanAt 1)) (sleep_state [0x300, 0x400, 0x500]) = Some s' \<and>
     runnableQueue s' = [0x300, 0x400] \<and> chanQueue (chans s' (ChanAt 1)) = [0x500]) \<and>
   (\<exists>s'. WaitChannel_WakeAll (ChanAt 1) (sleep_state [0x300, 0x400, 0x500]) = Some s' \<and>
     runnableQueue s' = [0x300, 0x400, 0x500] \<and> chanQueue (chans s' (ChanAt 1)) = [])"
proof -
  let ?s = "sleep_state [0x300, 0x400, 0x500]"
  have i: "sched_inv {0, 1} ?s" and c: "chan_ok (ChanAt 1) ?s" by (rule sleep_state_ok; simp)+
  have q: "chanQueue (chans ?s (ChanAt 1)) = [0x300, 0x400, 0x500]" "runnableQueue ?s = []"
    by (simp_all add: sleep_state_def)
  have k: "2 \<le> length (chanQueue (chans ?s (ChanAt 1)))" by (simp add: q)
  show ?thesis using wait_channel_fifo [OF i c k] unfolding q by (auto simp: numeral_2_eq_2)
qed

text \<open>
  C31. Going to sleep is not atomic with the switch to another thread.  A thread that has queued
  itself on a channel can be woken and chosen by another CPU before its own CPU has switched
  away from it, and then two CPUs run the same thread on the same kernel stack.
\<close>

theorem wait_channel_sleep_race:
  fixes s :: "'a kern_scheme"
  assumes i: "sched_inv C s" and c: "c \<in> C" and d: "d \<in> C" "d \<noteq> c"
    and q: "runnableQueue s = []" "chanQueue (chans s w) = []" and t: "ticksPerSecond s \<noteq> 0"
    and r: "t_refCount (thrs s (curProc s c)) \<notin> {0, - 1}"
  shows "\<exists>s1 s2 s3. WaitChannel_Enqueue c w s = Some s1 \<and> WaitChannel_Wake w s1 = Some s2 \<and>
     Sched_Scheduler d s2 = Some s3 \<and> curProc s3 c = curProc s c \<and> curProc s3 d = curProc s c"
proof -
  let ?p = "curProc s c"
  have r0: "t_refCount (thrs s ?p) \<noteq> 0" using r by simp
  obtain s1 where s1: "WaitChannel_Enqueue c w s = Some s1" "sched_left C c s1" "curProc s1 = curProc s"
    "runnableQueue s1 = runnableQueue s" "st s1 = (st s)(?p := SCHED_STATE_WAITING)"
    "chanQueue (chans s1 w) = chanQueue (chans s w) @ [?p]" "ticksPerSecond s1 = ticksPerSecond s"
    "\<And>x. t_refCount (thrs s1 x) = t_refCount (thrs s x) + (if x = ?p then 1 else 0)"
    by (rule WaitChannel_Enqueue_view [OF i c r0 t, of w]) blast
  have i1: "sched_inv (C - {c}) s1" using s1(2) by (simp add: sched_left_def)
  have ok: "chan_ok w s1" using s1 q t r by (auto simp: chan_ok_def eq_neg_iff_add_eq_0)
  obtain s2 where s2: "WaitChannel_wake_one w ?p s1 = Some s2" "sched_inv (C - {c}) s2"
    "runnableQueue s2 = runnableQueue s1 @ [?p]" "curProc s2 = curProc s1"
    by (rule WaitChannel_wake_one_view [OF i1 ok, of ?p "[]"]) (use s1(6) q in auto)
  have d2: "d \<in> C - {c}" and q2: "runnableQueue s2 = ?p # []" using d s2(3) s1(4) q by auto
  obtain s3 where s3: "Sched_Scheduler d s2 = Some s3" "curProc s3 = (curProc s2)(d := ?p)"
    by (rule Sched_Scheduler_yield [OF s2(2) d2 q2]) blast
  have "WaitChannel_Wake w s1 = Some s2" using s2(1) s1(6) q by (simp add: WaitChannel_Wake_def)
  then show ?thesis using s1 s2 s3 d by auto
qed

theorem wait_channel_sleep_race_witness:
  "\<exists>s1 s2 s3. WaitChannel_Enqueue 0 (ChanAt 1) (kern_state []) = Some s1 \<and> WaitChannel_Wake (ChanAt 1) s1 = Some s2 \<and>
     Sched_Scheduler 1 s2 = Some s3 \<and> curProc s3 0 = 0x100 \<and> curProc s3 1 = 0x100"
proof -
  have "sched_inv {0, 1} (kern_state [])" by (rule kern_state_inv) simp_all
  from wait_channel_sleep_race [OF this, of 0 1 "ChanAt 1"] show ?thesis by simp
qed

section \<open>Semaphores as counters\<close>

text \<open>
  The operations on a semaphore \<open>m\<close>: a thread \<open>t\<close> on CPU \<open>c\<close> enters \<^verbatim>\<open>Semaphore_Acquire\<close>, or runs
  again after it was woken and goes round the loop once more; the semaphore is released; a CPU
  switches.  The list \<open>W\<close> records the threads that were woken by a release and have not yet
  looked at the count again.
\<close>

datatype sema_op = SemaAcquire nat u64 | SemaRetry nat u64 | SemaRelease | SemaYield nat

fun sema_step :: "semaptr \<Rightarrow> sema_op \<Rightarrow> u64 list \<times> 'a kern_scheme \<Rightarrow> (u64 list \<times> 'a kern_scheme) option" where
  "sema_step m (SemaAcquire c t) (W, s) = map_option (Pair W \<circ> snd) (Semaphore_Acquire c m s)"
| "sema_step m (SemaRetry c t) (W, s) = map_option (Pair (remove1 t W) \<circ> snd) (Semaphore_Acquire_round c m t s)"
| "sema_step m SemaRelease (W, s) = map_option (Pair (W @ take 1 (waiters (semas s m)))) (Semaphore_Release m s)"
| "sema_step m (SemaYield c) (W, s) = map_option (Pair W) (Sched_Scheduler c s)"

fun sema_ok :: "nat set \<Rightarrow> semaptr \<Rightarrow> sema_op \<Rightarrow> u64 list \<times> 'a kern_scheme \<Rightarrow> bool" where
  "sema_ok C m (SemaAcquire c t) (W, s) \<longleftrightarrow> c \<in> C \<and> curProc s c = t \<and> t_refCount (thrs s t) \<notin> {0, - 1} \<and>
     (sem_count (semas s m) = 0 \<longrightarrow> runnableQueue s \<noteq> [])"
| "sema_ok C m (SemaRetry c t) (W, s) \<longleftrightarrow> c \<in> C \<and> curProc s c = t \<and> t \<in> set W \<and> t_refCount (thrs s t) \<notin> {0, 1} \<and>
     (sem_count (semas s m) = 0 \<longrightarrow> runnableQueue s \<noteq> [])"
| "sema_ok C m SemaRelease (W, s) \<longleftrightarrow> sem_count (semas s m) < 2147483647"
| "sema_ok C m (SemaYield c) (W, s) \<longleftrightarrow> c \<in> C"

text \<open>
  The invariant: the count is not negative, the queued threads are waiting, and while threads
  are queued there is a woken thread on its way for every unit of the count.
\<close>

definition sema_inv :: "nat set \<Rightarrow> semaptr \<Rightarrow> u64 list \<times> 'a kern_scheme \<Rightarrow> bool" where
  "sema_inv C m x \<longleftrightarrow> (case x of (W, s) \<Rightarrow> sched_inv C s \<and> ticksPerSecond s \<noteq> 0 \<and> 0 \<le> sem_count (semas s m) \<and>
     distinct (waiters (semas s m)) \<and> set (waiters (semas s m)) \<subseteq> set (waitQueue s) \<and>
     (waiters (semas s m) \<noteq> [] \<longrightarrow> sem_count (semas s m) \<le> int (length W)))"

definition sema_abs :: "semaptr \<Rightarrow> u64 list \<times> 'a kern_scheme \<Rightarrow> int \<times> u64 list \<times> u64 list" where
  "sema_abs m x = (case x of (W, s) \<Rightarrow> (sem_count (semas s m), waiters (semas s m), W))"

fun sema_astep :: "sema_op \<Rightarrow> int \<times> u64 list \<times> u64 list \<Rightarrow> int \<times> u64 list \<times> u64 list" where
  "sema_astep (SemaAcquire c t) (n, q, W) = (if 0 < n then (n - 1, q, W) else (n, q @ [t], W))"
| "sema_astep (SemaRetry c t) (n, q, W) = (if 0 < n then (n - 1, q, remove1 t W) else (n, q @ [t], remove1 t W))"
| "sema_astep SemaRelease (n, q, W) = (n + 1, tl q, W @ take 1 q)"
| "sema_astep (SemaYield c) x = x"

lemma upd_sema_simps [simp]:
  "semas (upd_sema m f s) = (semas s)(m := f (semas s m))" "runnableQueue (upd_sema m f s) = runnableQueue s"
  "waitQueue (upd_sema m f s) = waitQueue s" "curProc (upd_sema m f s) = curProc s" "thrs (upd_sema m f s) = thrs s"
  "ticksPerSecond (upd_sema m f s) = ticksPerSecond s" "linked t (upd_sema m f s) = linked t s" "st (upd_sema m f s) = st s"
  by (simp_all add: upd_sema_def linked_def st_def fun_eq_iff)

lemma sched_inv_upd [simp]:
  "sched_inv C (upd_sema m f s) = sched_inv C s" 
  "(\<And>t. t_schedState (g t) = t_schedState t) \<Longrightarrow> sched_inv C (upd_thr x g s) = sched_inv C s"
  by (rule sched_inv_cong; simp)+

text \<open>One round of the acquire loop, by the thread \<open>t\<close> that runs on \<open>c\<close> and whose reference is held.\<close>

lemma Semaphore_Acquire_round_sim:
  assumes i: "sema_inv C m (W, s)" and c: "c \<in> C" "curProc s c = t" and r: "t_refCount (thrs s t) \<notin> {0, 1}"
    and q: "sem_count (semas s m) = 0 \<longrightarrow> runnableQueue s \<noteq> []"
    and W: "sem_count (semas s m) - 1 \<le> int (length W') \<or> waiters (semas s m) = [] \<or> sem_count (semas s m) = 0"
  shows "\<exists>b s'. Semaphore_Acquire_round c m t s = Some (b, s') \<and> sema_inv C m (W', s') \<and>
     sema_abs m (W', s') = (if 0 < sem_count (semas s m) then (sem_count (semas s m) - 1, waiters (semas s m), W')
       else (sem_count (semas s m), waiters (semas s m) @ [t], W'))"
proof (cases "0 < sem_count (semas s m)")
  case True
  then show ?thesis
    using i r W by (auto simp: Semaphore_Acquire_round_def Thread_Release_keep sema_inv_def sema_abs_def)
next
  case False
  let ?s1 = "upd_sema m (\<lambda>m. m\<lparr>waiters := waiters m @ [t]\<rparr>) s"
  have I: "sched_inv C s" "ticksPerSecond s \<noteq> 0" "sem_count (semas s m) = 0" "distinct (waiters (semas s m))"
      "set (waiters (semas s m)) \<subseteq> set (waitQueue s)"
    using i False by (auto simp: sema_inv_def)
  note t = sched_inv_current [OF I(1) c(1), unfolded c(2)]
  obtain s2 where s2: "Sched_SetWaiting t ?s1 = Some s2" "curProc s2 = curProc ?s1" "runnableQueue s2 = runnableQueue ?s1"
    "waitQueue s2 = waitQueue ?s1 @ [t]" "st s2 = (st ?s1)(t := SCHED_STATE_WAITING)" "semas s2 = semas ?s1"
    "ticksPerSecond s2 = ticksPerSecond ?s1"
    by (rule Sched_SetWaiting_view [of ?s1 t]) (use t I(2) in simp_all)
  have "sched_left C c s2"
    by (rule sched_left_intro [OF I(1) c(1), where x = SCHED_STATE_WAITING]) (use s2 c(2) in simp_all)
  then obtain s3 where s3: "Sched_Scheduler c s2 = Some s3" "sched_inv C s3"
    using Sched_Scheduler_left [of C c s2] s2(3) q I(3) by auto
  note f = Sched_Scheduler_frame [OF s3(1)]
  have "t \<notin> set (waiters (semas s m))" using t(3) I(5) by (auto simp: linked_def)
  then have "sema_inv C m (W', s3)" using I s2 s3(2) f by (auto simp: sema_inv_def)
  moreover have "Semaphore_Acquire_round c m t s = Some (False, s3)"
    using False s2(1) s3(1) by (simp add: Semaphore_Acquire_round_def Semaphore_Enqueue_def)
  ultimately show ?thesis using False f(1) s2(6) by (auto simp: sema_abs_def)
qed

lemma Semaphore_Release_sim:
  assumes i: "sema_inv C m (W, s)" and n: "sem_count (semas s m) < 2147483647"
  shows "\<exists>s'. Semaphore_Release m s = Some s' \<and> sema_inv C m (W @ take 1 (waiters (semas s m)), s') \<and>
     sema_abs m (W @ take 1 (waiters (semas s m)), s') =
       (sem_count (semas s m) + 1, tl (waiters (semas s m)), W @ take 1 (waiters (semas s m)))"
proof (cases "waiters (semas s m)")
  case Nil
  then show ?thesis using i n by (auto simp: Semaphore_Release_def sema_inv_def sema_abs_def Let_def)
next
  case (Cons t q)
  let ?s1 = "upd_sema m (waiters_update (\<lambda>_. q)) (upd_sema m (sem_count_update (\<lambda>c. c + 1)) s)"
  have I: "sched_inv C s" "ticksPerSecond s \<noteq> 0" "distinct (t # q)" "set (t # q) \<subseteq> set (waitQueue s)"
    using i Cons by (auto simp: sema_inv_def)
  have t: "st s t = SCHED_STATE_WAITING" using I(4) sched_invD(5) [OF I(1), of t] by simp
  then have t0: "t \<noteq> 0" using sched_invD(7) [OF I(1)] by auto
  have i1: "sched_inv C ?s1" using I(1) by simp
  obtain s2 where s2: "Sched_SetRunnable t ?s1 = Some s2" "sched_inv C s2" "waitQueue s2 = remove1 t (waitQueue ?s1)"
    "semas s2 = semas ?s1" "ticksPerSecond s2 = ticksPerSecond ?s1"
    by (rule Sched_SetRunnable_view [OF i1 t0]) (use t I(2) in simp_all)
  have "set q \<subseteq> set (remove1 t (waitQueue s))" using I(3,4) sched_invD(2) [OF I(1)] by auto
  then have "sema_inv C m (W @ [t], s2)" using i Cons I(3) s2 by (auto simp: sema_inv_def)
  moreover have "Semaphore_Release m s = Some s2" using Cons n s2(1) by (simp add: Semaphore_Release_def Let_def)
  ultimately show ?thesis using s2(4) Cons by (simp add: sema_abs_def)
qed

lemma sema_inv_retain:
  assumes "\<And>t. t_schedState (g t) = t_schedState t"
  shows "sema_inv C m (W, upd_thr x g s) = sema_inv C m (W, s)"
  using assms by (simp add: sema_inv_def)

lemma Semaphore_Acquire_sim:
  assumes i: "sema_inv C m (W, s)" and ok: "sema_ok C m (SemaAcquire c t) (W, s)"
  shows "\<exists>b s'. Semaphore_Acquire c m s = Some (b, s') \<and> sema_inv C m (W, s') \<and>
     sema_abs m (W, s') = sema_astep (SemaAcquire c t) (sema_abs m (W, s))"
proof -
  let ?s1 = "upd_thr t (t_refCount_update (\<lambda>c. c + 1)) s"
  have c: "c \<in> C" "curProc s c = t" and r: "t_refCount (thrs s t) \<noteq> 0" "t_refCount (thrs s t) \<noteq> - 1" using ok by auto
  have "t \<noteq> 0" using sched_inv_current(2) [of C s c] i c by (auto simp: sema_inv_def)
  then have "Sched_Current c s = Some (t, ?s1)" using c r by (simp add: Sched_Current_def Thread_Retain_def Let_def)
  then have e: "Semaphore_Acquire c m s = Semaphore_Acquire_round c m t ?s1" by (simp add: Semaphore_Acquire_def)
  have i1: "sema_inv C m (W, ?s1)" using i by (simp add: sema_inv_retain)
  have "\<exists>b s'. Semaphore_Acquire_round c m t ?s1 = Some (b, s') \<and> sema_inv C m (W, s') \<and>
     sema_abs m (W, s') = (if 0 < sem_count (semas ?s1 m) then (sem_count (semas ?s1 m) - 1, waiters (semas ?s1 m), W)
       else (sem_count (semas ?s1 m), waiters (semas ?s1 m) @ [t], W))"
    by (rule Semaphore_Acquire_round_sim [OF i1 c(1)])
       (use c r ok i in \<open>auto simp: eq_neg_iff_add_eq_0 sema_inv_def\<close>)
  then show ?thesis unfolding e by (auto simp: sema_abs_def)
qed

lemma Semaphore_Retry_sim:
  assumes i: "sema_inv C m (W, s)" and ok: "sema_ok C m (SemaRetry c t) (W, s)"
  shows "\<exists>b s'. Semaphore_Acquire_round c m t s = Some (b, s') \<and> sema_inv C m (remove1 t W, s') \<and>
     sema_abs m (remove1 t W, s') = sema_astep (SemaRetry c t) (sema_abs m (W, s))"
proof -
  have c: "c \<in> C" "curProc s c = t" and t: "t \<in> set W" and r: "t_refCount (thrs s t) \<notin> {0, 1}"
    and q: "sem_count (semas s m) = 0 \<longrightarrow> runnableQueue s \<noteq> []" using ok by auto
  have "length W = Suc (length (remove1 t W))" using t length_pos_if_in_set [OF t] by (simp add: length_remove1)
  then have "sem_count (semas s m) - 1 \<le> int (length (remove1 t W)) \<or> waiters (semas s m) = [] \<or> sem_count (semas s m) = 0"
    using i by (auto simp: sema_inv_def)
  from Semaphore_Acquire_round_sim [OF i c r q this] show ?thesis by (auto simp: sema_abs_def)
qed

interpretation semaphores: simulation "sema_step m" "sema_ok C m" "sema_inv C m" "sema_abs m" sema_astep for C m
proof
  fix x :: "u64 list \<times> 'a kern_scheme" and a
  assume i: "sema_inv C m x" and ok: "sema_ok C m a x"
  obtain W s where x: "x = (W, s)" by (cases x)
  show "\<exists>x'. sema_step m a x = Some x' \<and> sema_inv C m x' \<and> sema_abs m x' = sema_astep a (sema_abs m x)"
  proof (cases a)
    case (SemaAcquire c t)
    then show ?thesis using Semaphore_Acquire_sim [of C m W s c t] i ok by (auto simp: x)
  next
    case (SemaRetry c t)
    then show ?thesis using Semaphore_Retry_sim [of C m W s c t] i ok by (auto simp: x)
  next
    case SemaRelease
    then show ?thesis using Semaphore_Release_sim [of C m W s] i ok by (auto simp: x sema_abs_def)
  next
    case (SemaYield c)
    then have c: "c \<in> C" and s: "sched_inv C s" using ok i by (auto simp: x sema_inv_def)
    obtain s' where s': "Sched_Scheduler c s = Some s'" "sched_inv C s'"
      using Sched_Scheduler_empty [OF s c] Sched_Scheduler_yield [OF s c] s by (metis list.exhaust)
    then show ?thesis using Sched_Scheduler_frame [OF s'(1)] i SemaYield by (auto simp: x sema_inv_def sema_abs_def)
  qed
qed

section \<open>Properties of semaphores\<close>


lemma sema_state_inv:
  assumes "distinct q" and "0 \<notin> set q" and "0x100 \<notin> set q" and "0x200 \<notin> set q"
  shows "sema_inv {0, 1} m ([], kern_state q)"
  using kern_state_inv [OF assms] by (simp add: sema_inv_def)


end
