(* ===== verification/KTimer.thy ===== *)
theory KTimer
  imports Waiting
begin

text \<open>
  Kernel timers (\<^verbatim>\<open>sys/kern/ktimer.c\<close>): the timer wheel of 256 slots, one per second.  The
  callback of an event is called through the argument \<open>cb\<close> of \<open>KTimer_Process\<close>.
\<close>

section \<open>Definitions\<close>

definition TIMER_WHEEL_LENGTH :: nat where "TIMER_WHEEL_LENGTH = 256"

definition sizeof_KTimerEvent :: u64 where "sizeof_KTimerEvent = 48"

definition KTimer_Init :: "'a kern_scheme \<Rightarrow> 'a kern_scheme option" where
  "KTimer_Init s = do {
     (sl, s) \<leftarrow> Slab_Init ''KTimerEvent Slab'' sizeof_KTimerEvent 16 s;
     now \<leftarrow> KTime_GetEpoch s;
     Some (s\<lparr>timerSlab := sl, timerHead := 0, timerNow := now,
             timerSlot := (\<lambda>i. if i < TIMER_WHEEL_LENGTH then [] else timerSlot s i)\<rparr>)
   }"

text \<open>\<^verbatim>\<open>KTimer_Create\<close> does not check the result of the allocation.\<close>

definition timer_slot :: "u64 \<Rightarrow> nat \<Rightarrow> nat" where
  "timer_slot timeout head = unat (of_nat head + timeout + of_nat TIMER_WHEEL_LENGTH - 1 :: u64) mod TIMER_WHEEL_LENGTH"

definition KTimer_Create :: "u64 \<Rightarrow> KTimerCB \<Rightarrow> u64 \<Rightarrow> 'a kern_scheme \<Rightarrow> (u64 \<times> 'a kern_scheme) option" where
  "KTimer_Create timeout cb arg s = do {
     (e, sl, s) \<leftarrow> Slab_Alloc (timerSlab s) s;
     evt \<leftarrow> e;
     let slot = timer_slot timeout (timerHead s);
     Some (evt, s\<lparr>timerSlab := sl,
       tevents := (tevents s)(evt := \<lparr>te_refCount = 2, te_timeout = timerNow s + timeout, te_cb = cb, te_arg = arg\<rparr>),
       timerSlot := (timerSlot s)(slot := evt # timerSlot s slot)\<rparr>)
   }"

definition KTimer_Retain :: "u64 \<Rightarrow> 'a kern_scheme \<Rightarrow> 'a kern_scheme option" where
  "KTimer_Retain evt s = do {
     kassert (te_refCount (tevents s evt) \<noteq> 0);
     Some (s\<lparr>tevents := (tevents s)(evt := (tevents s evt)\<lparr>te_refCount := te_refCount (tevents s evt) + 1\<rparr>)\<rparr>)
   }"

definition KTimer_Release :: "u64 \<Rightarrow> 'a kern_scheme \<Rightarrow> 'a kern_scheme option" where
  "KTimer_Release evt s = do {
     let old = te_refCount (tevents s evt);
     kassert (old \<noteq> 0);
     let s = s\<lparr>tevents := (tevents s)(evt := (tevents s evt)\<lparr>te_refCount := old - 1\<rparr>)\<rparr>;
     Some (if old = 1 then s\<lparr>timerSlab := Slab_Free (timerSlab s) evt\<rparr> else s)
   }"

text \<open>
  \<^verbatim>\<open>LIST_REMOVE\<close> unlinks the event from whatever slot it is in.
\<close>

definition KTimer_unlink :: "u64 \<Rightarrow> 'a kern_scheme \<Rightarrow> 'a kern_scheme option" where
  "KTimer_unlink evt s = do {
     kassert (\<exists>i < TIMER_WHEEL_LENGTH. evt \<in> set (timerSlot s i));
     Some (s\<lparr>timerSlot := (\<lambda>i. if i < TIMER_WHEEL_LENGTH then remove1 evt (timerSlot s i) else timerSlot s i)\<rparr>)
   }"

definition KTimer_Cancel :: "u64 \<Rightarrow> 'a kern_scheme \<Rightarrow> 'a kern_scheme option" where
  "KTimer_Cancel evt s = do { s \<leftarrow> KTimer_unlink evt s; KTimer_Release evt s }"

text \<open>The body of the inner loop, one tick of the wheel, and the outer loop.\<close>

definition KTimer_fire ::
  "(KTimerCB \<Rightarrow> u64 \<Rightarrow> 'a kern_scheme \<Rightarrow> 'a kern_scheme option) \<Rightarrow> u64 \<Rightarrow> u64 \<Rightarrow> 'a kern_scheme \<Rightarrow> 'a kern_scheme option" where
  "KTimer_fire cb now it s =
     (if te_timeout (tevents s it) \<le> now
      then do {
        s \<leftarrow> cb (te_cb (tevents s it)) (te_arg (tevents s it)) s;
        s \<leftarrow> KTimer_unlink it s;
        KTimer_Release it s
      }
      else Some s)"

definition KTimer_tick ::
  "(KTimerCB \<Rightarrow> u64 \<Rightarrow> 'a kern_scheme \<Rightarrow> 'a kern_scheme option) \<Rightarrow> u64 \<Rightarrow> 'a kern_scheme \<Rightarrow> 'a kern_scheme option" where
  "KTimer_tick cb now s = do {
     s \<leftarrow> for_each (timerSlot s (timerHead s)) (KTimer_fire cb now) s;
     Some (s\<lparr>timerNow := timerNow s + 1, timerHead := (timerHead s + 1) mod TIMER_WHEEL_LENGTH\<rparr>)
   }"

partial_function (option) KTimer_loop ::
  "(KTimerCB \<Rightarrow> u64 \<Rightarrow> 'a kern_scheme \<Rightarrow> 'a kern_scheme option) \<Rightarrow> u64 \<Rightarrow> 'a kern_scheme \<Rightarrow> 'a kern_scheme option" where
  "KTimer_loop cb now s =
     (if timerNow s < now then Option.bind (KTimer_tick cb now s) (KTimer_loop cb now) else Some s)"

definition KTimer_Process ::
  "(KTimerCB \<Rightarrow> u64 \<Rightarrow> 'a kern_scheme \<Rightarrow> 'a kern_scheme option) \<Rightarrow> nat \<Rightarrow> 'a kern_scheme \<Rightarrow> 'a kern_scheme option" where
  "KTimer_Process cb cpu s =
     (if cpu \<noteq> 0 then Some s
      else do { now \<leftarrow> KTime_GetEpoch s; KTimer_loop cb now s })"

section \<open>The wheel and its clients\<close>

text \<open>
  \<open>wheel E s\<close>: the wheel holds the events \<open>E\<close>, each once, none is overdue, and an event that is
  due in \<open>d\<close> seconds is \<open>d - 1\<close> slots, modulo the length of the wheel, from the head.
\<close>

definition wheel_pos :: "nat \<Rightarrow> u64 \<Rightarrow> u64 \<Rightarrow> nat" where
  "wheel_pos head now t = (head + (unat t - unat now) - 1) mod TIMER_WHEEL_LENGTH"

definition wheel :: "u64 set \<Rightarrow> 'a kern_scheme \<Rightarrow> bool" where
  "wheel E s \<longleftrightarrow> timerHead s < TIMER_WHEEL_LENGTH \<and> E = (\<Union>i < TIMER_WHEEL_LENGTH. set (timerSlot s i)) \<and>
     (\<forall>i < TIMER_WHEEL_LENGTH. distinct (timerSlot s i) \<and>
        (\<forall>e \<in> set (timerSlot s i). timerNow s < te_timeout (tevents s e) \<and>
           wheel_pos (timerHead s) (timerNow s) (te_timeout (tevents s e)) = i))"

definition timer_upd ::
  "nat \<Rightarrow> u64 \<Rightarrow> (nat \<Rightarrow> u64 list) \<Rightarrow> slab \<Rightarrow> (u64 \<Rightarrow> KTimerEvent) \<Rightarrow> 'a kern_scheme \<Rightarrow> 'a kern_scheme" where
  "timer_upd h n w l t s = s\<lparr>timerHead := h, timerNow := n, timerSlot := w, tevents := t, timerSlab := l\<rparr>"

text \<open>
  What \<^verbatim>\<open>KTimer_Process\<close> asks of the callbacks.  \<open>ready E s\<close> is the invariant of the client for
  the pending events \<open>E\<close>; it does not depend on the wheel.  The callback of a pending event
  returns, leaves the wheel and the other events alone, does not drop the reference of the
  wheel, and its effect shows at the end of the list \<open>obs\<close>.
\<close>

locale timer_client =
  fixes cb :: "KTimerCB \<Rightarrow> u64 \<Rightarrow> 'a kern_scheme \<Rightarrow> 'a kern_scheme option"
    and ready :: "u64 set \<Rightarrow> 'a kern_scheme \<Rightarrow> bool"
    and obs :: "'a kern_scheme \<Rightarrow> u64 list"
  assumes ready_upd: "ready E s \<Longrightarrow> (\<And>e. e \<in> E \<Longrightarrow> t e = tevents s e) \<Longrightarrow> ready E (timer_upd h n w l t s)"
    and obs_upd: "obs (timer_upd h n w l t s) = obs s"
    and cb_ok: "ready E s \<Longrightarrow> e \<in> E \<Longrightarrow> \<exists>s'. cb (te_cb (tevents s e)) (te_arg (tevents s e)) s = Some s' \<and>
       ready (E - {e}) s' \<and> timerSlot s' = timerSlot s \<and> timerHead s' = timerHead s \<and> timerNow s' = timerNow s \<and>
       (\<forall>x \<in> E - {e}. tevents s' x = tevents s x) \<and> te_refCount (tevents s' e) \<noteq> 0 \<and>
       obs s' = obs s @ [te_arg (tevents s e)]"
begin

lemma fire_due:
  assumes w: "wheel E s" and r: "ready E s" and e: "e \<in> E" and due: "te_timeout (tevents s e) \<le> now"
  obtains s' where "KTimer_fire cb now e s = Some s'" "wheel (E - {e}) s'" "ready (E - {e}) s'"
    "timerHead s' = timerHead s" "timerNow s' = timerNow s" "\<And>x. x \<in> E - {e} \<Longrightarrow> tevents s' x = tevents s x"
    "obs s' = obs s @ [te_arg (tevents s e)]"
proof -
  obtain s1 where s1: "cb (te_cb (tevents s e)) (te_arg (tevents s e)) s = Some s1" "ready (E - {e}) s1"
      "timerSlot s1 = timerSlot s" "timerHead s1 = timerHead s" "timerNow s1 = timerNow s"
      "\<forall>x \<in> E - {e}. tevents s1 x = tevents s x" "te_refCount (tevents s1 e) \<noteq> 0" "obs s1 = obs s @ [te_arg (tevents s e)]"
    using cb_ok [OF r e] by blast
  let ?w = "\<lambda>i. if i < TIMER_WHEEL_LENGTH then remove1 e (timerSlot s1 i) else timerSlot s1 i"
  let ?t = "(tevents s1)(e := (tevents s1 e)\<lparr>te_refCount := te_refCount (tevents s1 e) - 1\<rparr>)"
  let ?l = "if te_refCount (tevents s1 e) = 1 then Slab_Free (timerSlab s1) e else timerSlab s1"
  let ?s' = "timer_upd (timerHead s1) (timerNow s1) ?w ?l ?t s1"
  have ex: "\<exists>i < TIMER_WHEEL_LENGTH. e \<in> set (timerSlot s i)" using w e by (auto simp: wheel_def)
  have "KTimer_fire cb now e s = Some ?s'"
    using due s1(1,3,7) ex by (simp add: KTimer_fire_def KTimer_unlink_def KTimer_Release_def timer_upd_def Let_def)
  moreover have "wheel (E - {e}) ?s'"
  proof -
    have set_w: "set (?w i) = set (timerSlot s i) - {e}" if "i < TIMER_WHEEL_LENGTH" for i
      using w that s1(3) by (simp add: wheel_def)
    have E: "E = (\<Union>i < TIMER_WHEEL_LENGTH. set (timerSlot s i))" using w by (simp add: wheel_def)
    then have "E - {e} = (\<Union>i < TIMER_WHEEL_LENGTH. set (?w i))" using set_w by auto
    moreover have "distinct (?w i) \<and> (\<forall>x \<in> set (?w i). timerNow s < te_timeout (?t x) \<and>
        wheel_pos (timerHead s) (timerNow s) (te_timeout (?t x)) = i)" if i: "i < TIMER_WHEEL_LENGTH" for i
    proof -
      have "?t x = tevents s x" if "x \<in> set (?w i)" for x using that set_w [OF i] s1(6) E i by auto
      then show ?thesis using w i set_w [OF i] s1(3) by (auto simp: wheel_def)
    qed
    ultimately show ?thesis using w s1(4,5) by (simp add: wheel_def timer_upd_def)
  qed
  moreover have "ready (E - {e}) ?s'" by (rule ready_upd [OF s1(2)]) simp
  moreover have "obs ?s' = obs s @ [te_arg (tevents s e)]" using s1(8) by (simp add: obs_upd)
  moreover have "tevents ?s' x = tevents s x" if "x \<in> E - {e}" for x using that s1(6) by (simp add: timer_upd_def)
  moreover have "timerHead ?s' = timerHead s" "timerNow ?s' = timerNow s" using s1(4,5) by (simp_all add: timer_upd_def)
  ultimately show thesis using that by blast
qed

end

lemma wheel_pos_next:
  assumes "now < t" and "wheel_pos h now t \<noteq> h \<or> now + 1 < t" and "h < TIMER_WHEEL_LENGTH" and "now < lim"
  shows "now + 1 < t" and "wheel_pos ((h + 1) mod TIMER_WHEEL_LENGTH) (now + 1) t = wheel_pos h now t"
proof -
  have n1: "unat (now + 1) = unat now + 1"
    using assms(4) unat_u64_less [of lim] by (simp add: word_less_nat_alt unat_word_ariths)
  have lt: "unat now < unat t" using assms(1) by (simp add: word_less_nat_alt)
  have "unat t \<noteq> unat now + 1"
    using assms(2,3) n1 by (auto simp: wheel_pos_def word_less_nat_alt)
  with lt have l2: "unat now + 1 < unat t" by simp
  then show "now + 1 < t" by (simp add: word_less_nat_alt n1)
  have "((h + 1) mod TIMER_WHEEL_LENGTH + (unat t - (unat now + 1)) - 1) mod TIMER_WHEEL_LENGTH =
      ((h + 1) mod TIMER_WHEEL_LENGTH + (unat t - unat now - 2)) mod TIMER_WHEEL_LENGTH"
    using l2 by (intro arg_cong [where f = "\<lambda>x. x mod TIMER_WHEEL_LENGTH"]) simp
  also have "\<dots> = (h + 1 + (unat t - unat now - 2)) mod TIMER_WHEEL_LENGTH" by (simp only: mod_add_left_eq)
  also have "h + 1 + (unat t - unat now - 2) = h + (unat t - unat now) - 1" using l2 by simp
  finally show "wheel_pos ((h + 1) mod TIMER_WHEEL_LENGTH) (now + 1) t = wheel_pos h now t"
    by (simp add: wheel_pos_def n1)
qed

lemma wheel_advance:
  assumes w: "wheel E s" and n: "timerNow s < now"
    and h: "\<And>e. e \<in> set (timerSlot s (timerHead s)) \<Longrightarrow> now < te_timeout (tevents s e)"
  shows "wheel E (s\<lparr>timerNow := timerNow s + 1, timerHead := (timerHead s + 1) mod TIMER_WHEEL_LENGTH\<rparr>)"
proof -
  have hd: "timerHead s < TIMER_WHEEL_LENGTH" using w by (simp add: wheel_def)
  have inc: "timerNow s + 1 \<le> now" using n by (rule inc_le)
  have "timerNow s + 1 < te_timeout (tevents s e) \<and>
      wheel_pos ((timerHead s + 1) mod TIMER_WHEEL_LENGTH) (timerNow s + 1) (te_timeout (tevents s e)) = i"
    if i: "i < TIMER_WHEEL_LENGTH" "e \<in> set (timerSlot s i)" for i e
  proof -
    have a: "timerNow s < te_timeout (tevents s e)" and b: "wheel_pos (timerHead s) (timerNow s) (te_timeout (tevents s e)) = i"
      using w i by (auto simp: wheel_def)
    have "wheel_pos (timerHead s) (timerNow s) (te_timeout (tevents s e)) \<noteq> timerHead s \<or> timerNow s + 1 < te_timeout (tevents s e)"
      using h [of e] i(2) inc unfolding b by auto
    from wheel_pos_next [OF a this hd n] b show ?thesis by simp
  qed
  then show ?thesis using w by (simp add: wheel_def TIMER_WHEEL_LENGTH_def)
qed

context timer_client
begin

lemma fire_all:
  assumes "wheel E s" and "ready E s" and "distinct xs" and "set xs \<subseteq> E"
  shows "\<exists>s'. for_each xs (KTimer_fire cb now) s = Some s' \<and>
     (let D = {e \<in> set xs. te_timeout (tevents s e) \<le> now} in wheel (E - D) s' \<and> ready (E - D) s' \<and>
       (\<forall>e \<in> E - D. tevents s' e = tevents s e)) \<and> timerHead s' = timerHead s \<and> timerNow s' = timerNow s \<and>
     obs s' = obs s @ map (\<lambda>e. te_arg (tevents s e)) (filter (\<lambda>e. te_timeout (tevents s e) \<le> now) xs)"
  using assms
proof (induction xs arbitrary: E s)
  case (Cons e xs)
  show ?case
  proof (cases "te_timeout (tevents s e) \<le> now")
    case True
    have eE: "e \<in> E" using Cons.prems(4) by simp
    obtain s1 where s1: "KTimer_fire cb now e s = Some s1" "wheel (E - {e}) s1" "ready (E - {e}) s1"
        "timerHead s1 = timerHead s" "timerNow s1 = timerNow s" "\<And>x. x \<in> E - {e} \<Longrightarrow> tevents s1 x = tevents s x"
        "obs s1 = obs s @ [te_arg (tevents s e)]"
      by (rule fire_due [OF Cons.prems(1,2) eE True]) blast
    have xs: "distinct xs" "set xs \<subseteq> E - {e}" using Cons.prems(3,4) by auto
    have same: "tevents s1 x = tevents s x" if "x \<in> set xs" for x using that xs(2) s1(6) by blast
    let ?D = "{x \<in> set xs. te_timeout (tevents s x) \<le> now}"
    have D: "{x \<in> set xs. te_timeout (tevents s1 x) \<le> now} = ?D" using same by auto
    have f: "map (\<lambda>e. te_arg (tevents s1 e)) (filter (\<lambda>e. te_timeout (tevents s1 e) \<le> now) xs) =
        map (\<lambda>e. te_arg (tevents s e)) (filter (\<lambda>e. te_timeout (tevents s e) \<le> now) xs)"
      using same by (intro map_cong filter_cong) auto
    have E: "E - {x \<in> set (e # xs). te_timeout (tevents s x) \<le> now} = E - {e} - ?D" using True by auto
    obtain s' where "for_each xs (KTimer_fire cb now) s1 = Some s'" "wheel (E - {e} - ?D) s'" "ready (E - {e} - ?D) s'"
        "\<forall>x \<in> E - {e} - ?D. tevents s' x = tevents s1 x" "timerHead s' = timerHead s1" "timerNow s' = timerNow s1"
        "obs s' = obs s1 @ map (\<lambda>e. te_arg (tevents s e)) (filter (\<lambda>e. te_timeout (tevents s e) \<le> now) xs)"
      using Cons.IH [OF s1(2,3) xs] unfolding D f Let_def by blast
    then show ?thesis unfolding E Let_def using s1 True by auto
  next
    case False
    then have "KTimer_fire cb now e s = Some s" by (simp add: KTimer_fire_def)
    moreover have "{x \<in> set (e # xs). te_timeout (tevents s x) \<le> now} = {x \<in> set xs. te_timeout (tevents s x) \<le> now}"
      using False by auto
    ultimately show ?thesis using Cons.IH [OF Cons.prems(1,2)] Cons.prems(3,4) False by simp
  qed
qed simp

lemma tick:
  assumes w: "wheel E s" and r: "ready E s" and n: "timerNow s < now"
  shows "\<exists>s' L. KTimer_tick cb now s = Some s' \<and> timerNow s' = timerNow s + 1 \<and> distinct L \<and> set L \<subseteq> E \<and>
     (\<forall>e \<in> set L. te_timeout (tevents s e) \<le> now) \<and> wheel (E - set L) s' \<and> ready (E - set L) s' \<and>
     (\<forall>e \<in> E - set L. tevents s' e = tevents s e) \<and> obs s' = obs s @ map (\<lambda>e. te_arg (tevents s e)) L"
proof -
  let ?xs = "timerSlot s (timerHead s)"
  let ?L = "filter (\<lambda>e. te_timeout (tevents s e) \<le> now) ?xs"
  have h: "timerHead s < TIMER_WHEEL_LENGTH" using w by (simp add: wheel_def)
  then have xs: "distinct ?xs" "set ?xs \<subseteq> E" using w by (auto simp: wheel_def)
  have D: "{e \<in> set ?xs. te_timeout (tevents s e) \<le> now} = set ?L" by simp
  obtain s1 where s1: "for_each ?xs (KTimer_fire cb now) s = Some s1" "wheel (E - set ?L) s1" "ready (E - set ?L) s1"
      "\<forall>e \<in> E - set ?L. tevents s1 e = tevents s e" "timerHead s1 = timerHead s" "timerNow s1 = timerNow s"
      "obs s1 = obs s @ map (\<lambda>e. te_arg (tevents s e)) ?L"
    using fire_all [OF w r xs, of now] unfolding D Let_def by blast
  let ?s' = "s1\<lparr>timerNow := timerNow s1 + 1, timerHead := (timerHead s1 + 1) mod TIMER_WHEEL_LENGTH\<rparr>"
  have late: "now < te_timeout (tevents s1 e)" if e: "e \<in> set (timerSlot s1 (timerHead s1))" for e
  proof -
    have eE: "e \<in> E - set ?L" using s1(2,5) h e by (auto simp: wheel_def)
    then obtain i where i: "i < TIMER_WHEEL_LENGTH" "e \<in> set (timerSlot s i)" using w by (auto simp: wheel_def)
    have "wheel_pos (timerHead s1) (timerNow s1) (te_timeout (tevents s1 e)) = timerHead s1"
      using s1(2) h e s1(5) by (auto simp: wheel_def)
    moreover have "wheel_pos (timerHead s) (timerNow s) (te_timeout (tevents s e)) = i" using w i by (auto simp: wheel_def)
    ultimately have "i = timerHead s" using s1(4-6) eE by auto
    with i(2) eE s1(4) show ?thesis by auto
  qed
  have u: "?s' = timer_upd ((timerHead s1 + 1) mod TIMER_WHEEL_LENGTH) (timerNow s1 + 1) (timerSlot s1) (timerSlab s1) (tevents s1) s1"
    by (simp add: timer_upd_def)
  have "wheel (E - set ?L) ?s'" by (rule wheel_advance [OF s1(2) _ late]) (use n s1(6) in simp)
  moreover have "ready (E - set ?L) ?s'" unfolding u by (rule ready_upd [OF s1(3)]) simp
  moreover have "obs ?s' = obs s @ map (\<lambda>e. te_arg (tevents s e)) ?L" unfolding u obs_upd by (rule s1(7))
  moreover have "KTimer_tick cb now s = Some ?s'" using s1(1) by (simp add: KTimer_tick_def)
  ultimately show ?thesis using xs s1(4,6) by (intro exI [of _ ?s'] exI [of _ ?L]) auto
qed

end

context timer_client
begin

lemma loop:
  assumes "wheel E s" and "ready E s" and "timerNow s \<le> now"
  shows "\<exists>s' L. KTimer_loop cb now s = Some s' \<and> timerNow s' = now \<and> distinct L \<and>
     set L = {e \<in> E. te_timeout (tevents s e) \<le> now} \<and> wheel (E - set L) s' \<and> ready (E - set L) s' \<and>
     (\<forall>e \<in> E - set L. tevents s' e = tevents s e) \<and> obs s' = obs s @ map (\<lambda>e. te_arg (tevents s e)) L"
  using assms
proof (induction "unat now - unat (timerNow s)" arbitrary: E s)
  case 0
  then have "timerNow s = now" by (simp add: word_le_nat_alt word_unat_eq_iff)
  moreover from this have "{e \<in> E. te_timeout (tevents s e) \<le> now} = {}" using 0(2) by (fastforce simp: wheel_def)
  ultimately show ?case using 0 by (auto simp: KTimer_loop.simps)
next
  case (Suc k)
  have n: "timerNow s < now" using Suc.hyps(2) by (simp add: word_less_nat_alt)
  obtain s1 L where s1: "KTimer_tick cb now s = Some s1" "timerNow s1 = timerNow s + 1" "distinct L" "set L \<subseteq> E"
     "\<forall>e \<in> set L. te_timeout (tevents s e) \<le> now" "wheel (E - set L) s1" "ready (E - set L) s1"
     "\<forall>e \<in> E - set L. tevents s1 e = tevents s e" "obs s1 = obs s @ map (\<lambda>e. te_arg (tevents s e)) L"
    using tick [OF Suc.prems(1,2) n] by blast
  have le: "timerNow s1 \<le> now" using inc_le [OF n] s1(2) by simp
  have "unat (timerNow s1) = unat (timerNow s) + 1"
    using n unat_u64_less [of now] by (simp add: s1(2) word_less_nat_alt unat_word_ariths)
  then have k: "k = unat now - unat (timerNow s1)" using Suc.hyps(2) by simp
  obtain s' M where s': "KTimer_loop cb now s1 = Some s'" "timerNow s' = now" "distinct M"
     "set M = {e \<in> E - set L. te_timeout (tevents s1 e) \<le> now}" "wheel (E - set L - set M) s'" "ready (E - set L - set M) s'"
     "\<forall>e \<in> E - set L - set M. tevents s' e = tevents s1 e" "obs s' = obs s1 @ map (\<lambda>e. te_arg (tevents s1 e)) M"
    using Suc.hyps(1) [OF k s1(6,7) le] by blast
  have M: "set M = {e \<in> E - set L. te_timeout (tevents s e) \<le> now}" using s'(4) s1(8) by auto
  have "map (\<lambda>e. te_arg (tevents s1 e)) M = map (\<lambda>e. te_arg (tevents s e)) M" using M s1(8) by auto
  then have "obs s' = obs s @ map (\<lambda>e. te_arg (tevents s e)) (L @ M)" using s'(8) s1(9) by simp
  moreover have "distinct (L @ M)" "set (L @ M) = {e \<in> E. te_timeout (tevents s e) \<le> now}" using s1(3-5) s'(3) M by auto
  moreover have "E - set (L @ M) = E - set L - set M" by auto
  moreover have "\<forall>e \<in> E - set L - set M. tevents s' e = tevents s e" using s'(7) s1(8) by simp
  moreover have "KTimer_loop cb now s = Some s'" using n s1(1) s'(1) by (subst KTimer_loop.simps) simp
  ultimately show ?case using s'(2,5,6) by (intro exI [of _ s'] exI [of _ "L @ M"]) (simp only: simp_thms)
qed

end

text \<open>A new event is in the slot where the wheel looks for it.\<close>

lemma timer_slot_pos:
  assumes "h < TIMER_WHEEL_LENGTH" and "timeout \<noteq> 0" and "unat now + unat timeout < 2 ^ 63"
  shows "timer_slot timeout h = wheel_pos h now (now + timeout)" and "now < now + timeout"
proof -
  have t: "0 < unat timeout" using assms(2) by (simp add: unat_gt_0)
  have s: "unat (now + timeout) = unat now + unat timeout" using assms(3) by (simp add: unat_word_ariths)
  then show "now < now + timeout" using t by (simp add: word_less_nat_alt)
  let ?x = "of_nat h + timeout + of_nat TIMER_WHEEL_LENGTH - 1 :: u64"
  let ?m = "h + unat timeout - 1 + TIMER_WHEEL_LENGTH"
  have x: "?x = of_nat ?m" using t by (simp add: of_nat_diff algebra_simps)
  have "?m < 2 ^ 64" using assms(1,3) by (simp add: TIMER_WHEEL_LENGTH_def)
  then have "unat (of_nat ?m :: u64) = ?m" by (simp only: unat_of_nat) simp
  then have "unat ?x = ?m" by (simp only: x)
  then have "timer_slot timeout h = ?m mod TIMER_WHEEL_LENGTH" by (simp only: timer_slot_def)
  also have "\<dots> = (h + unat timeout - 1) mod TIMER_WHEEL_LENGTH" by (rule mod_add_self2)
  finally show "timer_slot timeout h = wheel_pos h now (now + timeout)" by (simp add: wheel_pos_def s)
qed

lemma KTimer_Create_wheel:
  assumes w: "wheel E s" and evt: "evt \<notin> E" and t: "timeout \<noteq> 0" "unat (timerNow s) + unat timeout < 2 ^ 63"
    and free: "freeObjs (timerSlab s) \<noteq> 0" "slabFree (timerSlab s) = evt # es"
  obtains w' l where
    "KTimer_Create timeout cb arg s = Some (evt, timer_upd (timerHead s) (timerNow s) w' l
       ((tevents s)(evt := \<lparr>te_refCount = 2, te_timeout = timerNow s + timeout, te_cb = cb, te_arg = arg\<rparr>)) s)"
    "wheel (insert evt E) (timer_upd (timerHead s) (timerNow s) w' l
       ((tevents s)(evt := \<lparr>te_refCount = 2, te_timeout = timerNow s + timeout, te_cb = cb, te_arg = arg\<rparr>)) s)"
proof -
  let ?i = "timer_slot timeout (timerHead s)"
  let ?w = "(timerSlot s)(?i := evt # timerSlot s ?i)"
  let ?l = "(timerSlab s)\<lparr>slabFree := es, allocs := allocs (timerSlab s) + 1, freeObjs := freeObjs (timerSlab s) - 1\<rparr>"
  let ?t = "(tevents s)(evt := \<lparr>te_refCount = 2, te_timeout = timerNow s + timeout, te_cb = cb, te_arg = arg\<rparr>)"
  let ?s' = "timer_upd (timerHead s) (timerNow s) ?w ?l ?t s"
  have h: "timerHead s < TIMER_WHEEL_LENGTH" using w by (simp add: wheel_def)
  note pos = timer_slot_pos [OF h t]
  have i: "?i < TIMER_WHEEL_LENGTH" by (simp add: timer_slot_def TIMER_WHEEL_LENGTH_def)
  have out: "evt \<notin> set (timerSlot s j)" if "j < TIMER_WHEEL_LENGTH" for j using w evt that by (auto simp: wheel_def)
  have "insert evt E = (\<Union>j < TIMER_WHEEL_LENGTH. set (?w j))" using w i by (auto simp: wheel_def split: if_splits)
  moreover have "distinct (?w j) \<and> (\<forall>e \<in> set (?w j). timerNow s < te_timeout (?t e) \<and>
      wheel_pos (timerHead s) (timerNow s) (te_timeout (?t e)) = j)" if j: "j < TIMER_WHEEL_LENGTH" for j
    using w j out [OF j] pos by (auto simp: wheel_def)
  ultimately have "wheel (insert evt E) ?s'" using h by (simp add: wheel_def timer_upd_def)
  moreover have "KTimer_Create timeout cb arg s = Some (evt, ?s')"
    using free by (simp add: KTimer_Create_def Slab_Alloc_def timer_upd_def Let_def)
  ultimately show thesis using that by blast
qed

end
