(* ===== verification/SysCtl.thy ===== *)
theory SysCtl
  imports Kernel
begin

text \<open>
  System control nodes (\<^verbatim>\<open>sys/kern/sysctl.c\<close>): the table of nodes and the access to their
  objects, which lie in memory at \<open>sysctlNode\<close> of their index.
\<close>

section \<open>Definitions\<close>

definition SYSCTL_TYPE_INVALID :: u64 where "SYSCTL_TYPE_INVALID = 0"
definition SYSCTL_TYPE_STR :: u64 where "SYSCTL_TYPE_STR = 1"
definition SYSCTL_TYPE_INT :: u64 where "SYSCTL_TYPE_INT = 2"
definition SYSCTL_TYPE_BOOL :: u64 where "SYSCTL_TYPE_BOOL = 3"
definition SYSCTL_FLAG_RO :: u64 where "SYSCTL_FLAG_RO = 1"
definition SYSCTL_FLAG_RW :: u64 where "SYSCTL_FLAG_RW = 2"

lemmas sysctl_consts = SYSCTL_TYPE_INVALID_def SYSCTL_TYPE_STR_def SYSCTL_TYPE_INT_def SYSCTL_TYPE_BOOL_def
  SYSCTL_FLAG_RO_def SYSCTL_FLAG_RW_def

record SysCtlEntry =
  sc_path :: "u8 list"
  sc_type :: u64
  sc_flags :: u64

definition ascii :: "string \<Rightarrow> u8 list" where
  "ascii = map (\<lambda>c. of_nat (of_char c))"

definition SYSCTL_STR :: "string \<Rightarrow> u64 \<Rightarrow> SysCtlEntry" where
  "SYSCTL_STR path flags = \<lparr>sc_path = ascii path, sc_type = SYSCTL_TYPE_STR, sc_flags = flags\<rparr>"

definition SYSCTL_INT :: "string \<Rightarrow> u64 \<Rightarrow> SysCtlEntry" where
  "SYSCTL_INT path flags = \<lparr>sc_path = ascii path, sc_type = SYSCTL_TYPE_INT, sc_flags = flags\<rparr>"

definition SYSCTLTable :: "SysCtlEntry list" where
  "SYSCTLTable =
     [SYSCTL_STR ''kern_ostype'' SYSCTL_FLAG_RO,
      SYSCTL_INT ''kern_hz'' SYSCTL_FLAG_RW,
      SYSCTL_INT ''time_tzadj'' SYSCTL_FLAG_RW,
      SYSCTL_INT ''log_syscall'' SYSCTL_FLAG_RW,
      SYSCTL_INT ''log_loader'' SYSCTL_FLAG_RW,
      SYSCTL_INT ''log_vfs'' SYSCTL_FLAG_RW,
      SYSCTL_INT ''log_o2fs'' SYSCTL_FLAG_RW,
      SYSCTL_INT ''log_ide'' SYSCTL_FLAG_RW]"

definition sizeof_SysCtlString :: u64 where "sizeof_SysCtlString = 192"
definition sizeof_SysCtlInt :: u64 where "sizeof_SysCtlInt = 72"
definition sizeof_SysCtlBool :: u64 where "sizeof_SysCtlBool = 65"

text \<open>\<^verbatim>\<open>SysCtl_Lookup\<close>: the index of the node of the string at \<open>path\<close>; \<^verbatim>\<open>-1\<close> is \<open>None\<close>.\<close>

definition SysCtl_Lookup :: "bytes \<Rightarrow> u64 \<Rightarrow> nat option" where
  "SysCtl_Lookup m path = List.find (\<lambda>i. cstr m path (sc_path (SYSCTLTable ! i))) [0..<length SYSCTLTable]"

definition SysCtl_GetType :: "u64 \<Rightarrow> 'a kern_scheme \<Rightarrow> u64" where
  "SysCtl_GetType node s =
     (case SysCtl_Lookup (bmem s) node of None \<Rightarrow> SYSCTL_TYPE_INVALID | Some i \<Rightarrow> sc_type (SYSCTLTable ! i))"

definition SysCtl_GetObject :: "u64 \<Rightarrow> 'a kern_scheme \<Rightarrow> u64" where
  "SysCtl_GetObject node s = (case SysCtl_Lookup (bmem s) node of None \<Rightarrow> 0 | Some i \<Rightarrow> sysctlNode s i)"

text \<open>The cases of the \<^verbatim>\<open>switch\<close> in \<^verbatim>\<open>SysCtl_SetObject\<close> fall through to the following ones.\<close>

definition SysCtl_SetObject :: "u64 \<Rightarrow> u64 \<Rightarrow> 'a kern_scheme \<Rightarrow> int \<times> 'a kern_scheme" where
  "SysCtl_SetObject node obj s =
     (case SysCtl_Lookup (bmem s) node of
        None \<Rightarrow> (ENOENT, s)
      | Some i \<Rightarrow>
          if sc_flags (SYSCTLTable ! i) = SYSCTL_FLAG_RO then (EACCES, s)
          else let ty = sc_type (SYSCTLTable ! i); val = sysctlNode s i;
                   m = (if ty = SYSCTL_TYPE_STR then memcpy val obj sizeof_SysCtlString (bmem s) else bmem s);
                   m = (if ty = SYSCTL_TYPE_STR \<or> ty = SYSCTL_TYPE_INT then memcpy val obj sizeof_SysCtlInt m else m);
                   m = (if ty = SYSCTL_TYPE_STR \<or> ty = SYSCTL_TYPE_INT \<or> ty = SYSCTL_TYPE_BOOL
                        then memcpy val obj sizeof_SysCtlBool m else m)
               in (0, s\<lparr>bmem := m\<rparr>))"

end
