(* ===== verification/Printf.thy ===== *)
theory Printf
  imports CString
begin

text \<open>
  The formatted output of the kernel, \<^verbatim>\<open>src/sys/kern/printf.c\<close>.  The characters passed to
  \<^verbatim>\<open>func\<close> are collected in a list; the variable arguments are the 64-bit slots of the
  \<^verbatim>\<open>va_list\<close> in order, and taking an argument that was not passed is undefined (\<open>None\<close>).
  Format and \<^verbatim>\<open>%s\<close> arguments are strings in the byte memory \<open>m\<close>.
\<close>

section \<open>Numbers\<close>

definition numberstring_lower :: "u8 list" where
  "numberstring_lower = [48, 49, 50, 51, 52, 53, 54, 55, 56, 57, 97, 98, 99, 100, 101, 102]"

definition numberstring_upper :: "u8 list" where
  "numberstring_upper = [48, 49, 50, 51, 52, 53, 54, 55, 56, 57, 65, 66, 67, 68, 69, 70]"

text \<open>The loop \<^verbatim>\<open>do { *p = numberstring[num % base]; p++; } while (num /= base)\<close>.\<close>

partial_function (option) num_digits :: "u8 list \<Rightarrow> u64 \<Rightarrow> u64 \<Rightarrow> u8 list option" where
  "num_digits tab b num =
     Option.bind (kassert (b \<noteq> 0 \<and> unat (num mod b) < length tab)) (\<lambda>_.
       if num div b = 0 then Some [tab ! unat (num mod b)]
       else Option.bind (num_digits tab b (num div b)) (\<lambda>ds. Some (tab ! unat (num mod b) # ds)))"

definition spaces :: "int \<Rightarrow> u8 \<Rightarrow> u8 list" where
  "spaces n c = replicate (nat n) c"

definition printnum :: "u64 \<Rightarrow> int \<Rightarrow> int \<Rightarrow> u8 \<Rightarrow> u8 list option" where
  "printnum num base width padc = do {
     ds \<leftarrow> (if base < 0 then num_digits numberstring_upper (word_of_int (- base)) num
            else num_digits numberstring_lower (word_of_int base) num);
     let sp = width - int (length ds);
     Some ((if padc = 32 \<or> padc = 48 then spaces sp padc else []) @ rev ds @
           (if padc = 45 then spaces sp 32 else []))
   }"

section \<open>Formats\<close>

text \<open>\<^verbatim>\<open>getuint\<close> and \<^verbatim>\<open>getint\<close> for the only values 8 and 4 of \<^verbatim>\<open>lflag\<close>.\<close>

definition getuint :: "bool \<Rightarrow> u64 \<Rightarrow> u64" where
  "getuint long a = (if long then a else ucast (ucast a :: u32))"

definition getint :: "bool \<Rightarrow> u64 \<Rightarrow> u64" where
  "getint long a = (if long then a else scast (ucast a :: u32))"

text \<open>
  The output of \<^verbatim>\<open>%d\<close>: a minus sign and the magnitude; the negation of the least 64-bit
  number overflows.
\<close>

definition print_signed :: "u64 \<Rightarrow> int \<Rightarrow> u8 \<Rightarrow> u8 list option" where
  "print_signed num width padc =
     (if sint num < 0 then do {
        kassert (sint num \<noteq> - (2 ^ 63));
        ds \<leftarrow> printnum (- num) 10 width padc;
        Some (45 # ds)
      } else printnum num 10 width padc)"

text \<open>The digits of a field width; an \<^verbatim>\<open>int\<close> overflow is undefined.\<close>

partial_function (option) read_width :: "bytes \<Rightarrow> int \<Rightarrow> u8 \<Rightarrow> u64 \<Rightarrow> (int \<times> u64) option" where
  "read_width m width ch fmt =
     (let width = 10 * width + uint ch - 48 in
      Option.bind (kassert (width < 2 ^ 31)) (\<lambda>_.
        if m fmt < 48 \<or> 57 < m fmt then Some (width, fmt)
        else read_width m width (m fmt) (fmt + 1)))"

text \<open>The characters up to the terminator of a string.\<close>

partial_function (option) string_at :: "bytes \<Rightarrow> u64 \<Rightarrow> u8 list option" where
  "string_at m p =
     (if m p = 0 then Some [] else Option.bind (string_at m (p + 1)) (\<lambda>cs. Some (m p # cs)))"

definition print_string :: "bytes \<Rightarrow> u64 \<Rightarrow> int \<Rightarrow> u8 \<Rightarrow> u8 list option" where
  "print_string m p width padc = do {
     kassert (p \<noteq> 0);
     cs \<leftarrow> string_at m p;
     let sp = width - int (length cs);
     Some ((if padc = 32 then spaces sp 32 else []) @ cs @ (if padc = 45 then spaces sp 32 else []))
   }"

text \<open>
  The position in the format: copying literal characters, or after a \<^verbatim>\<open>%\<close> (the label
  \<^verbatim>\<open>again\<close>) with the width, the long flag and the padding character.
\<close>

datatype fmode = Lit | Spec int bool u8

definition next_arg :: "u64 list \<Rightarrow> (u64 \<times> u64 list) option" where
  "next_arg ap = (case ap of [] \<Rightarrow> None | a # ap \<Rightarrow> Some (a, ap))"

text \<open>The conversions that take an argument and print it; other characters are printed literally.\<close>

definition convert :: "bytes \<Rightarrow> u8 \<Rightarrow> int \<Rightarrow> bool \<Rightarrow> u8 \<Rightarrow> u64 list \<Rightarrow> (u8 list \<times> u64 list) option" where
  "convert m ch width lflag padc ap =
     (if ch \<in> {99, 115, 100, 117, 111, 112, 120, 88} then do {
        (a, ap) \<leftarrow> next_arg ap;
        cs \<leftarrow> (if ch = 99 then Some [ucast a]
               else if ch = 115 then print_string m a width padc
               else if ch = 100 then print_signed (getint lflag a) width padc
               else if ch = 117 then printnum (getuint lflag a) 10 width padc
               else if ch = 111 then printnum (getuint lflag a) 8 width padc
               else if ch = 112 then printnum a 8 width padc
               else if ch = 120 then printnum (getuint lflag a) 16 width padc
               else printnum (getuint lflag a) (- 16) width padc);
        Some (cs, ap)
      } else Some ([ch], ap))"

partial_function (option) kvprintf_loop ::
  "bytes \<Rightarrow> fmode \<Rightarrow> u64 \<Rightarrow> u64 list \<Rightarrow> u8 list \<Rightarrow> (int \<times> u8 list) option" where
  "kvprintf_loop m md fmt ap out =
     (let ch = m fmt; fmt = fmt + 1 in
      case md of
        Lit \<Rightarrow>
          if ch = 37 then kvprintf_loop m (Spec (- 1) False 32) fmt ap out
          else if ch = 0 then Some (- 1, out)
          else kvprintf_loop m Lit fmt ap (out @ [ch])
      | Spec width lflag padc \<Rightarrow>
          if ch = 45 then kvprintf_loop m (Spec width lflag 45) fmt ap out
          else if ch = 48 then kvprintf_loop m (Spec width lflag 48) fmt ap out
          else if 49 \<le> ch \<and> ch \<le> 57 then
            Option.bind (read_width m 0 ch fmt) (\<lambda>(width, fmt). kvprintf_loop m (Spec width lflag padc) fmt ap out)
          else if ch = 108 then kvprintf_loop m (Spec width True padc) fmt ap out
          else Option.bind (convert m ch width lflag padc ap) (\<lambda>(cs, ap). kvprintf_loop m Lit fmt ap (out @ cs)))"

definition kvprintf :: "bytes \<Rightarrow> u64 \<Rightarrow> u64 list \<Rightarrow> (int \<times> u8 list) option" where
  "kvprintf m fmt ap = kvprintf_loop m Lit fmt ap []"

text \<open>\<^verbatim>\<open>consoleputc\<close>: what reaches the console for one character, and \<^verbatim>\<open>kprintf\<close>.\<close>

definition consoleputc :: "u8 \<Rightarrow> u8 list" where
  "consoleputc c = (if c = 10 then [13, c] else [c])"

definition kprintf :: "bytes \<Rightarrow> u64 \<Rightarrow> u64 list \<Rightarrow> (int \<times> u8 list) option" where
  "kprintf m fmt ap = map_option (\<lambda>(r, out). (r, concat (map consoleputc out))) (kvprintf m fmt ap)"

section \<open>Reading the digits back\<close>

definition digit_val :: "u8 list \<Rightarrow> u8 \<Rightarrow> nat" where
  "digit_val tab c = length (takeWhile (\<lambda>x. x \<noteq> c) tab)"

fun digits_value :: "u8 list \<Rightarrow> nat \<Rightarrow> u8 list \<Rightarrow> nat" where
  "digits_value tab b [] = 0"
| "digits_value tab b (c # cs) = digit_val tab c * b ^ length cs + digits_value tab b cs"

lemma digit_val_nth: "distinct tab \<Longrightarrow> i < length tab \<Longrightarrow> digit_val tab (tab ! i) = i"
  unfolding digit_val_def
  by (subst takeWhile_eq_take_P_nth [of i]) (auto simp: nth_eq_iff_index_eq)

lemma digits_value_append:
  "digits_value tab b (xs @ ys) = digits_value tab b xs * b ^ length ys + digits_value tab b ys"
  by (induction xs) (simp_all add: algebra_simps power_add)

lemma num_digits_value:
  assumes "distinct tab" and "2 \<le> unat b" and "unat b \<le> length tab"
  shows "\<exists>ds. num_digits tab b num = Some ds \<and> digits_value tab (unat b) (rev ds) = unat num \<and>
     ds \<noteq> [] \<and> set ds \<subseteq> set tab \<and> (last ds = tab ! 0 \<longrightarrow> num = 0) \<and> unat num < unat b ^ length ds"
proof (induction "unat num" arbitrary: num rule: less_induct)
  case less
  let ?d = "unat (num mod b)"
  have b0: "b \<noteq> 0" using assms(2) by auto
  have d: "?d < unat b" using assms(2) by (simp add: unat_mod)
  then have dt: "?d < length tab" using assms(3) by simp
  have v: "digit_val tab (tab ! ?d) = ?d" by (rule digit_val_nth [OF assms(1) dt])
  have dm: "unat num = unat (num div b) * unat b + ?d" by (simp add: unat_div unat_mod)
  show ?case
  proof (cases "num div b = 0")
    case True
    then have eq: "num_digits tab b num = Some [tab ! ?d]"
      using dt b0 by (simp add: num_digits.simps [of tab b num])
    have "num = 0" if "tab ! ?d = tab ! 0"
    proof -
      have "?d = 0" using that assms(1) dt by (metis nth_eq_iff_index_eq length_greater_0_conv less_nat_zero_code list.size(3))
      with dm True show ?thesis by (simp add: unat_eq_zero)
    qed
    with eq v dm True d dt show ?thesis by auto
  next
    case False
    have "num \<noteq> 0" using False by auto
    then have "0 < unat num" by (simp add: unat_gt_0)
    then have "unat (num div b) < unat num" using assms(2) by (simp add: unat_div)
    from less [OF this] obtain ds where ds: "num_digits tab b (num div b) = Some ds"
        "digits_value tab (unat b) (rev ds) = unat (num div b)" "ds \<noteq> []" "set ds \<subseteq> set tab"
        "last ds = tab ! 0 \<longrightarrow> num div b = 0" "unat (num div b) < unat b ^ length ds" by blast
    then have "num_digits tab b num = Some (tab ! ?d # ds)"
      using dt b0 False by (simp add: num_digits.simps [of tab b num])
    moreover have "unat num < unat b ^ length (tab ! ?d # ds)"
    proof -
      have "unat num < (unat (num div b) + 1) * unat b" using dm d by simp
      also have "\<dots> \<le> unat b ^ length ds * unat b" using ds(6) by (intro mult_le_mono1) simp
      finally show ?thesis by (simp add: mult.commute)
    qed
    ultimately show ?thesis using ds v dm False dt by (simp add: digits_value_append)
  qed
qed

lemma printnum_digits:
  assumes "base \<in> {8, 10, 16, - 16}"
  defines "tab \<equiv> if base < 0 then numberstring_upper else numberstring_lower"
  obtains ds where "printnum num base width padc =
      Some ((if padc = 32 \<or> padc = 48 then spaces (width - int (length ds)) padc else []) @ ds @
            (if padc = 45 then spaces (width - int (length ds)) 32 else []))"
    and "digits_value tab (nat \<bar>base\<bar>) ds = unat num" and "ds \<noteq> []" and "hd ds = 48 \<Longrightarrow> num = 0"
proof -
  let ?b = "word_of_int \<bar>base\<bar> :: u64"
  have t: "distinct tab" "length tab = 16" "tab ! 0 = 48"
    by (simp_all add: tab_def numberstring_lower_def numberstring_upper_def)
  have b: "unat ?b = nat \<bar>base\<bar>" "2 \<le> unat ?b" "unat ?b \<le> length tab" using assms(1) t(2) by auto
  from num_digits_value [OF t(1) b(2,3), of num] obtain ds where ds: "num_digits tab ?b num = Some ds"
      "digits_value tab (unat ?b) (rev ds) = unat num" "ds \<noteq> []" "last ds = tab ! 0 \<longrightarrow> num = 0"
    by blast
  have "printnum num base width padc =
      Some ((if padc = 32 \<or> padc = 48 then spaces (width - int (length (rev ds))) padc else []) @ rev ds @
            (if padc = 45 then spaces (width - int (length (rev ds))) 32 else []))"
    using ds(1) by (auto simp: printnum_def tab_def split: if_splits)
  with ds t(3) b(1) show thesis by (intro that [of "rev ds"]) (auto simp: hd_rev)
qed

section \<open>Properties\<close>

text \<open>
  C26. Printing a number returns, for the bases the formats use, its digits most significant
  first (reading them back gives the number, and there is no leading zero), padded on the
  side the flag selects to at least the field width.
\<close>

theorem printnum_roundtrip:
  assumes "base \<in> {8, 10, 16, - 16}" and "padc \<in> {32, 48, 45}"
  shows "\<exists>pre ds post. printnum num base width padc = Some (pre @ ds @ post) \<and>
     digits_value (if base < 0 then numberstring_upper else numberstring_lower) (nat \<bar>base\<bar>) ds = unat num \<and>
     ds \<noteq> [] \<and> (hd ds = 48 \<longrightarrow> num = 0) \<and>
     int (length (pre @ ds @ post)) = max width (int (length ds)) \<and>
     (if padc = 45 then pre = [] \<and> set post \<subseteq> {32} else post = [] \<and> set pre \<subseteq> {padc})"
proof -
  obtain ds where ds: "printnum num base width padc =
      Some ((if padc = 32 \<or> padc = 48 then spaces (width - int (length ds)) padc else []) @ ds @
            (if padc = 45 then spaces (width - int (length ds)) 32 else []))"
    "digits_value (if base < 0 then numberstring_upper else numberstring_lower) (nat \<bar>base\<bar>) ds = unat num"
    "ds \<noteq> []" "hd ds = 48 \<Longrightarrow> num = 0"
    by (rule printnum_digits [OF assms(1), of num width padc]) (rule that)
  show ?thesis
    by (rule exI [of _ "if padc = 32 \<or> padc = 48 then spaces (width - int (length ds)) padc else []"],
        rule exI [of _ ds], rule exI [of _ "if padc = 45 then spaces (width - int (length ds)) 32 else []"])
       (use ds assms(2) in \<open>auto simp: spaces_def set_replicate_conv_if\<close>)
qed

theorem printnum_roundtrip_witness:
  "printnum 255 16 4 48 = Some [48, 48, 102, 102] \<and>
   (\<exists>pre ds post. printnum 255 16 4 48 = Some (pre @ ds @ post) \<and> digits_value numberstring_lower 16 ds = 255)"
proof -
  have "num_digits numberstring_lower 16 255 = Some [102, 102]"
    by (simp add: num_digits.simps [of _ _ 255] num_digits.simps [of _ _ 15] numberstring_lower_def)
  moreover have "spaces 2 48 = [48, 48]" by (simp add: spaces_def numeral_2_eq_2)
  ultimately have "printnum 255 16 4 48 = Some [48, 48, 102, 102]" by (simp add: printnum_def)
  moreover have pr: "16 \<in> {8, 10, 16, - 16 :: int}" "48 \<in> {32, 48, 45 :: u8}" by simp_all
  obtain pre ds post where "printnum 255 16 4 48 = Some (pre @ ds @ post)"
      "digits_value (if (16 :: int) < 0 then numberstring_upper else numberstring_lower) (nat \<bar>16\<bar>) ds = unat (255 :: u64)"
    using printnum_roundtrip [OF pr, of 255 4] by blast
  moreover from this(2) have "digits_value numberstring_lower 16 ds = 255" by simp
  ultimately show ?thesis by blast
qed

lemma kvprintf_literal:
  "cstr m fmt (cs @ ds) \<Longrightarrow> 37 \<notin> set cs \<Longrightarrow>
     kvprintf_loop m Lit fmt ap out = kvprintf_loop m Lit (fmt + of_nat (length cs)) ap (out @ cs)"
proof (induction cs arbitrary: fmt out)
  case (Cons c cs)
  then have "kvprintf_loop m Lit fmt ap out = kvprintf_loop m Lit (fmt + 1) ap (out @ [c])"
    by (simp add: kvprintf_loop.simps [of m Lit fmt])
  also have "\<dots> = kvprintf_loop m Lit (fmt + 1 + of_nat (length cs)) ap (out @ [c] @ cs)"
    using Cons by simp
  finally show ?case by (simp add: add.assoc)
qed simp

text \<open>
  C38. A format without \<^verbatim>\<open>%\<close> is printed as it is.  A format that ends in \<^verbatim>\<open>%\<close> prints its
  terminator and then continues with whatever follows the string in memory.
\<close>

theorem kvprintf_trailing_percent:
  assumes "37 \<notin> set cs"
  shows "(cstr m fmt cs \<longrightarrow> kvprintf m fmt ap = Some (- 1, cs)) \<and>
     (cstr m fmt (cs @ [37]) \<longrightarrow>
        kvprintf m fmt ap = kvprintf_loop m Lit (fmt + of_nat (length cs + 2)) ap (cs @ [0]))"
proof (intro conjI impI)
  assume c: "cstr m fmt cs"
  then have "m (fmt + of_nat (length cs)) = 0" using cstr_append [of m fmt cs "[]"] by simp
  with kvprintf_literal [of m fmt cs "[]" ap "[]"] c assms show "kvprintf m fmt ap = Some (- 1, cs)"
    by (simp add: kvprintf_def kvprintf_loop.simps [of m Lit "fmt + of_nat (length cs)"])
next
  assume c: "cstr m fmt (cs @ [37])"
  let ?p = "fmt + of_nat (length cs)"
  have p: "m ?p = 37" "m (?p + 1) = 0" using c by (auto simp: cstr_append)
  have "kvprintf m fmt ap = kvprintf_loop m Lit ?p ap cs"
    using kvprintf_literal [OF c assms, of ap "[]"] by (simp add: kvprintf_def)
  also have "\<dots> = kvprintf_loop m (Spec (- 1) False 32) (?p + 1) ap cs"
    using p by (simp add: kvprintf_loop.simps [of m Lit ?p])
  also have "\<dots> = kvprintf_loop m Lit (?p + 1 + 1) ap (cs @ [0])"
    using p by (simp add: kvprintf_loop.simps [of m "Spec (- 1) False 32" "?p + 1"] convert_def)
  finally show "kvprintf m fmt ap = kvprintf_loop m Lit (fmt + of_nat (length cs + 2)) ap (cs @ [0])"
    by (simp add: algebra_simps)
qed

theorem kvprintf_trailing_percent_witness:
  "cstr (\<lambda>a. if a = 0 then 37 else if a = 2 then 65 else 0) 0 [37] \<and>
   kvprintf (\<lambda>a. if a = 0 then 37 else if a = 2 then 65 else 0) 0 [] = Some (- 1, [0, 65])"
proof -
  let ?m = "\<lambda>a :: u64. if a = 0 then 37 else if a = 2 then 65 else (0 :: u8)"
  have "cstr ?m 2 [65]" by simp
  then have "kvprintf_loop ?m Lit 2 [] [0] = Some (- 1, [0, 65])"
    by (simp add: kvprintf_loop.simps)
  with kvprintf_trailing_percent [of "[]" ?m 0 "[]"] show ?thesis by simp
qed

end
