(* ===== verification/Syscall.thy ===== *)
theory Syscall
  imports Loader KTimer SysCtl Printf
begin

text \<open>
  System calls (\<^verbatim>\<open>sys/kern/syscall.c\<close>) and network interfaces (\<^verbatim>\<open>sys/kern/nic.c\<close>).  A call runs
  on a CPU and gets the address \<open>stk\<close> of the local variables of its function; its result is
  the value in the return register.  A call that blocks or ends its thread leaves the CPU in
  another thread, which is the result \<open>None\<close> beside the new state.
\<close>

section \<open>Network interfaces\<close>

definition NIC_AddNIC :: "u64 \<Rightarrow> 'a kern_scheme \<Rightarrow> 'a kern_scheme" where
  "NIC_AddNIC nic s = s\<lparr>nics := (nics s)(nic := (nics s nic)\<lparr>nicNo := nextNICNo s\<rparr>),
     nextNICNo := nextNICNo s + 1, nicList := nic # nicList s\<rparr>"

definition NIC_RemoveNIC :: "u64 \<Rightarrow> 'a kern_scheme \<Rightarrow> 'a kern_scheme option" where
  "NIC_RemoveNIC nic s = do { l \<leftarrow> unlink nic (nicList s); Some (s\<lparr>nicList := l\<rparr>) }"

definition NIC_GetByID :: "u64 \<Rightarrow> 'a kern_scheme \<Rightarrow> u64" where
  "NIC_GetByID no s = (case List.find (\<lambda>n. nicNo (nics s n) = no) (nicList s) of None \<Rightarrow> 0 | Some n \<Rightarrow> n)"

definition sizeof_NIC :: u64 where "sizeof_NIC = 64"

definition sizeof_MBuf :: u64 where "sizeof_MBuf = 32"

section \<open>Processes and memory\<close>

definition ret :: "int \<Rightarrow> u64" where "ret = of_int"

definition pack :: "int \<Rightarrow> u64" where "pack err = SYSCALL_PACK (ret err) 0"

definition Syscall_Time :: "'a kern_scheme \<Rightarrow> (u64 \<times> 'a kern_scheme) option" where
  "Syscall_Time s = do { now \<leftarrow> KTime_GetEpochNS s; Some (now, s) }"

definition Syscall_GetPID :: "nat \<Rightarrow> 'a kern_scheme \<Rightarrow> (u64 \<times> 'a kern_scheme) option" where
  "Syscall_GetPID cpu s = do {
     (cur, s) \<leftarrow> Sched_Current cpu s;
     let ident = pid (procs s (t_proc (thrs s cur)));
     s \<leftarrow> Thread_Release cur s;
     Some (ident, s)
   }"

definition Syscall_Exit :: "nat \<Rightarrow> u64 \<Rightarrow> 'a kern_scheme \<Rightarrow> 'a kern_scheme option" where
  "Syscall_Exit cpu status s = do {
     (cur, s) \<leftarrow> Sched_Current cpu s;
     let s = upd_proc (t_proc (thrs s cur)) (exitCode_update (\<lambda>_. status)) s;
     s \<leftarrow> Sched_SetZombie cpu cur s;
     s \<leftarrow> Thread_Release cur s;
     Sched_Scheduler cpu s
   }"

text \<open>
  \<^verbatim>\<open>Syscall_Spawn\<close>: \<open>Spawn_args\<close> copies the arguments into the page \<open>karg\<close>, an array of pointers
  from \<open>karg + 8\<close> and the strings from \<open>karg + 64\<close>; \<open>ptr\<close> is the address of the local
  \<^verbatim>\<open>userArgPtr\<close>.  An error is the first result.
\<close>

fun Spawn_args :: "u64 \<Rightarrow> u64 \<Rightarrow> u64 \<Rightarrow> nat \<Rightarrow> u64 \<Rightarrow> nat \<Rightarrow> 'a kern_scheme \<Rightarrow> (int \<times> 'a kern_scheme) option" where
  "Spawn_args ptr karg user_argv idx strStore n s =
     (if n = 0 then Some (0, s)
      else let (r, s) = Copy_In (user_argv + of_nat idx * 8) ptr 8 s in
        if r \<noteq> 0 then Some (r, s)
        else if rd64 (bmem s) ptr = 0 then Some (0, s)
        else let (r, s) = Copy_StrIn (rd64 (bmem s) ptr) strStore 256 s in
          if r \<noteq> 0 then Some (r, s)
          else do {
            let s = s\<lparr>bmem := wr64 (karg + 8 + of_nat idx * 8) strStore (bmem s)\<rparr>;
            l \<leftarrow> strlen (bmem s) strStore;
            Spawn_args ptr karg user_argv (Suc idx) (strStore + l + 1) (n - 1) s
          })"

declare Spawn_args.simps [simp del]

text \<open>The loop that copies the arguments into the page of the new process.\<close>

fun Spawn_copy :: "u64 \<Rightarrow> u64 \<Rightarrow> u64 \<Rightarrow> nat \<Rightarrow> u64 \<Rightarrow> nat \<Rightarrow> 'a kern_scheme \<Rightarrow> (nat \<times> 'a kern_scheme) option" where
  "Spawn_copy karg child uva i off n s =
     (if n = 0 \<or> rd64 (bmem s) (karg + 8 + of_nat i * 8) = 0 then Some (i, s)
      else do {
        let kStr = rd64 (bmem s) (karg + 8 + of_nat i * 8);
        l \<leftarrow> strlen (bmem s) kStr;
        m \<leftarrow> strcpy (child + 64 + off) kStr (bmem s);
        let m = wr64 (child + of_nat (i + 1) * 8) (uva + 64 + off) m;
        Spawn_copy karg child uva (Suc i) (off + (l + 1)) (n - 1) (s\<lparr>bmem := m\<rparr>)
      })"

declare Spawn_copy.simps [simp del]

text \<open>The part of \<^verbatim>\<open>Syscall_Spawn\<close> after the header of the program has been checked.\<close>

definition Spawn_start :: "nat \<Rightarrow> u64 \<Rightarrow> u64 \<Rightarrow> u64 \<Rightarrow> u64 \<Rightarrow> 'a kern_scheme \<Rightarrow> (u64 \<times> 'a kern_scheme) option" where
  "Spawn_start cpu exeName karg elfHdr vn s = do {
     (curThr, s) \<leftarrow> Sched_Current cpu s;
     title \<leftarrow> string_at (bmem s) exeName;
     (newProc, s) \<leftarrow> Process_Create (t_proc (thrs s curThr)) title s;
     (newThr, s) \<leftarrow> Thread_Create newProc s;
     s \<leftarrow> Thread_Release curThr s;
     s \<leftarrow> open_console newProc s;
     s \<leftarrow> open_console newProc s;
     s \<leftarrow> open_console newProc s;
     kassert (newThr \<noteq> 0);
     (ok, s) \<leftarrow> Loader_Load newThr vn elfHdr 1024 s;
     let uva = MEM_USERSPACE_STKTOP - PGSIZE;
     let s = Thread_SetupUThread newThr (entrypoint (procs s newProc)) uva s;
     child \<leftarrow> user_page (t_space (thrs s newThr)) uva s;
     (argc, s) \<leftarrow> Spawn_copy karg child uva 0 0 8 s;
     s \<leftarrow> Sched_SetRunnable newThr (s\<lparr>bmem := wr64 child (of_nat argc) (bmem s)\<rparr>);
     Some (SYSCALL_PACK 0 (pid (procs s newProc)), s)
   }"

definition Syscall_Spawn :: "nat \<Rightarrow> u64 \<Rightarrow> u64 \<Rightarrow> u64 \<Rightarrow> 'a kern_scheme \<Rightarrow> (u64 \<times> 'a kern_scheme) option" where
  "Syscall_Spawn cpu stk user_path user_argv s =
     (let exeName = stk; ptr = stk + 512; (r, s) = Copy_StrIn user_path exeName 512 s in
      if r \<noteq> 0 then Some (pack r, s)
      else do {
        (karg, s) \<leftarrow> alloc_page s;
        if karg = 0 then Some (pack ENOMEM, s)
        else do {
          (r, s) \<leftarrow> Spawn_args ptr karg user_argv 0 (karg + 64) 8 s;
          if r \<noteq> 0 then do { s \<leftarrow> PAlloc_Release karg s; Some (pack r, s) }
          else do {
            (hdr, s) \<leftarrow> alloc_page s;
            if hdr = 0 then do { s \<leftarrow> PAlloc_Release karg s; Some (pack ENOMEM, s) }
            else do {
              (vn, s) \<leftarrow> VFS_Lookup exeName s;
              st \<leftarrow> VFS_Open vn s;
              if st < 0
              then do { s \<leftarrow> PAlloc_Release hdr s; s \<leftarrow> PAlloc_Release karg s; Some (pack EINVAL, s) }
              else do {
                (r, s) \<leftarrow> VFS_Read vn hdr 0 1024 s;
                if \<not> Loader_CheckHeader (bmem s) hdr
                then do {
                  st \<leftarrow> VFS_Close vn s;
                  s \<leftarrow> PAlloc_Release hdr s;
                  s \<leftarrow> PAlloc_Release karg s;
                  Some (pack EINVAL, s)
                }
                else Spawn_start cpu exeName karg hdr vn s
              }
            }
          }
        }
      })"

definition Syscall_Wait :: "nat \<Rightarrow> u64 \<Rightarrow> 'a kern_scheme \<Rightarrow> (u64 \<times> 'a kern_scheme) option" where
  "Syscall_Wait cpu ident s = do {
     (cur, s) \<leftarrow> Sched_Current cpu s;
     status \<leftarrow> Process_Wait (t_proc (thrs s cur)) ident s;
     s \<leftarrow> Thread_Release cur s;
     Some (status, s)
   }"

text \<open>\<^verbatim>\<open>PMap_AllocMap\<close> never returns false.\<close>

definition Syscall_MMap :: "nat \<Rightarrow> u64 \<Rightarrow> u64 \<Rightarrow> u64 \<Rightarrow> 'a kern_scheme \<Rightarrow> (u64 \<times> 'a kern_scheme) option" where
  "Syscall_MMap cpu addr len prot s = do {
     (cur, s) \<leftarrow> Sched_Current cpu s;
     s \<leftarrow> PMap_AllocMap (t_space (thrs s cur)) addr len PTE_W s;
     s \<leftarrow> Thread_Release cur s;
     Some (addr, s)
   }"

definition Syscall_MUnmap :: "nat \<Rightarrow> u64 \<Rightarrow> u64 \<Rightarrow> 'a kern_scheme \<Rightarrow> (u64 \<times> 'a kern_scheme) option" where
  "Syscall_MUnmap cpu addr len s = do {
     (cur, s) \<leftarrow> Sched_Current cpu s;
     s \<leftarrow> PMap_Unmap (t_space (thrs s cur)) addr (len div PGSIZE) s;
     s \<leftarrow> Thread_Release cur s;
     Some (0, s)
   }"

text \<open>\<^verbatim>\<open>Syscall_MProtect\<close> is \<^verbatim>\<open>NOT_IMPLEMENTED()\<close>, which stops the machine.\<close>

definition Syscall_MProtect :: "u64 \<Rightarrow> u64 \<Rightarrow> u64 \<Rightarrow> 'a kern_scheme \<Rightarrow> (u64 \<times> 'a kern_scheme) option" where
  "Syscall_MProtect addr len prot s = None"

section \<open>Streams and files\<close>

definition handle_read :: "u64 \<Rightarrow> u64 \<Rightarrow> u64 \<Rightarrow> u64 \<Rightarrow> u64 \<Rightarrow> 'a kern_scheme \<Rightarrow> (int \<times> 'a kern_scheme) option" where
  "handle_read stk h buf off len s =
     (case h_ops (hdls s h) of
        NoOps \<Rightarrow> None | VFSUIO_ops \<Rightarrow> VFSUIO_Read h buf off len s | Console_ops \<Rightarrow> Console_Read stk h buf off len s)"

definition handle_write :: "u64 \<Rightarrow> u64 \<Rightarrow> u64 \<Rightarrow> u64 \<Rightarrow> u64 \<Rightarrow> 'a kern_scheme \<Rightarrow> (int \<times> 'a kern_scheme) option" where
  "handle_write stk h buf off len s =
     (case h_ops (hdls s h) of
        NoOps \<Rightarrow> None | VFSUIO_ops \<Rightarrow> VFSUIO_Write h buf off len s | Console_ops \<Rightarrow> Console_Write stk h buf off len s)"

definition handle_flush :: "u64 \<Rightarrow> 'a kern_scheme \<Rightarrow> (int \<times> 'a kern_scheme) option" where
  "handle_flush h s =
     (case h_ops (hdls s h) of
        NoOps \<Rightarrow> None
      | VFSUIO_ops \<Rightarrow> do { r \<leftarrow> VFSUIO_Flush h s; Some (r, s) }
      | Console_ops \<Rightarrow> Some (Console_Flush h s, s))"

text \<open>
  The common shape of the calls on a descriptor: look up the handle of the current process and
  call one of its functions.
\<close>

definition with_handle ::
  "nat \<Rightarrow> u64 \<Rightarrow> (u64 \<Rightarrow> 'a kern_scheme \<Rightarrow> (int \<times> 'a kern_scheme) option) \<Rightarrow> 'a kern_scheme \<Rightarrow> (u64 \<times> 'a kern_scheme) option" where
  "with_handle cpu fd f s = do {
     (cur, s) \<leftarrow> Sched_Current cpu s;
     (status, s) \<leftarrow> (case Handle_Lookup (t_proc (thrs s cur)) fd s of None \<Rightarrow> Some (- EBADF, s) | Some h \<Rightarrow> f h s);
     s \<leftarrow> Thread_Release cur s;
     Some (ret status, s)
   }"

definition Syscall_Read :: "nat \<Rightarrow> u64 \<Rightarrow> u64 \<Rightarrow> u64 \<Rightarrow> u64 \<Rightarrow> u64 \<Rightarrow> 'a kern_scheme \<Rightarrow> (u64 \<times> 'a kern_scheme) option" where
  "Syscall_Read cpu stk fd addr off len = with_handle cpu fd (\<lambda>h. handle_read stk h addr off len)"

definition Syscall_Write :: "nat \<Rightarrow> u64 \<Rightarrow> u64 \<Rightarrow> u64 \<Rightarrow> u64 \<Rightarrow> u64 \<Rightarrow> 'a kern_scheme \<Rightarrow> (u64 \<times> 'a kern_scheme) option" where
  "Syscall_Write cpu stk fd addr off len = with_handle cpu fd (\<lambda>h. handle_write stk h addr off len)"

definition Syscall_Flush :: "nat \<Rightarrow> u64 \<Rightarrow> 'a kern_scheme \<Rightarrow> (u64 \<times> 'a kern_scheme) option" where
  "Syscall_Flush cpu fd = with_handle cpu fd handle_flush"

definition Syscall_Close :: "nat \<Rightarrow> u64 \<Rightarrow> 'a kern_scheme \<Rightarrow> (u64 \<times> 'a kern_scheme) option" where
  "Syscall_Close cpu fd = with_handle cpu fd handle_close"

definition dev_prefix :: "u8 list" where "dev_prefix = ascii ''/dev/''"

definition dev_console :: "u8 list" where "dev_console = ascii ''/dev/console''"

definition Syscall_Open :: "nat \<Rightarrow> u64 \<Rightarrow> u64 \<Rightarrow> u64 \<Rightarrow> 'a kern_scheme \<Rightarrow> (u64 \<times> 'a kern_scheme) option" where
  "Syscall_Open cpu stk user_path flags s = do {
     (cur, s) \<leftarrow> Sched_Current cpu s;
     let proc = t_proc (thrs s cur);
     let (status, s) = Copy_StrIn user_path stk 256 s;
     (res, s) \<leftarrow>
       (if status \<noteq> 0 then Some (ret status, s)
        else if bytes_at (bmem s) stk 5 = dev_prefix
        then (if cstr (bmem s) stk dev_console
              then do { (h, s) \<leftarrow> Console_OpenHandle s; Handle_Add proc h s }
              else Some (ret (- ENOENT), s))
        else do {
          (status, h, s) \<leftarrow> VFSUIO_Open stk s;
          if status \<noteq> 0 then Some (ret status, s) else Handle_Add proc h s
        });
     s \<leftarrow> Thread_Release cur s;
     Some (res, s)
   }"

definition Syscall_Stat :: "u64 \<Rightarrow> u64 \<Rightarrow> u64 \<Rightarrow> 'a kern_scheme \<Rightarrow> (u64 \<times> 'a kern_scheme) option" where
  "Syscall_Stat stk user_path user_stat s =
     (let (status, s) = Copy_StrIn user_path stk 256 s; sb = stk + 256 in
      if status \<noteq> 0 then Some (ret status, s)
      else do {
        (status, st, s) \<leftarrow> VFS_Stat stk s;
        if status \<noteq> 0 then Some (ret status, s)
        else do {
          v \<leftarrow> st;
          let m = wr64 (sb + 24) (st_blksize v) (wr64 (sb + 16) (st_blocks v) (wr64 (sb + 8) (st_size v) (wr64 sb (st_ino v) (bmem s))));
          let (status, s) = Copy_Out sb user_stat 32 (s\<lparr>bmem := m\<rparr>);
          Some (ret status, s)
        }
      })"

definition Syscall_ReadDir :: "nat \<Rightarrow> u64 \<Rightarrow> u64 \<Rightarrow> u64 \<Rightarrow> u64 \<Rightarrow> u64 \<Rightarrow> 'a kern_scheme \<Rightarrow> (u64 \<times> 'a kern_scheme) option" where
  "Syscall_ReadDir cpu stk fd user_buf len user_off s = do {
     (cur, s) \<leftarrow> Sched_Current cpu s;
     (res, s) \<leftarrow>
       (case Handle_Lookup (t_proc (thrs s cur)) fd s of
          None \<Rightarrow> Some (- EBADF, s)
        | Some h \<Rightarrow>
            let (status, s) = Copy_In user_off stk 8 s in
            if status \<noteq> 0 then Some (status, s)
            else if h_type (hdls s h) \<noteq> HANDLE_TYPE_FILE then Some (- ENOTDIR, s)
            else do {
              (rstatus, off, s) \<leftarrow> VFS_ReadDir (stk + 8) (stk + 520) (h_vnode (hdls s h)) user_buf len (rd64 (bmem s) stk) s;
              if rstatus < 0 then Some (rstatus, s)
              else let (status, s) = Copy_Out stk user_off 8 (s\<lparr>bmem := wr64 stk off (bmem s)\<rparr>) in
                Some (if status \<noteq> 0 then status else rstatus, s)
            });
     s \<leftarrow> Thread_Release cur s;
     Some (ret res, s)
   }"

section \<open>Threads\<close>

definition Syscall_ThreadCreate :: "nat \<Rightarrow> u64 \<Rightarrow> u64 \<Rightarrow> 'a kern_scheme \<Rightarrow> (u64 \<times> 'a kern_scheme) option" where
  "Syscall_ThreadCreate cpu rip arg s = do {
     (cur, s) \<leftarrow> Sched_Current cpu s;
     (thr, s) \<leftarrow> Thread_UThreadCreate cur rip arg s;
     s \<leftarrow> Thread_Release cur s;
     if thr = 0 then Some (pack ENOMEM, s)
     else do {
       let ident = tid (thrs s thr);
       s \<leftarrow> Sched_SetRunnable thr s;
       Some (SYSCALL_PACK 0 ident, s)
     }
   }"

definition Syscall_GetTID :: "nat \<Rightarrow> 'a kern_scheme \<Rightarrow> (u64 \<times> 'a kern_scheme) option" where
  "Syscall_GetTID cpu s = do {
     (cur, s) \<leftarrow> Sched_Current cpu s;
     let ident = tid (thrs s cur);
     s \<leftarrow> Thread_Release cur s;
     Some (ident, s)
   }"

definition Syscall_ThreadExit :: "nat \<Rightarrow> u64 \<Rightarrow> 'a kern_scheme \<Rightarrow> 'a kern_scheme option" where
  "Syscall_ThreadExit cpu status s = do {
     (cur, s) \<leftarrow> Sched_Current cpu s;
     s \<leftarrow> Sched_SetZombie cpu cur (upd_thr cur (exitValue_update (\<lambda>_. status)) s);
     s \<leftarrow> Semaphore_Release (zombieSemaphore (t_proc (thrs s cur))) s;
     s \<leftarrow> Thread_Release cur s;
     Sched_Scheduler cpu s
   }"

definition ThreadWakeupHelper :: "u64 \<Rightarrow> 'a kern_scheme \<Rightarrow> 'a kern_scheme option" where
  "ThreadWakeupHelper thr s = do {
     s \<leftarrow> Sched_SetRunnable thr s;
     s \<leftarrow> KTimer_Release (timerEvt (thrs s thr)) s;
     Thread_Release thr (upd_thr thr (timerEvt_update (\<lambda>_. 0)) s)
   }"

text \<open>The callbacks the kernel itself installs.\<close>

fun timer_callback :: "KTimerCB \<Rightarrow> u64 \<Rightarrow> 'a kern_scheme \<Rightarrow> 'a kern_scheme option" where
  "timer_callback ThreadWakeupHelperCB arg s = ThreadWakeupHelper arg s"
| "timer_callback (OtherCB f) arg s = None"

text \<open>
  \<^verbatim>\<open>Syscall_ThreadSleep\<close> up to the switch; the rest drops the reference when the thread runs
  again.
\<close>

definition Syscall_ThreadSleep :: "nat \<Rightarrow> u64 \<Rightarrow> 'a kern_scheme \<Rightarrow> 'a kern_scheme option" where
  "Syscall_ThreadSleep cpu time s = do {
     (cur, s) \<leftarrow> Sched_Current cpu s;
     s \<leftarrow> (if time \<noteq> 0
           then do {
             s \<leftarrow> Thread_Retain cur s;
             (evt, s) \<leftarrow> KTimer_Create time ThreadWakeupHelperCB cur s;
             Sched_SetWaiting cur (upd_thr cur (timerEvt_update (\<lambda>_. evt)) s)
           }
           else Some s);
     Sched_Scheduler cpu s
   }"

definition ThreadSleep_return :: "u64 \<Rightarrow> 'a kern_scheme \<Rightarrow> (u64 \<times> 'a kern_scheme) option" where
  "ThreadSleep_return cur s = do { s \<leftarrow> Thread_Release cur s; Some (0, s) }"

text \<open>
  One round of \<^verbatim>\<open>Syscall_ThreadWait\<close> by the thread \<open>cur\<close> after it has acquired the semaphore;
  the result is the value returned, or \<open>None\<close> for another round after a switch.
\<close>

definition ThreadWait_round :: "nat \<Rightarrow> u64 \<Rightarrow> u64 \<Rightarrow> 'a kern_scheme \<Rightarrow> (u64 option \<times> 'a kern_scheme) option" where
  "ThreadWait_round cpu cur ident s = do {
     (status, s) \<leftarrow> Thread_Wait cur ident s;
     if SYSCALL_ERRCODE status \<noteq> ret EAGAIN
     then do { s \<leftarrow> Thread_Release cur s; Some (Some status, s) }
     else do {
       s \<leftarrow> Semaphore_Release (zombieSemaphore (t_proc (thrs s cur))) s;
       s \<leftarrow> Sched_Scheduler cpu s;
       Some (None, s)
     }
   }"

definition Syscall_ThreadWait :: "nat \<Rightarrow> u64 \<Rightarrow> 'a kern_scheme \<Rightarrow> (u64 option \<times> 'a kern_scheme) option" where
  "Syscall_ThreadWait cpu ident s = do {
     (cur, s) \<leftarrow> Sched_Current cpu s;
     (got, s) \<leftarrow> Semaphore_Acquire cpu (zombieSemaphore (t_proc (thrs s cur))) s;
     if got then ThreadWait_round cpu cur ident s else Some (None, s)
   }"

section \<open>Devices and system control\<close>

definition Syscall_NICStat :: "u64 \<Rightarrow> u64 \<Rightarrow> 'a kern_scheme \<Rightarrow> (u64 \<times> 'a kern_scheme) option" where
  "Syscall_NICStat no user_stat s =
     (let nic = NIC_GetByID no s in
      if nic = 0 then Some (ret ENOENT, s)
      else let (status, s) = Copy_Out nic user_stat sizeof_NIC s in Some (ret status, s))"

definition nic_call :: "(NIC \<Rightarrow> nic_op) \<Rightarrow> u64 \<Rightarrow> u64 \<Rightarrow> u64 \<Rightarrow> 'a kern_scheme \<Rightarrow> u64 \<times> 'a kern_scheme" where
  "nic_call f stk no user_mbuf s =
     (let (status, s) = Copy_In user_mbuf stk sizeof_MBuf s in
      if status \<noteq> 0 then (pack status, s)
      else let nic = NIC_GetByID no s in
        if nic = 0 then (pack ENOENT, s)
        else (0, s\<lparr>bmem := snd (f (nics s nic) nic stk (bmem s))\<rparr>))"

definition Syscall_NICSend :: "u64 \<Rightarrow> u64 \<Rightarrow> u64 \<Rightarrow> 'a kern_scheme \<Rightarrow> (u64 \<times> 'a kern_scheme) option" where
  "Syscall_NICSend stk no user_mbuf s = Some (nic_call nic_tx stk no user_mbuf s)"

definition Syscall_NICRecv :: "u64 \<Rightarrow> u64 \<Rightarrow> u64 \<Rightarrow> 'a kern_scheme \<Rightarrow> (u64 \<times> 'a kern_scheme) option" where
  "Syscall_NICRecv stk no user_mbuf s = Some (nic_call nic_rx stk no user_mbuf s)"

text \<open>For a boolean node the size of the pointer is copied out, not that of the object.\<close>

definition SysCtl_old :: "u64 \<Rightarrow> u64 \<Rightarrow> u64 \<Rightarrow> 'a kern_scheme \<Rightarrow> int \<times> 'a kern_scheme" where
  "SysCtl_old node scType user_oldval s =
     (let obj = SysCtl_GetObject node s in
      if scType = SYSCTL_TYPE_STR then Copy_Out obj user_oldval sizeof_SysCtlString s
      else if scType = SYSCTL_TYPE_INT then Copy_Out obj user_oldval sizeof_SysCtlInt s
      else if scType = SYSCTL_TYPE_BOOL then Copy_Out obj user_oldval 8 s
      else (EINVAL, s))"

definition SysCtl_new :: "u64 \<Rightarrow> u64 \<Rightarrow> u64 \<Rightarrow> u64 \<Rightarrow> 'a kern_scheme \<Rightarrow> int \<times> 'a kern_scheme" where
  "SysCtl_new obj node scType user_newval s =
     (if scType \<noteq> SYSCTL_TYPE_STR \<and> scType \<noteq> SYSCTL_TYPE_INT \<and> scType \<noteq> SYSCTL_TYPE_BOOL then (EINVAL, s)
      else let sz = (if scType = SYSCTL_TYPE_STR then sizeof_SysCtlString
                     else if scType = SYSCTL_TYPE_INT then sizeof_SysCtlInt else sizeof_SysCtlBool);
               (status, s) = Copy_In user_newval obj sz s
           in if status \<noteq> 0 then (status, s) else SysCtl_SetObject node obj s)"

definition Syscall_SysCtl :: "u64 \<Rightarrow> u64 \<Rightarrow> u64 \<Rightarrow> u64 \<Rightarrow> 'a kern_scheme \<Rightarrow> (u64 \<times> 'a kern_scheme) option" where
  "Syscall_SysCtl stk user_node user_oldval user_newval s =
     (let node = stk; (status, s) = Copy_StrIn user_node node 64 s in
      if status \<noteq> 0 then Some (pack status, s)
      else let scType = SysCtl_GetType node s in
        if scType = SYSCTL_TYPE_INVALID then Some (pack ENOENT, s)
        else let (status, s) = (if user_oldval \<noteq> 0 then SysCtl_old node scType user_oldval s else (0, s)) in
          if status \<noteq> 0 then Some (pack status, s)
          else let (status, s) = (if user_newval \<noteq> 0 then SysCtl_new (stk + 64) node scType user_newval s else (0, s))
            in Some (pack status, s))"

definition Syscall_FSMount :: "'a kern_scheme \<Rightarrow> (u64 \<times> 'a kern_scheme) option" where
  "Syscall_FSMount s = Some (pack ENOSYS, s)"

definition Syscall_FSUnmount :: "'a kern_scheme \<Rightarrow> (u64 \<times> 'a kern_scheme) option" where
  "Syscall_FSUnmount s = Some (pack ENOSYS, s)"

definition Syscall_FSInfo :: "'a kern_scheme \<Rightarrow> (u64 \<times> 'a kern_scheme) option" where
  "Syscall_FSInfo s = Some (pack ENOSYS, s)"

section \<open>Dispatch\<close>

text \<open>The result is the value returned to the caller, or \<open>None\<close> when another thread runs now.\<close>

definition returns :: "(u64 \<times> 'a kern_scheme) option \<Rightarrow> (u64 option \<times> 'a kern_scheme) option" where
  "returns r = map_option (map_prod Some id) r"

definition switches :: "'a kern_scheme option \<Rightarrow> (u64 option \<times> 'a kern_scheme) option" where
  "switches r = map_option (Pair None) r"

definition Syscall_Entry ::
  "nat \<Rightarrow> u64 \<Rightarrow> u64 \<Rightarrow> u64 \<Rightarrow> u64 \<Rightarrow> u64 \<Rightarrow> u64 \<Rightarrow> 'a kern_scheme \<Rightarrow> (u64 option \<times> 'a kern_scheme) option" where
  "Syscall_Entry cpu stk syscall a1 a2 a3 a4 s =
     (if syscall = 0x00 then returns (Some (0, s))
      else if syscall = 0x01 then returns (Syscall_Time s)
      else if syscall = 0x02 then returns (Syscall_GetPID cpu s)
      else if syscall = 0x03 then switches (Syscall_Exit cpu a1 s)
      else if syscall = 0x04 then returns (Syscall_Spawn cpu stk a1 a2 s)
      else if syscall = 0x05 then returns (Syscall_Wait cpu a1 s)
      else if syscall = 0x08 then returns (Syscall_MMap cpu a1 a2 a3 s)
      else if syscall = 0x09 then returns (Syscall_MUnmap cpu a1 a2 s)
      else if syscall = 0x0A then returns (Syscall_MProtect a1 a2 a3 s)
      else if syscall = 0x10 then returns (Syscall_Read cpu stk a1 a2 a3 a4 s)
      else if syscall = 0x11 then returns (Syscall_Write cpu stk a1 a2 a3 a4 s)
      else if syscall = 0x12 then returns (Syscall_Flush cpu a1 s)
      else if syscall = 0x18 then returns (Syscall_Open cpu stk a1 a2 s)
      else if syscall = 0x19 then returns (Syscall_Close cpu a1 s)
      else if syscall = 0x1D then returns (Syscall_Stat stk a1 a2 s)
      else if syscall = 0x1E then returns (Syscall_ReadDir cpu stk a1 a2 a3 a4 s)
      else if syscall = 0x30 then returns (Syscall_ThreadCreate cpu a1 a2 s)
      else if syscall = 0x31 then returns (Syscall_GetTID cpu s)
      else if syscall = 0x32 then switches (Syscall_ThreadExit cpu a1 s)
      else if syscall = 0x33 then switches (Syscall_ThreadSleep cpu a1 s)
      else if syscall = 0x34 then Syscall_ThreadWait cpu a1 s
      else if syscall = 0x40 then returns (Syscall_NICStat a1 a2 s)
      else if syscall = 0x41 then returns (Syscall_NICSend stk a1 a2 s)
      else if syscall = 0x42 then returns (Syscall_NICRecv stk a1 a2 s)
      else if syscall = 0x80 then returns (Syscall_SysCtl stk a1 a2 a3 s)
      else if syscall = 0x81 then returns (Syscall_FSMount s)
      else if syscall = 0x82 then returns (Syscall_FSUnmount s)
      else if syscall = 0x83 then returns (Syscall_FSInfo s)
      else returns (Some (pack ENOSYS, s)))"

end
