(* ===== verification/Sleeping.thy ===== *)
theory Sleeping
  imports Syscall
begin

text \<open>
  Sleeping threads: \<^verbatim>\<open>Syscall_ThreadSleep\<close> and \<^verbatim>\<open>ThreadWakeupHelper\<close> of \<^verbatim>\<open>sys/kern/syscall.c\<close> as
  clients of the timer wheel of \<^verbatim>\<open>sys/kern/ktimer.c\<close>, on top of the scheduler.
\<close>

section \<open>Sleeping threads as clients of the timer\<close>

text \<open>
  The threads of the pending events \<open>E\<close> wait, each for its own event; the event has the
  references of the wheel and of the thread, and the reference to the thread that the event
  holds is not the last one.
\<close>

definition sleepers :: "nat set \<Rightarrow> u64 set \<Rightarrow> 'a kern_scheme \<Rightarrow> bool" where
  "sleepers C E s \<longleftrightarrow> sched_inv C s \<and> ticksPerSecond s \<noteq> 0 \<and>
     (\<forall>e \<in> E. te_cb (tevents s e) = ThreadWakeupHelperCB \<and> te_refCount (tevents s e) = 2 \<and>
        st s (te_arg (tevents s e)) = SCHED_STATE_WAITING \<and> timerEvt (thrs s (te_arg (tevents s e))) = e \<and>
        t_refCount (thrs s (te_arg (tevents s e))) \<notin> {0, 1})"

lemma Sched_SetRunnable_frame:
  assumes "Sched_SetRunnable t s = Some s'"
  shows "timerSlot s' = timerSlot s" "timerHead s' = timerHead s" "timerNow s' = timerNow s" "tevents s' = tevents s"
    "timerEvt (thrs s' x) = timerEvt (thrs s x)"
proof -
  have "timerSlot s' = timerSlot s \<and> timerHead s' = timerHead s \<and> timerNow s' = timerNow s \<and> tevents s' = tevents s \<and>
      timerEvt (thrs s' x) = timerEvt (thrs s x)"
    using assms by (auto simp: Sched_SetRunnable_def Let_def upd_thr_def upd_proc_def bind_eq_Some_conv split: if_splits)
  then show "timerSlot s' = timerSlot s" "timerHead s' = timerHead s" "timerNow s' = timerNow s" "tevents s' = tevents s"
    "timerEvt (thrs s' x) = timerEvt (thrs s x)" by blast+
qed

lemma ThreadWakeupHelper_view:
  assumes sl: "sleepers C E s" and e: "e \<in> E"
  defines "t \<equiv> te_arg (tevents s e)"
  obtains s' where "ThreadWakeupHelper t s = Some s'" "sched_inv C s'" "ticksPerSecond s' = ticksPerSecond s"
    "runnableQueue s' = runnableQueue s @ [t]" "st s' = (st s)(t := SCHED_STATE_RUNNABLE)"
    "timerSlot s' = timerSlot s" "timerHead s' = timerHead s" "timerNow s' = timerNow s"
    "tevents s' = (tevents s)(e := (tevents s e)\<lparr>te_refCount := 1\<rparr>)"
    "\<And>x. x \<noteq> t \<Longrightarrow> timerEvt (thrs s' x) = timerEvt (thrs s x) \<and> t_refCount (thrs s' x) = t_refCount (thrs s x)"
proof -
  have I: "sched_inv C s" "ticksPerSecond s \<noteq> 0" and t: "st s t = SCHED_STATE_WAITING" "timerEvt (thrs s t) = e"
      "t_refCount (thrs s t) \<notin> {0, 1}" and r: "te_refCount (tevents s e) = 2"
    using sl e by (auto simp: sleepers_def t_def)
  have t0: "t \<noteq> 0" using t(1) sched_invD(7) [OF I(1)] by auto
  obtain s1 where s1: "Sched_SetRunnable t s = Some s1" "sched_inv C s1" "runnableQueue s1 = runnableQueue s @ [t]"
      "st s1 = (st s)(t := SCHED_STATE_RUNNABLE)" "ticksPerSecond s1 = ticksPerSecond s"
      "\<And>x. t_refCount (thrs s1 x) = t_refCount (thrs s x)"
    by (rule Sched_SetRunnable_view [OF I(1) t0]) (use t I(2) in blast)+
  note f = Sched_SetRunnable_frame [OF s1(1)]
  let ?s2 = "s1\<lparr>tevents := (tevents s1)(e := (tevents s1 e)\<lparr>te_refCount := 1\<rparr>)\<rparr>"
  let ?s3 = "upd_thr t (timerEvt_update (\<lambda>_. 0)) ?s2"
  let ?s' = "upd_thr t (t_refCount_update (\<lambda>c. c - 1)) ?s3"
  have "KTimer_Release (timerEvt (thrs s1 t)) s1 = Some ?s2" using f(4,5) t(2) r by (simp add: KTimer_Release_def Let_def)
  moreover have "Thread_Release t ?s3 = Some ?s'" using t(3) s1(6) by (intro Thread_Release_keep) simp
  ultimately have "ThreadWakeupHelper t s = Some ?s'" using s1(1) by (simp add: ThreadWakeupHelper_def)
  moreover have st: "st ?s' = st s1" by (simp add: st_def fun_eq_iff)
  moreover have "sched_inv C ?s'" using s1(2) sched_inv_cong [of ?s' s1, OF _ _ _ st] by simp
  ultimately show thesis using that [of ?s'] s1 f by (simp add: upd_thr_def)
qed

interpretation sleeping: timer_client timer_callback "sleepers C" runnableQueue for C
proof
  fix E :: "u64 set" and s :: "'a kern_scheme" and h n w l t
  show "runnableQueue (timer_upd h n w l t s) = runnableQueue s" by (simp add: timer_upd_def)
  have same: "sched_inv C (timer_upd h n w l t s) = sched_inv C s" "st (timer_upd h n w l t s) = st s"
    by (simp_all add: sched_inv_def st_def timer_upd_def fun_eq_iff)
  assume "sleepers C E s" and "\<And>e. e \<in> E \<Longrightarrow> t e = tevents s e"
  then show "sleepers C E (timer_upd h n w l t s)"
    unfolding sleepers_def same by (simp add: timer_upd_def)
next
  fix E :: "u64 set" and s :: "'a kern_scheme" and e
  assume sl: "sleepers C E s" and e: "e \<in> E"
  let ?t = "te_arg (tevents s e)"
  obtain s' where s': "ThreadWakeupHelper ?t s = Some s'" "sched_inv C s'" "ticksPerSecond s' = ticksPerSecond s"
    "runnableQueue s' = runnableQueue s @ [?t]" "st s' = (st s)(?t := SCHED_STATE_RUNNABLE)"
    "timerSlot s' = timerSlot s" "timerHead s' = timerHead s" "timerNow s' = timerNow s"
    "tevents s' = (tevents s)(e := (tevents s e)\<lparr>te_refCount := 1\<rparr>)"
    "\<And>x. x \<noteq> ?t \<Longrightarrow> timerEvt (thrs s' x) = timerEvt (thrs s x) \<and> t_refCount (thrs s' x) = t_refCount (thrs s x)"
    by (rule ThreadWakeupHelper_view [OF sl e]) blast
  have evt: "timerEvt (thrs s (te_arg (tevents s x))) = x" if "x \<in> E" for x using sl that by (simp add: sleepers_def)
  have ne: "te_arg (tevents s x) \<noteq> ?t" if "x \<in> E - {e}" for x using evt [of x] evt [OF e] that by auto
  have "sleepers C (E - {e}) s'"
    unfolding sleepers_def using sl s'(2,3,5,9,10) ne by (auto simp: sleepers_def)
  moreover have "te_cb (tevents s e) = ThreadWakeupHelperCB" using sl e by (simp add: sleepers_def)
  ultimately show "\<exists>s'. timer_callback (te_cb (tevents s e)) ?t s = Some s' \<and> sleepers C (E - {e}) s' \<and>
      timerSlot s' = timerSlot s \<and> timerHead s' = timerHead s \<and> timerNow s' = timerNow s \<and>
      (\<forall>x \<in> E - {e}. tevents s' x = tevents s x) \<and> te_refCount (tevents s' e) \<noteq> 0 \<and> runnableQueue s' = runnableQueue s @ [?t]"
    using s' by simp
qed

text \<open>What the scheduler leaves alone of the timer.\<close>

definition timer_eq :: "'a kern_scheme \<Rightarrow> 'a kern_scheme \<Rightarrow> bool" where
  "timer_eq s' s \<longleftrightarrow> timerSlot s' = timerSlot s \<and> timerHead s' = timerHead s \<and> timerNow s' = timerNow s \<and>
     tevents s' = tevents s \<and> timerSlab s' = timerSlab s \<and> (\<forall>x. timerEvt (thrs s' x) = timerEvt (thrs s x))"

lemma wheel_timer_eq: "timer_eq s' s \<Longrightarrow> wheel E s' = wheel E s"
  by (simp add: timer_eq_def wheel_def)

lemma Sched_SetWaiting_timer: "Sched_SetWaiting t s = Some s' \<Longrightarrow> timer_eq s' s"
  by (auto simp: Sched_SetWaiting_def bind_eq_Some_conv upd_thr_def timer_eq_def)

lemma Sched_Switch_timer: "timer_eq (Sched_Switch c a b s) s"
  by (simp add: Sched_Switch_def Thread_SwitchArch_def switchstack_def PMap_LoadAS_def Let_def timer_eq_def upd_thr_def)

lemma Sched_Scheduler_timer:
  assumes "Sched_Scheduler c s = Some s'"
  shows "timer_eq s' s"
proof (cases "runnableQueue s")
  case Nil
  with assms show ?thesis by (auto simp: Sched_Scheduler_def timer_eq_def)
next
  case (Cons nxt rest)
  with assms obtain s1 where "s' = Sched_Switch c (curProc s c) nxt s1" "timer_eq s1 s"
    by (auto simp: Sched_Scheduler_def Let_def timer_eq_def upd_thr_def split: if_splits)
  then show ?thesis using Sched_Switch_timer [of c "curProc s c" nxt s1] by (simp add: timer_eq_def)
qed

lemma Syscall_ThreadSleep_view:
  assumes w: "wheel E s" and sl: "sleepers C E s" and c: "c \<in> C" and q: "runnableQueue s \<noteq> []"
    and t: "timeout \<noteq> 0" "unat (timerNow s) + unat timeout < 2 ^ 63"
    and free: "freeObjs (timerSlab s) \<noteq> 0" "slabFree (timerSlab s) = evt # es" "evt \<notin> E"
    and r: "t_refCount (thrs s (curProc s c)) \<notin> {0, - 1, - 2}"
  obtains s' where "Syscall_ThreadSleep c timeout s = Some s'" "wheel (insert evt E) s'" "sleepers C (insert evt E) s'"
    "timerNow s' = timerNow s" "te_timeout (tevents s' evt) = timerNow s + timeout" "te_arg (tevents s' evt) = curProc s c"
proof -
  let ?p = "curProc s c"
  have I: "sched_inv C s" "ticksPerSecond s \<noteq> 0" using sl by (auto simp: sleepers_def)
  note p = sched_inv_current [OF I(1) c]
  let ?s2 = "upd_thr ?p (t_refCount_update ((\<lambda>c. c + 1) \<circ> (\<lambda>c. c + 1))) s"
  have r2: "t_refCount (thrs s ?p) + 1 \<noteq> 0" "t_refCount (thrs s ?p) + 2 \<notin> {0, 1}"
    using r by (auto simp: eq_neg_iff_add_eq_0) (metis add.commute add_diff_cancel_left' diff_eq_eq one_add_one)
  have s2: "Sched_Current c s \<bind> (\<lambda>(cur, s). Thread_Retain cur s \<bind> (\<lambda>s. Some (cur, s))) = Some (?p, ?s2)"
    using p(2) r r2 by (simp add: Sched_Current_def Thread_Retain_def Let_def upd_thr_def)
  let ?te = "(tevents s)(evt := \<lparr>te_refCount = 2, te_timeout = timerNow s + timeout, te_cb = ThreadWakeupHelperCB, te_arg = ?p\<rparr>)"
  have w2: "wheel E ?s2" and f2: "timerNow ?s2 = timerNow s" "timerHead ?s2 = timerHead s" "timerSlab ?s2 = timerSlab s" "tevents ?s2 = tevents s"
    using w by (simp_all add: wheel_def upd_thr_def)
  obtain w' l where k: "KTimer_Create timeout ThreadWakeupHelperCB ?p ?s2 = Some (evt, timer_upd (timerHead s) (timerNow s) w' l ?te ?s2)"
      "wheel (insert evt E) (timer_upd (timerHead s) (timerNow s) w' l ?te ?s2)"
    by (rule KTimer_Create_wheel [OF w2 free(3) t(1), of es ThreadWakeupHelperCB ?p]) (use t(2) free f2 in auto)
  let ?s3 = "timer_upd (timerHead s) (timerNow s) w' l ?te ?s2"
  let ?s4 = "upd_thr ?p (timerEvt_update (\<lambda>_. evt)) ?s3"
  have v4: "curProc ?s4 = curProc s" "runnableQueue ?s4 = runnableQueue s" "waitQueue ?s4 = waitQueue s" "st ?s4 = st s"
      "ticksPerSecond ?s4 = ticksPerSecond s" "linked ?p ?s4 = linked ?p s" "tevents ?s4 = ?te" "timerNow ?s4 = timerNow s"
      "\<And>x. t_refCount (thrs ?s4 x) = t_refCount (thrs s x) + (if x = ?p then 2 else 0)"
      "\<And>x. timerEvt (thrs ?s4 x) = (if x = ?p then evt else timerEvt (thrs s x))"
    by (simp_all add: timer_upd_def upd_thr_def st_def linked_def fun_eq_iff)
  obtain s5 where s5: "Sched_SetWaiting ?p ?s4 = Some s5" "curProc s5 = curProc ?s4" "runnableQueue s5 = runnableQueue ?s4"
    "waitQueue s5 = waitQueue ?s4 @ [?p]" "st s5 = (st ?s4)(?p := SCHED_STATE_WAITING)" "ticksPerSecond s5 = ticksPerSecond ?s4"
    "\<And>x. t_refCount (thrs s5 x) = t_refCount (thrs ?s4 x)"
    by (rule Sched_SetWaiting_view [of ?s4 ?p]) (use p I(2) v4 in \<open>simp_all only: simp_thms\<close>)
  have "sched_left C c s5"
    by (rule sched_left_intro [OF I(1) c, where x = SCHED_STATE_WAITING]) (simp_all add: s5 v4 del: upd_simps)
  then obtain s6 where s6: "Sched_Scheduler c s5 = Some s6" "sched_inv C s6"
    using Sched_Scheduler_left [of C c s5] s5(3) q v4(2) by auto
  have tq: "timer_eq s6 ?s4" using Sched_SetWaiting_timer [OF s5(1)] Sched_Scheduler_timer [OF s6(1)] by (simp add: timer_eq_def)
  note f = Sched_Scheduler_frame [OF s6(1)]
  have wait: "st s6 x = SCHED_STATE_WAITING \<longleftrightarrow> x = ?p \<or> st s x = SCHED_STATE_WAITING" for x
    using sched_invD(5) [OF s6(2), of x] sched_invD(5) [OF I(1), of x] f(4) s5(4) v4(3) by auto
  have te: "tevents s6 = ?te" "timerNow s6 = timerNow s" using tq v4(7,8) by (auto simp: timer_eq_def)
  have evt6: "timerEvt (thrs s6 x) = (if x = ?p then evt else timerEvt (thrs s x))" for x using tq v4(10) [of x] by (simp add: timer_eq_def)
  have ref: "t_refCount (thrs s6 x) = t_refCount (thrs s x) + (if x = ?p then 2 else 0)" for x
    using f(5) [of x] s5(7) [of x] v4(9) [of x] by simp
  have old: "te_arg (tevents s e) \<noteq> ?p" if "e \<in> E" for e using sl that p(1) by (auto simp: sleepers_def)
  have "sleepers C (insert evt E) s6"
    unfolding sleepers_def te evt6 ref wait
    using s6(2) f(3) s5(6) v4(5) I(2) r2(2) old sl free(3) by (auto simp: sleepers_def)
  moreover have "wheel (insert evt E) s6"
    using k(2) wheel_timer_eq [OF tq] by (simp add: wheel_def upd_thr_def)
  moreover have "Syscall_ThreadSleep c timeout s = Some s6"
    using s2 k(1) s5(1) s6(1) t(1) by (auto simp: Syscall_ThreadSleep_def bind_eq_Some_conv simp del: upd_simps)
  ultimately show thesis using that [of s6] te by simp
qed

section \<open>Properties of timers\<close>

text \<open>
  C12. The timer wheel delivers every event in time.  When the timer is processed on CPU 0 while
  threads sleep, the loop over the wheel ends, whatever number of seconds has passed, and the
  threads whose time has come, and only these, are made runnable, each once; the wheel then
  holds the remaining events in the right slots and its clock shows the current time.
\<close>

theorem timer_process_due:
  fixes s :: "'a kern_scheme"
  assumes w: "wheel E s" and sl: "sleepers C E s" and now: "KTime_GetEpoch s = Some now" "timerNow s \<le> now"
  shows "\<exists>s' L. KTimer_Process timer_callback 0 s = Some s' \<and> timerNow s' = now \<and>
     distinct L \<and> set L = {e \<in> E. te_timeout (tevents s e) \<le> now} \<and>
     runnableQueue s' = runnableQueue s @ map (\<lambda>e. te_arg (tevents s e)) L \<and>
     wheel (E - set L) s' \<and> sleepers C (E - set L) s'"
  using sleeping.loop [OF w sl now(2)] now(1) by (auto simp: KTimer_Process_def)

text \<open>The example has the events 0x700 and 0x710 for the threads 0x300 and 0x400, due after 3 and after 300 seconds.\<close>

definition sleeping_state :: kern where
  "sleeping_state = (kern_state [0x500])\<lparr>waitQueue := [0x300, 0x400],
     thrs := (\<lambda>a. if a = 0x300 then Thread_zero\<lparr>t_schedState := SCHED_STATE_WAITING, t_refCount := 2, timerEvt := 0x700\<rparr>
       else if a = 0x400 then Thread_zero\<lparr>t_schedState := SCHED_STATE_WAITING, t_refCount := 2, timerEvt := 0x710\<rparr>
       else thrs (kern_state [0x500]) a),
     timerHead := 0, timerNow := 1000, timerSlab := slab_example, timerSlot := (\<lambda>_. [])(2 := [0x700], 43 := [0x710]),
     tevents := (\<lambda>e. \<lparr>te_refCount = 2, te_timeout = if e = 0x700 then 1003 else 1300, te_cb = ThreadWakeupHelperCB,
       te_arg = if e = 0x700 then 0x300 else 0x400\<rparr>),
     ktimeLastEpoch := 1010, ktimeLastTSC := tsc (kern_state [0x500])\<rparr>"

lemma sleeping_state_ok: "wheel {0x700, 0x710} sleeping_state" "sleepers {0, 1} {0x700, 0x710} sleeping_state"
  "KTime_GetEpoch sleeping_state = Some 1010"
proof -
  have "set (timerSlot sleeping_state i) = (if i = 2 then {0x700} else if i = 43 then {0x710} else {})" for i
    by (simp add: sleeping_state_def)
  then have u: "(\<Union>i < TIMER_WHEEL_LENGTH. set (timerSlot sleeping_state i)) = {0x700, 0x710}"
    by (auto simp: TIMER_WHEEL_LENGTH_def split: if_splits intro: bexI [of _ 2])
  have v: "timerHead sleeping_state = 0" "timerNow sleeping_state = 1000" "timerSlot sleeping_state = (\<lambda>_. [])(2 := [0x700], 43 := [0x710])"
    "te_timeout (tevents sleeping_state 0x700) = 1003" "te_timeout (tevents sleeping_state 0x710) = 1300"
    by (simp_all add: sleeping_state_def)
  show "wheel {0x700, 0x710} sleeping_state"
    unfolding wheel_def u v(1,2) by (simp add: v(3-5) TIMER_WHEEL_LENGTH_def wheel_pos_def)
  show "sleepers {0, 1} {0x700, 0x710} sleeping_state"
    by (auto simp: sleepers_def sleeping_state_def sched_inv_def st_def Thread_zero_def)
  show "KTime_GetEpoch sleeping_state = Some 1010" by (simp add: KTime_GetEpoch_def sleeping_state_def)
qed

lemma distinct_set_single: "distinct L \<Longrightarrow> set L = {a} \<Longrightarrow> L = [a]"
  by (cases L; cases "tl L") auto

theorem timer_process_due_witness:
  "\<exists>s'. KTimer_Process timer_callback 0 sleeping_state = Some s' \<and> timerNow s' = 1010 \<and> runnableQueue s' = [0x500, 0x300] \<and>
     sleepers {0, 1} {0x710} s'"
proof -
  have n: "timerNow sleeping_state \<le> 1010" by (simp add: sleeping_state_def)
  have d: "{e \<in> {0x700, 0x710}. te_timeout (tevents sleeping_state e) \<le> 1010} = {0x700}"
    by (auto simp: sleeping_state_def)
  have v: "te_arg (tevents sleeping_state 0x700) = 0x300" "runnableQueue sleeping_state = [0x500]" by (simp_all add: sleeping_state_def)
  from timer_process_due [OF sleeping_state_ok n] obtain s' L where s': "KTimer_Process timer_callback 0 sleeping_state = Some s'"
    "timerNow s' = 1010" "distinct L" "set L = {0x700}" "runnableQueue s' = [0x500] @ map (\<lambda>e. te_arg (tevents sleeping_state e)) L"
    "sleepers {0, 1} ({0x700, 0x710} - set L) s'" unfolding d v by auto
  from s'(3,4) have "L = [0x700]" by (rule distinct_set_single)
  moreover have "{0x700, 0x710} - {0x700 :: u64} = {0x710}" by auto
  ultimately show ?thesis using s' v by simp
qed

text \<open>
  C4. A sleeping thread is woken at its time and not earlier.  A thread that calls
  \<^verbatim>\<open>Syscall_ThreadSleep\<close> for \<open>timeout\<close> seconds is queued in the timer wheel and its CPU switches to
  another thread.  Whenever the timer is processed after that, at any second \<open>now\<close>, processing
  ends, and the thread is runnable if \<open>timeout\<close> seconds have passed and waits otherwise.
\<close>

theorem thread_sleep_wakes:
  fixes s :: "'a kern_scheme"
  assumes w: "wheel E s" and sl: "sleepers C E s" and c: "c \<in> C" and q: "runnableQueue s \<noteq> []"
    and t: "timeout \<noteq> 0" "unat (timerNow s) + unat timeout < 2 ^ 63"
    and free: "freeObjs (timerSlab s) \<noteq> 0" "slabFree (timerSlab s) = evt # es" "evt \<notin> E"
    and r: "t_refCount (thrs s (curProc s c)) \<notin> {0, - 1, - 2}" and now: "timerNow s \<le> now"
  shows "\<exists>s1 s2. Syscall_ThreadSleep c timeout s = Some s1 \<and> KTimer_loop timer_callback now s1 = Some s2 \<and>
     st s2 (curProc s c) = (if timerNow s + timeout \<le> now then SCHED_STATE_RUNNABLE else SCHED_STATE_WAITING)"
proof -
  obtain s1 where s1: "Syscall_ThreadSleep c timeout s = Some s1" "wheel (insert evt E) s1" "sleepers C (insert evt E) s1"
    "timerNow s1 = timerNow s" "te_timeout (tevents s1 evt) = timerNow s + timeout" "te_arg (tevents s1 evt) = curProc s c"
    by (rule Syscall_ThreadSleep_view [OF w sl c q t free r]) blast
  obtain s2 L where s2: "KTimer_loop timer_callback now s1 = Some s2" "set L = {e \<in> insert evt E. te_timeout (tevents s1 e) \<le> now}"
    "sleepers C (insert evt E - set L) s2" "\<forall>e \<in> insert evt E - set L. tevents s2 e = tevents s1 e" "runnableQueue s2 = runnableQueue s1 @ map (\<lambda>e. te_arg (tevents s1 e)) L"
    using sleeping.loop [OF s1(2,3), of now] now s1(4) by auto
  have "st s2 (curProc s c) = (if timerNow s + timeout \<le> now then SCHED_STATE_RUNNABLE else SCHED_STATE_WAITING)"
  proof (cases "timerNow s + timeout \<le> now")
    case True
    then have "evt \<in> set L" using s2(2) s1(5) by simp
    then have "curProc s c \<in> set (runnableQueue s2)" unfolding s2(5) using s1(6) by force
    then show ?thesis using True sched_invD(4) [of C s2 "curProc s c"] s2(3) by (simp add: sleepers_def)
  next
    case False
    then have e: "evt \<in> insert evt E - set L" using s2(2) s1(5) by simp
    then have "st s2 (te_arg (tevents s2 evt)) = SCHED_STATE_WAITING" using s2(3) unfolding sleepers_def by blast
    then show ?thesis using False s2(4) [rule_format, OF e] s1(6) by simp
  qed
  then show ?thesis using s1(1) s2(1) by blast
qed

theorem thread_sleep_wakes_witness:
  "(\<exists>s1 s2. Syscall_ThreadSleep 0 5 sleeping_state = Some s1 \<and> KTimer_loop timer_callback 1005 s1 = Some s2 \<and>
     st s2 0x100 = SCHED_STATE_RUNNABLE) \<and>
   (\<exists>s1 s2. Syscall_ThreadSleep 0 5 sleeping_state = Some s1 \<and> KTimer_loop timer_callback 1004 s1 = Some s2 \<and>
     st s2 0x100 = SCHED_STATE_WAITING)"
proof -
  have v: "curProc sleeping_state 0 = 0x100" "timerNow sleeping_state = 1000" "runnableQueue sleeping_state \<noteq> []"
    "t_refCount (thrs sleeping_state 0x100) = 1" "timerSlab sleeping_state = slab_example"
    by (simp_all add: sleeping_state_def)
  note wakes = thread_sleep_wakes [OF sleeping_state_ok(1,2), of 0 5 "0xFFFF810000000060" "[0xFFFF810000000030, 0xFFFF810000000000]"]
  show ?thesis using wakes [of 1005] wakes [of 1004] by (simp add: v slab_example_def)
qed

end
