(* ===== verification/HandleTable.thy ===== *)
theory HandleTable
  imports ProcThread
begin

text \<open>
  The handle tables of \<^verbatim>\<open>sys/kern/handle.c\<close> implement a map from descriptors to handles.
\<close>

section \<open>The handle table as a map\<close>

text \<open>
  A table \<open>T\<close> of handles with descriptors \<open>F\<close> is sound when each handle is in the slot of its
  descriptor, descriptors are below the next one \<open>n\<close> to be given out, and no two handles have
  the same descriptor.
\<close>

definition table_ok :: "(nat \<Rightarrow> u64 list) \<Rightarrow> (u64 \<Rightarrow> u64) \<Rightarrow> u64 \<Rightarrow> bool" where
  "table_ok T F n \<longleftrightarrow>
     (\<forall>i < PROCESS_HANDLE_SLOTS. distinct (T i) \<and> inj_on F (set (T i)) \<and>
        (\<forall>h \<in> set (T i). fd_slot (F h) = i \<and> F h < n))"

definition table_find :: "(nat \<Rightarrow> u64 list) \<Rightarrow> (u64 \<Rightarrow> u64) \<Rightarrow> u64 \<rightharpoonup> u64" where
  "table_find T F fd = List.find (\<lambda>h. F h = fd) (T (fd_slot fd))"

lemma fd_slot_less [simp]: "fd_slot fd < PROCESS_HANDLE_SLOTS"
  by (simp add: fd_slot_def PROCESS_HANDLE_SLOTS_def)

lemma table_okD:
  assumes "table_ok T F n" and "i < PROCESS_HANDLE_SLOTS" and "h \<in> set (T i)"
  shows "fd_slot (F h) = i" and "F h < n"
  using assms by (auto simp: table_ok_def)

lemma table_find_iff:
  assumes "table_ok T F n"
  shows "table_find T F fd = Some h \<longleftrightarrow> h \<in> set (T (fd_slot fd)) \<and> F h = fd"
proof -
  have inj: "inj_on F (set (T (fd_slot fd)))" using assms by (simp add: table_ok_def)
  show ?thesis
  proof
    assume "table_find T F fd = Some h"
    then show "h \<in> set (T (fd_slot fd)) \<and> F h = fd" by (auto simp: table_find_def find_Some_iff)
  next
    assume h: "h \<in> set (T (fd_slot fd)) \<and> F h = fd"
    then obtain h' where h': "table_find T F fd = Some h'"
      by (cases "table_find T F fd") (auto simp: table_find_def find_None_iff)
    then have "h' \<in> set (T (fd_slot fd)) \<and> F h' = fd" by (auto simp: table_find_def find_Some_iff)
    with h have "h' = h" using inj by (auto dest: inj_onD)
    with h' show "table_find T F fd = Some h" by simp
  qed
qed

lemma table_find_eqI:
  assumes "table_ok T F n" and "\<And>h. (h \<in> set (T (fd_slot fd)) \<and> F h = fd) \<longleftrightarrow> r = Some h"
  shows "table_find T F fd = r"
  using table_find_iff [OF assms(1), of fd] assms(2) by (metis not_Some_eq)

lemma table_find_fresh: "table_ok T F n \<Longrightarrow> table_find T F n = None"
  by (rule table_find_eqI) (auto dest: table_okD(2) [OF _ fd_slot_less])

lemma less_Suc_word:
  fixes b :: u64
  assumes "b \<noteq> - 1"
  shows "b < b + 1"
proof -
  have "unat b < 2 ^ 64" using unsigned_less [of b] by simp
  moreover have "unat b \<noteq> 2 ^ 64 - 1" using assms by (simp add: word_unat_eq_iff unsigned_minus_1_eq_mask mask_eq_exp_minus_1)
  ultimately show ?thesis by (simp add: word_less_nat_alt unat_word_ariths)
qed

lemma table_add:
  assumes ok: "table_ok T F n" and h: "\<forall>i < PROCESS_HANDLE_SLOTS. h \<notin> set (T i)" and n: "n \<noteq> - 1"
  shows "table_ok (T(fd_slot n := h # T (fd_slot n))) (F(h := n)) (n + 1)"
    and "table_find (T(fd_slot n := h # T (fd_slot n))) (F(h := n)) = (table_find T F)(n \<mapsto> h)"
proof -
  have lt: "F x < n" "fd_slot (F x) = i" if "i < PROCESS_HANDLE_SLOTS" "x \<in> set (T i)" for i x
    using table_okD [OF ok that] by auto
  have old: "(F(h := n)) x = F x" if "i < PROCESS_HANDLE_SLOTS" "x \<in> set (T i)" for i x
    using h that by auto
  have inj: "inj_on (F(h := n)) (set (T i))" if "i < PROCESS_HANDLE_SLOTS" for i
    using ok that old [OF that] by (auto simp: table_ok_def inj_on_def)
  have ne: "n \<notin> (F(h := n)) ` (set (T i) - {h})" if "i < PROCESS_HANDLE_SLOTS" for i
    using lt(1) [OF that] by (auto split: if_splits)
  have le: "F x < n + 1" if "i < PROCESS_HANDLE_SLOTS" "x \<in> set (T i)" for i x
    using lt(1) [OF that] less_Suc_word [OF n] by (rule less_trans)
  show t: "table_ok (T(fd_slot n := h # T (fd_slot n))) (F(h := n)) (n + 1)"
    unfolding table_ok_def
  proof (intro allI impI)
    fix i assume i: "i < PROCESS_HANDLE_SLOTS"
    have d: "distinct (T i)" "h \<notin> set (T i)" using ok h i by (auto simp: table_ok_def)
    have e: "\<forall>x \<in> set (T i). fd_slot ((F(h := n)) x) = i \<and> (F(h := n)) x < n + 1"
      using old [OF i] lt(2) [OF i] le [OF i] by simp
    show "distinct ((T(fd_slot n := h # T (fd_slot n))) i) \<and> inj_on (F(h := n)) (set ((T(fd_slot n := h # T (fd_slot n))) i)) \<and>
        (\<forall>x \<in> set ((T(fd_slot n := h # T (fd_slot n))) i). fd_slot ((F(h := n)) x) = i \<and> (F(h := n)) x < n + 1)"
    proof (cases "i = fd_slot n")
      case True
      then show ?thesis using d e inj [OF i] ne [OF i] less_Suc_word [OF n] by (simp del: fun_upd_apply) simp
    next
      case False
      then show ?thesis using d e inj [OF i] by simp
    qed
  qed
  show "table_find (T(fd_slot n := h # T (fd_slot n))) (F(h := n)) = (table_find T F)(n \<mapsto> h)"
  proof
    fix fd
    show "table_find (T(fd_slot n := h # T (fd_slot n))) (F(h := n)) fd = ((table_find T F)(n \<mapsto> h)) fd"
    proof (rule table_find_eqI [OF t])
      fix x
      have hT: "h \<notin> set (T (fd_slot fd))" using h by simp
      have nl: "x \<in> set (T (fd_slot fd)) \<Longrightarrow> F x \<noteq> n" using lt(1) [OF fd_slot_less, of x] by auto
      show "(x \<in> set ((T(fd_slot n := h # T (fd_slot n))) (fd_slot fd)) \<and> (F(h := n)) x = fd) = (((table_find T F)(n \<mapsto> h)) fd = Some x)"
        using hT nl table_find_iff [OF ok, of fd x] by auto
    qed
  qed
qed

lemma table_remove:
  assumes ok: "table_ok T F n" and i: "i < PROCESS_HANDLE_SLOTS" and h: "h \<in> set (T i)"
  shows "table_ok (T(i := remove1 h (T i))) F n"
    and "table_find (T(i := remove1 h (T i))) F = (\<lambda>fd. if table_find T F fd = Some h then None else table_find T F fd)"
proof -
  have d: "distinct (T i)" using ok i by (simp add: table_ok_def)
  have other: "h \<notin> set (T j)" if "j < PROCESS_HANDLE_SLOTS" "j \<noteq> i" for j
    using table_okD(1) [OF ok i h] table_okD(1) [OF ok that(1), of h] that(2) by auto
  have sub: "set ((T(i := remove1 h (T i))) j) = set (T j) - {h}" if "j < PROCESS_HANDLE_SLOTS" for j
    using d other [OF that] by (cases "j = i") simp_all
  show t: "table_ok (T(i := remove1 h (T i))) F n"
    unfolding table_ok_def
  proof (intro allI impI)
    fix j assume j: "j < PROCESS_HANDLE_SLOTS"
    show "distinct ((T(i := remove1 h (T i))) j) \<and> inj_on F (set ((T(i := remove1 h (T i))) j)) \<and>
        (\<forall>x \<in> set ((T(i := remove1 h (T i))) j). fd_slot (F x) = j \<and> F x < n)"
      unfolding sub [OF j] using ok j by (auto simp: table_ok_def inj_on_diff distinct_remove1)
  qed
  show "table_find (T(i := remove1 h (T i))) F = (\<lambda>fd. if table_find T F fd = Some h then None else table_find T F fd)"
  proof
    fix fd
    show "table_find (T(i := remove1 h (T i))) F fd = (if table_find T F fd = Some h then None else table_find T F fd)"
    proof (rule table_find_eqI [OF t])
      fix x
      have "x \<in> set ((T(i := remove1 h (T i))) (fd_slot fd)) \<and> F x = fd \<longleftrightarrow> table_find T F fd = Some x \<and> x \<noteq> h"
        unfolding sub [OF fd_slot_less] table_find_iff [OF ok] by blast
      then show "(x \<in> set ((T(i := remove1 h (T i))) (fd_slot fd)) \<and> F x = fd) =
          ((if table_find T F fd = Some h then None else table_find T F fd) = Some x)" by auto
    qed
  qed
qed

text \<open>The operations of the handle table, and what they do to the map from descriptors to handles.\<close>

definition handle_inv :: "u64 \<Rightarrow> 'a kern_scheme \<Rightarrow> bool" where
  "handle_inv p s \<longleftrightarrow> table_ok (p_handles (procs s p)) (\<lambda>h. h_fd (hdls s h)) (nextFD (procs s p))"

definition in_table :: "u64 \<Rightarrow> u64 \<Rightarrow> 'a kern_scheme \<Rightarrow> bool" where
  "in_table h p s \<longleftrightarrow> (\<exists>i < PROCESS_HANDLE_SLOTS. h \<in> set (p_handles (procs s p) i))"

datatype handle_op = AddHandle u64 | RemoveHandle u64

fun handle_step :: "u64 \<Rightarrow> handle_op \<Rightarrow> 'a kern_scheme \<Rightarrow> 'a kern_scheme option" where
  "handle_step p (AddHandle h) s = map_option snd (Handle_Add p h s)"
| "handle_step p (RemoveHandle h) s = Handle_Remove p h s"

fun handle_ok :: "u64 \<Rightarrow> handle_op \<Rightarrow> 'a kern_scheme \<Rightarrow> bool" where
  "handle_ok p (AddHandle h) s \<longleftrightarrow> h \<noteq> 0 \<and> \<not> in_table h p s \<and> nextFD (procs s p) \<noteq> - 1"
| "handle_ok p (RemoveHandle h) s \<longleftrightarrow> in_table h p s"

definition handle_abs :: "u64 \<Rightarrow> 'a kern_scheme \<Rightarrow> (u64 \<rightharpoonup> u64) \<times> u64" where
  "handle_abs p s = (\<lambda>fd. Handle_Lookup p fd s, nextFD (procs s p))"

fun handle_astep :: "handle_op \<Rightarrow> (u64 \<rightharpoonup> u64) \<times> u64 \<Rightarrow> (u64 \<rightharpoonup> u64) \<times> u64" where
  "handle_astep (AddHandle h) (m, n) = (m(n \<mapsto> h), n + 1)"
| "handle_astep (RemoveHandle h) (m, n) = (\<lambda>fd. if m fd = Some h then None else m fd, n)"

lemma Handle_Lookup_find:
  "Handle_Lookup p fd s = table_find (p_handles (procs s p)) (\<lambda>h. h_fd (hdls s h)) fd"
  by (simp add: Handle_Lookup_def table_find_def)

lemma Handle_Add_sim:
  assumes i: "handle_inv p s" and ok: "handle_ok p (AddHandle h) s"
  obtains s' where "Handle_Add p h s = Some (nextFD (procs s p), s')" and "handle_inv p s'"
    and "handle_abs p s' = handle_astep (AddHandle h) (handle_abs p s)"
proof -
  let ?fd = "nextFD (procs s p)"
  obtain s' where a: "Handle_Add p h s = Some (?fd, s')"
    and tab: "p_handles (procs s' p) = (p_handles (procs s p))(fd_slot ?fd := h # p_handles (procs s p) (fd_slot ?fd))"
    and nx: "nextFD (procs s' p) = ?fd + 1" and hd: "(\<lambda>h. h_fd (hdls s' h)) = (\<lambda>h. h_fd (hdls s h))(h := ?fd)"
    using ok by (auto simp: Handle_Add_def Let_def upd_proc_def fun_eq_iff)
  have h: "\<forall>i < PROCESS_HANDLE_SLOTS. h \<notin> set (p_handles (procs s p) i)" and n: "?fd \<noteq> - 1"
    using ok by (auto simp: in_table_def)
  note add = table_add [OF i [unfolded handle_inv_def] h n]
  have "handle_inv p s'" unfolding handle_inv_def tab nx hd by (rule add)
  moreover have "handle_abs p s' = handle_astep (AddHandle h) (handle_abs p s)"
    unfolding handle_abs_def Handle_Lookup_find tab nx hd add(2) by (simp add: fun_eq_iff)
  ultimately show thesis using that a by blast
qed

lemma Handle_Remove_sim:
  assumes i: "handle_inv p s" and ok: "in_table h p s"
  obtains s' where "Handle_Remove p h s = Some s'" and "handle_inv p s'"
    and "handle_abs p s' = handle_astep (RemoveHandle h) (handle_abs p s)"
proof -
  let ?T = "p_handles (procs s p)" and ?j = "fd_slot (h_fd (hdls s h))"
  note inv = i [unfolded handle_inv_def]
  have j: "h \<in> set (?T ?j)" using ok table_okD(1) [OF inv] by (auto simp: in_table_def)
  obtain s' where a: "Handle_Remove p h s = Some s'"
    and tab: "p_handles (procs s' p) = ?T(?j := remove1 h (?T ?j))"
    and nx: "nextFD (procs s' p) = nextFD (procs s p)" and hd: "hdls s' = hdls s"
    using j by (auto simp: Handle_Remove_def Let_def upd_proc_def unlink_Some)
  note rem = table_remove [OF inv fd_slot_less j]
  have "handle_inv p s'" unfolding handle_inv_def tab nx hd by (rule rem)
  moreover have "handle_abs p s' = handle_astep (RemoveHandle h) (handle_abs p s)"
    unfolding handle_abs_def Handle_Lookup_find tab nx hd rem(2) by simp
  ultimately show thesis using that a by blast
qed

interpretation handles: simulation "handle_step p" "handle_ok p" "handle_inv p" "handle_abs p" handle_astep for p
proof
  fix s :: "'a kern_scheme" and x
  assume i: "handle_inv p s" and ok: "handle_ok p x s"
  show "\<exists>s'. handle_step p x s = Some s' \<and> handle_inv p s' \<and> handle_abs p s' = handle_astep x (handle_abs p s)"
  proof (cases x)
    case (AddHandle h)
    obtain s' where "Handle_Add p h s = Some (nextFD (procs s p), s')" "handle_inv p s'"
      "handle_abs p s' = handle_astep (AddHandle h) (handle_abs p s)"
      by (rule Handle_Add_sim [OF i]) (use ok AddHandle in blast)+
    then show ?thesis unfolding AddHandle by simp
  next
    case (RemoveHandle h)
    obtain s' where "Handle_Remove p h s = Some s'" "handle_inv p s'"
      "handle_abs p s' = handle_astep (RemoveHandle h) (handle_abs p s)"
      by (rule Handle_Remove_sim [OF i, of h]) (use ok RemoveHandle in auto)
    then show ?thesis unfolding RemoveHandle by simp
  qed
qed

section \<open>Properties of handle tables\<close>

text \<open>
  C10. The handle table of a process implements a map from descriptors to handles.  Any sequence
  of additions and removals of handles succeeds and keeps the table sound, and afterwards a
  lookup of any descriptor gives what the map gives: an addition maps the next free descriptor
  to the handle, a removal unmaps the handle's descriptor, and nothing else changes.
\<close>

theorem handle_table_refines:
  fixes s :: "'a kern_scheme"
  assumes "handle_inv p s" and "run_ok (handle_step p) (handle_ok p) ops s"
  shows "\<exists>s'. run_steps (handle_step p) ops s = Some s' \<and> handle_inv p s' \<and>
     (\<lambda>fd. Handle_Lookup p fd s', nextFD (procs s' p)) =
       fold handle_astep ops (\<lambda>fd. Handle_Lookup p fd s, nextFD (procs s p))"
  using handles.run_sim [OF assms] by (simp add: handle_abs_def)

lemma handle_state_inv: "handle_inv 0x10 (kern_state q)"
  by (simp add: handle_inv_def table_ok_def Process_zero_def)

theorem handle_table_refines_witness:
  "\<exists>s'. run_steps (handle_step 0x10) [AddHandle 0x500, AddHandle 0x600, RemoveHandle 0x500] (kern_state []) = Some s' \<and>
     Handle_Lookup 0x10 0 s' = None \<and> Handle_Lookup 0x10 1 s' = Some 0x600 \<and> Handle_Lookup 0x10 2 s' = None"
proof -
  let ?ops = "[AddHandle 0x500, AddHandle 0x600, RemoveHandle 0x500]"
  have "run_ok (handle_step 0x10) (handle_ok 0x10) ?ops (kern_state [])"
    by (simp add: Handle_Add_def in_table_def upd_proc_def Let_def Process_zero_def fd_slot_def PROCESS_HANDLE_SLOTS_def
        split: option.split) (intro conjI impI exI [of _ 0]; simp)
  from handle_table_refines [OF handle_state_inv this]
  obtain s' where s': "run_steps (handle_step 0x10) ?ops (kern_state []) = Some s'"
    and e: "(\<lambda>fd. Handle_Lookup 0x10 fd s', nextFD (procs s' 0x10)) =
       fold handle_astep ?ops (\<lambda>fd. Handle_Lookup 0x10 fd (kern_state []), nextFD (procs (kern_state []) 0x10))" by blast
  have n: "nextFD (procs (kern_state []) 0x10) = 0" "Handle_Lookup 0x10 fd (kern_state []) = None" for fd
    by (simp_all add: Process_zero_def Handle_Lookup_def)
  have "Handle_Lookup 0x10 fd s' = (if fd = 1 then Some 0x600 else None)" for fd
    using fun_cong [OF arg_cong [OF e, of fst], of fd] by (simp add: n Process_zero_def)
  with s' show ?thesis by simp
qed

end
