(* ===== verification/FileCalls.thy ===== *)
theory FileCalls
  imports Sleeping HandleTable
begin

text \<open>
  System calls on descriptors: the path from \<^verbatim>\<open>Syscall_Read\<close> and \<^verbatim>\<open>Syscall_Close\<close> through the
  handle table, \<^verbatim>\<open>vfsuio.c\<close> and \<^verbatim>\<open>vfs.c\<close> to the file system and the buffer cache.
\<close>

section \<open>Reading a file through a descriptor\<close>

lemma BufCacheLookup_kmore: "BufCacheLookup d off s = (r, e, s') \<Longrightarrow> kbufs.more s' = kbufs.more s"
  by (auto simp: BufCacheLookup_def Let_def split: option.splits if_splits)

lemma BufCacheAlloc_kmore: "BufCacheAlloc d off s = (r, e, s') \<Longrightarrow> kbufs.more s' = kbufs.more s"
  by (auto simp: BufCacheAlloc_def Let_def split: list.splits if_splits)

lemma BufCache_Release_kmore: "kbufs.more (BufCache_Release e s) = kbufs.more s"
  by (simp add: BufCache_Release_def Let_def)

lemma Disk_Read_kmore: "kbufs.more (snd (Disk_Read d buf sga s)) = kbufs.more s"
  by (simp add: Disk_Read_def disk_call_def split: prod.splits)

lemma BufCache_Read_kmore:
  assumes "BufCache_Read d off s = Some (r, e, s')"
  shows "kbufs.more s' = kbufs.more s"
proof -
  obtain r1 e1 s1 where 1: "BufCacheLookup d off s = (r1, e1, s1)" by (metis prod_cases3)
  obtain r2 e2 s2 where 2: "BufCacheAlloc d off (s1\<lparr>cacheMiss := cacheMiss s1 + 1\<rparr>) = (r2, e2, s2)" by (metis prod_cases3)
  show ?thesis
    using assms BufCacheLookup_kmore [OF 1] BufCacheAlloc_kmore [OF 2]
    by (auto simp: BufCache_Read_def 1 2 Let_def bind_eq_Some_conv split_beta Disk_Read_kmore split: if_splits)
qed

lemma O2FSResolveBuf_kmore: "O2FSResolveBuf fn b s = Some (r, e, s') \<Longrightarrow> kbufs.more s' = kbufs.more s" for s :: "'a kvfs_scheme"
  by (auto simp: O2FSResolveBuf_def Let_def dest: BufCache_Read_kmore)

lemma Read_loop_kmore:
  fixes s :: "'a kvfs_scheme"
  assumes "Read_loop fn buf off len rb s = Some (r, s')"
  shows "kbufs.more s' = kbufs.more s"
proof -
  have "kbufs.more (snd (r, s')) = kbufs.more s"
  proof (rule Read_loop.raw_induct [where P = "\<lambda>fn buf off len rb s y. kbufs.more (snd y) = kbufs.more s", OF _ assms])
    fix L fn buf off len rb and s :: "'a kvfs_scheme" and y
    assume IH: "\<And>fn buf off len rb s y. L fn buf off len rb s = Some y \<Longrightarrow> kbufs.more (snd y) = kbufs.more s"
      and eq: "(let bs = sb_blockSize (bmem s) (vn_sb fn s); bLen = chunk bs off len in
        Option.bind (O2FSResolveBuf fn (off div bs) s) (\<lambda>(status, entry, s).
          if status \<noteq> 0 then Some (status, s)
          else Option.bind entry (\<lambda>e.
            let s = s\<lparr>bmem := memcpy buf (buffer (entries s e) + off mod bs) bLen (bmem s)\<rparr>;
                s = BufCache_Release e s
            in if len - bLen = 0 then Some (int_of_u64 (rb + bLen), s)
               else L fn (buf + bLen) (off + bLen) (len - bLen) (rb + bLen) s))) = Some y"
    then obtain status entry s1 where 1: "O2FSResolveBuf fn (off div sb_blockSize (bmem s) (vn_sb fn s)) s = Some (status, entry, s1)"
      by (auto simp: Let_def bind_eq_Some_conv)
    note m = O2FSResolveBuf_kmore [OF 1]
    show "kbufs.more (snd y) = kbufs.more s"
    proof (cases "status = 0")
      case True
      then obtain e where "entry = Some e" using eq 1 by (cases entry) (auto simp: Let_def)
      then show ?thesis
        using eq 1 True m by (auto simp: Let_def BufCache_Release_kmore split: if_splits dest!: IH)
    next
      case False
      with eq 1 m show ?thesis by (auto simp: Let_def)
    qed
  qed
  then show ?thesis by simp
qed

lemma O2FS_Read_kmore: "O2FS_Read fn buf off len s = Some (r, s') \<Longrightarrow> kbufs.more s' = kbufs.more s" for s :: "'a kvfs_scheme"
  by (auto simp: O2FS_Read_def Let_def split: if_splits dest: Read_loop_kmore)

lemma kbufs_thrs: "kbufs.more s = kbufs.more t \<Longrightarrow> thrs s = thrs t \<and> hdls s = hdls t \<and> procs s = procs t" for s t :: "'a kern_scheme"
  by (cases s, cases t, simp)

text \<open>The file system does not look at the threads.\<close>

lemma file_upd_thr [simp]:
  "file_ok E fn (upd_thr t f s) = file_ok E fn s" "outside E (upd_thr t f s) = outside E s"
  "file_size fn (upd_thr t f s) = file_size fn s" "file_byte fn (upd_thr t f s) j = file_byte fn s j"
  "bmem (upd_thr t f s) = bmem s" "hdls (upd_thr t f s) = hdls s" "Handle_Lookup p fd (upd_thr t f s) = Handle_Lookup p fd s"
  by (simp_all add: file_ok_def bc_inv_def bc_coherent_def coherent_def caches_def vn_sb_def vn_bn_def outside_def file_size_def
      file_byte_def file_block_def Handle_Lookup_def upd_thr_def)

text \<open>
  A call on a descriptor: the operation runs with a reference to the current thread, which is
  dropped afterwards.
\<close>

lemma with_handle_ok:
  fixes s :: "'a kern_scheme"
  assumes c: "curProc s c \<noteq> 0" "t_refCount (thrs s (curProc s c)) \<notin> {0, - 1}"
    and h: "Handle_Lookup (t_proc (thrs s (curProc s c))) fd s = Some h"
    and f: "f h (upd_thr (curProc s c) (t_refCount_update (\<lambda>c. c + 1)) s) = Some (r, s1)"
    and th: "thrs s1 = thrs (upd_thr (curProc s c) (t_refCount_update (\<lambda>c. c + 1)) s)"
  shows "with_handle c fd f s = Some (ret r, upd_thr (curProc s c) (t_refCount_update (\<lambda>c. c - 1)) s1)"
proof -
  let ?p = "curProc s c"
  let ?sa = "upd_thr ?p (t_refCount_update (\<lambda>c. c + 1)) s"
  have cur: "Sched_Current c s = Some (?p, ?sa)" using c by (simp add: Sched_Current_def Thread_Retain_def Let_def)
  have "t_refCount (thrs s1 ?p) \<notin> {0, 1}" using c(2) by (simp add: th eq_neg_iff_add_eq_0)
  then have "Thread_Release ?p s1 = Some (upd_thr ?p (t_refCount_update (\<lambda>c. c - 1)) s1)" by (rule Thread_Release_keep)
  then show ?thesis using cur h f by (simp add: with_handle_def)
qed

section \<open>The links of free handles\<close>

lemma link_free_other: "a \<notin> set es \<Longrightarrow> link_free pv es f a = f a"
  by (induction pv es f rule: link_free.induct) simp_all

lemma link_free_keeps: "h_ops (link_free pv es f a) = h_ops (f a)" "h_vnode (link_free pv es f a) = h_vnode (f a)"
  by (induction pv es f rule: link_free.induct) simp_all

lemma link_free_type: "a \<in> set es \<Longrightarrow> h_type (link_free pv es f a) \<in> insert pv (set es)"
proof (induction es arbitrary: pv f)
  case (Cons e es)
  let ?f = "f(e := (f e)\<lparr>h_fd := (case es of [] \<Rightarrow> 0 | x # _ \<Rightarrow> x), h_type := pv\<rparr>)"
  show ?case
  proof (cases "a \<in> set es")
    case True
    from Cons.IH [OF this, of e ?f] show ?thesis unfolding link_free.simps by (simp only: list.set insert_iff) blast
  next
    case False
    with Cons.prems show ?thesis by (simp add: link_free_other)
  qed
qed simp

text \<open>A handle on the free list that still has the functions of a file handle.\<close>

definition stale :: "u64 \<Rightarrow> 'a kern_scheme \<Rightarrow> bool" where
  "stale h s \<longleftrightarrow> h \<in> set (slabFree (handleSlab s)) \<and> h_ops (hdls s h) = VFSUIO_ops \<and> h_type (hdls s h) \<noteq> HANDLE_TYPE_FILE \<and>
     HANDLE_TYPE_FILE \<notin> insert (handleFreeHead s) (set (slabFree (handleSlab s)))"

lemma Handle_Free_stale:
  assumes "Handle_Free x s = Some s'" "HANDLE_TYPE_FILE \<notin> insert (handleFreeHead s) (insert x (set (slabFree (handleSlab s))))"
    "h = x \<or> h \<in> set (slabFree (handleSlab s))" "h_ops (hdls s h) = VFSUIO_ops"
  shows "stale h s'" "procs s' = procs s" "thrs s' = thrs s" "curProc s' = curProc s"
proof -
  let ?fl = "x # slabFree (handleSlab s)"
  from assms(1) have s': "s' = s\<lparr>handleSlab := Slab_Free (handleSlab s) x, hdls := link_free (handleFreeHead s) ?fl (hdls s)\<rparr>"
    by (auto simp: Handle_Free_def Slab_Free_def bind_eq_Some_conv)
  have "h_type (link_free (handleFreeHead s) ?fl (hdls s) h) \<noteq> HANDLE_TYPE_FILE"
    using link_free_type [of h ?fl "handleFreeHead s" "hdls s"] assms(2,3) by auto
  then show "stale h s'" using assms(2-4) unfolding s' stale_def by (auto simp: Slab_Free_def link_free_keeps simp del: link_free.simps)
  show "procs s' = procs s" "thrs s' = thrs s" "curProc s' = curProc s" by (simp_all add: s')
qed

lemma handle_close_free: "handle_close x s = Some (r, s') \<Longrightarrow> Handle_Free x s = Some s'"
  by (auto simp: handle_close_def VFSUIO_Close_def Console_Close_def bind_eq_Some_conv split: handle_ops.splits)

lemma stale_close: "stale h s \<Longrightarrow> handle_close h s = None"
  by (simp add: stale_def handle_close_def VFSUIO_Close_def kassert_def)

lemma stale_upd_proc [simp]: "stale h (upd_proc p f s) = stale h s"
  by (simp add: stale_def upd_proc_def)

text \<open>Destroying the table of a process that holds such a handle.\<close>

definition stale_table :: "u64 \<Rightarrow> nat \<Rightarrow> u64 \<Rightarrow> 'a kern_scheme \<Rightarrow> bool" where
  "stale_table p k h s \<longleftrightarrow> stale h s \<and> (\<forall>i. HANDLE_TYPE_FILE \<notin> set (p_handles (procs s p) i)) \<and> h \<in> set (p_handles (procs s p) k)"

lemma destroy_step_stale:
  fixes s :: "'a kern_scheme"
  assumes s: "stale h s" and x: "x \<noteq> HANDLE_TYPE_FILE"
    and c: "handle_close x (upd_proc p (\<lambda>q. q\<lparr>p_handles := (p_handles q)(i := remove1 x (p_handles q i))\<rparr>) s) = Some (r, s')"
  shows "stale h s'" "procs s' p = (procs s p)\<lparr>p_handles := (p_handles (procs s p))(i := remove1 x (p_handles (procs s p) i))\<rparr>"
proof -
  let ?s = "upd_proc p (\<lambda>q. q\<lparr>p_handles := (p_handles q)(i := remove1 x (p_handles q i))\<rparr>) s"
  have "stale h ?s" using s by simp
  then have "HANDLE_TYPE_FILE \<notin> insert (handleFreeHead ?s) (insert x (set (slabFree (handleSlab ?s))))"
    "h = x \<or> h \<in> set (slabFree (handleSlab ?s))" "h_ops (hdls ?s h) = VFSUIO_ops" using x by (auto simp: stale_def)
  note f = Handle_Free_stale [OF handle_close_free [OF c] this]
  show "stale h s'" by (rule f(1))
  show "procs s' p = (procs s p)\<lparr>p_handles := (p_handles (procs s p))(i := remove1 x (p_handles (procs s p) i))\<rparr>"
    unfolding f(2) by (simp add: upd_proc_def)
qed

lemma destroy_slot_stuck: "Handle_Destroy_slot p k s = None" if a: "stale_table p k h s" for s :: "'a kern_scheme"
proof -
  have l: "h \<in> set (p_handles (procs s p) k)" "HANDLE_TYPE_FILE \<notin> set (p_handles (procs s p) k)" "stale h s" using a by (auto simp: stale_table_def)
  show ?thesis unfolding Handle_Destroy_slot_def
  proof (rule for_each_stuck [where I = "stale h", OF l(1,3)], goal_cases)
    case (1 y t t')
    then have "y \<noteq> HANDLE_TYPE_FILE" using l(2) by auto
    from destroy_step_stale(1) [OF 1(2) this] show ?case using 1(3) by (auto simp: bind_eq_Some_conv Let_def)
  next
    case (2 t)
    then have "stale h (upd_proc p (\<lambda>q. q\<lparr>p_handles := (p_handles q)(k := remove1 h (p_handles q k))\<rparr>) t)" by simp
    then show ?case by (simp only: Let_def stale_close Option.bind.simps)
  qed
qed

lemma destroy_slot_stale:
  assumes "stale_table p k h s" "i \<noteq> k" "Handle_Destroy_slot p i s = Some s'"
  shows "stale_table p k h s'"
proof -
  have l: "HANDLE_TYPE_FILE \<notin> set (p_handles (procs s p) i)" using assms(1) by (auto simp: stale_table_def)
  show ?thesis
  proof (rule for_each_inv [where I = "stale_table p k h", OF assms(3) [unfolded Handle_Destroy_slot_def] assms(1)], goal_cases)
    case (1 y t t')
    from 1(3) obtain r where c: "handle_close y (upd_proc p (\<lambda>q. q\<lparr>p_handles := (p_handles q)(i := remove1 y (p_handles q i))\<rparr>) t) = Some (r, t')"
      by (auto simp: bind_eq_Some_conv Let_def)
    have "stale h t" "y \<noteq> HANDLE_TYPE_FILE" using 1(1,2) l by (auto simp: stale_table_def)
    note d = destroy_step_stale [OF this c]
    show ?case using d(1) 1(2) assms(2) unfolding stale_table_def d(2) by (auto dest!: notin_set_remove1 [rotated] set_remove1_subset [THEN subsetD])
  qed
qed

lemma destroy_stuck: "Handle_Destroy p s = None" if "stale_table p k h s" "k < PROCESS_HANDLE_SLOTS"
  unfolding Handle_Destroy_def
proof (rule for_each_stuck [where x = k and I = "stale_table p k h"])
  show "stale_table p k h t'" if "stale_table p k h t" "Handle_Destroy_slot p i t = Some t'" for i t t'
    using that destroy_slot_stuck [OF that(1)] by (cases "i = k") (auto dest: destroy_slot_stale)
qed (use that in \<open>auto intro: destroy_slot_stuck\<close>)

section \<open>Properties\<close>


text \<open>The example: process 0x10 has the file of the example disk open as descriptor 3.\<close>

definition open_state :: kern where
  "open_state = (kern_state [])\<lparr>
     hdls := (\<lambda>_. \<lparr>h_fd = 3, h_type = HANDLE_TYPE_FILE, h_processId = 2, h_vnode = 9, h_ops = VFSUIO_ops\<rparr>),
     procs := (procs (kern_state []))(0x10 := (procs (kern_state []) 0x10)\<lparr>nextFD := 4, p_handles := (\<lambda>_. [])(3 := [0x600])\<rparr>)\<rparr>"

lemma kern_state_file: "file_ok {1, 2, 3} fn (kern_state q)"
  unfolding kern_state_def by (rule fs_state_file_ok)

lemma open_state_file: "file_ok {1, 2, 3} 9 open_state" "file_size 9 open_state = 5" "file_byte 9 open_state 1 = 101"
  "outside {1, 2, 3} open_state = outside {1, 2, 3} (kern_state [])"
proof -
  have e: "file_ok {1, 2, 3} 9 open_state = file_ok {1, 2, 3} 9 (kern_state [])"
    "file_size 9 open_state = file_size 9 (kern_state [])" "file_byte 9 open_state 1 = file_byte 9 (kern_state []) 1"
    by (simp_all add: open_state_def file_ok_def bc_inv_def bc_coherent_def coherent_def caches_def vn_sb_def vn_bn_def
        file_size_def file_byte_def file_block_def)
  show "file_ok {1, 2, 3} 9 open_state" unfolding e by (rule kern_state_file)
  show "file_size 9 open_state = 5" unfolding e
    by (simp add: kern_state_def file_size_def vn_bn_def fs_entry_def bn_size_def rd64_def fs_bytes_def fs_disk_def)
  show "file_byte 9 open_state 1 = 101" unfolding e
    by (simp add: kern_state_def file_byte_def file_block_def vn_bn_def fs_entry_def bn_direct_def bn_direct_addr_def rd64_def
        fs_bytes_def fs_disk_def BLOCKSIZE_def)
  show "outside {1, 2, 3} open_state = outside {1, 2, 3} (kern_state [])" by (simp add: open_state_def outside_def)
qed

lemma open_state_handle: "curProc open_state 0 = 0x100" "t_refCount (thrs open_state 0x100) = 1"
  "Handle_Lookup (t_proc (thrs open_state 0x100)) 3 open_state = Some 0x600" "h_ops (hdls open_state 0x600) = VFSUIO_ops"
  "h_type (hdls open_state 0x600) = HANDLE_TYPE_FILE" "h_vnode (hdls open_state 0x600) = 9"
  by (simp_all add: open_state_def Handle_Lookup_def fd_slot_def PROCESS_HANDLE_SLOTS_def)

lemma kernel_page_outside: "range_of 0xFFFF800000005000 4 \<subseteq> outside {1, 2, 3} open_state"
proof -
  have "range_of 0xFFFF800000005000 BLOCKSIZE \<inter> range_of b BLOCKSIZE = {}" if "b \<in> {0x10000, 0x20000, 0x30000}" for b
    using that blocks_disjoint [of b "0xFFFF800000005000"] by auto
  then have "range_of 0xFFFF800000005000 BLOCKSIZE \<subseteq> outside {1, 2, 3} open_state"
    unfolding open_state_file(4) by (auto simp: outside_def kern_state_def fs_entry_def)
  then show ?thesis using range_of_mono [of 4 BLOCKSIZE "0xFFFF800000005000"] by (auto simp: BLOCKSIZE_def)
qed




end
