(* ===== verification/HandleTypes.thy ===== *)
theory HandleTypes
  imports FileCalls
begin

text \<open>
  A typing discipline for the handles in the tables of the processes, which the calls on
  descriptors rely on: opening a path keeps it, and flushing and closing a descriptor never
  fail in a state that has it.
\<close>

section \<open>What a path lookup leaves alone\<close>

text \<open>
  A lookup changes the buffer cache, the nodes and the slab of the nodes.  The state behind the
  file system and the memory regions of the other slabs stay as they are.
\<close>

definition quiet :: "'a kvfs_scheme \<Rightarrow> 'a kvfs_scheme \<Rightarrow> bool" where
  "quiet s t \<longleftrightarrow> kvfs.more t = kvfs.more s \<and> slabXMem (vnodeSlab t) = slabXMem (vnodeSlab s) \<and>
     (\<forall>x. x \<noteq> slabXMem (vnodeSlab s) \<longrightarrow> regions t x = regions s x)"

lemma quiet_refl [simp]: "quiet s s"
  by (simp add: quiet_def)

lemma quiet_trans: "quiet s t \<Longrightarrow> quiet t u \<Longrightarrow> quiet s u"
  by (simp add: quiet_def)

lemma BufCacheLookup_regions: "BufCacheLookup d off s = (r, e, s') \<Longrightarrow> regions s' = regions s"
  by (auto simp: BufCacheLookup_def Let_def split: option.splits if_splits)

lemma BufCacheAlloc_regions: "BufCacheAlloc d off s = (r, e, s') \<Longrightarrow> regions s' = regions s"
  by (auto simp: BufCacheAlloc_def Let_def split: list.splits if_splits)

lemma BufCache_Read_regions:
  assumes "BufCache_Read d off s = Some (r, e, s')"
  shows "regions s' = regions s"
proof -
  obtain r1 e1 s1 where 1: "BufCacheLookup d off s = (r1, e1, s1)" by (metis prod_cases3)
  obtain r2 e2 s2 where 2: "BufCacheAlloc d off (s1\<lparr>cacheMiss := cacheMiss s1 + 1\<rparr>) = (r2, e2, s2)" by (metis prod_cases3)
  show ?thesis
    using assms BufCacheLookup_regions [OF 1] BufCacheAlloc_regions [OF 2]
    by (auto simp: BufCache_Read_def 1 2 Let_def bind_eq_Some_conv Disk_Read_def disk_call_def split: if_splits prod.splits)
qed

lemma quiet_kbufs: "kbufs.more t = kbufs.more s \<Longrightarrow> regions t = regions s \<Longrightarrow> quiet s t" for s t :: "'a kvfs_scheme"
  by (cases s, cases t, simp add: quiet_def)

lemma BufCache_Read_quiet: "BufCache_Read d off s = Some (r, e, t) \<Longrightarrow> quiet s t" for s t :: "'a kvfs_scheme"
  by (rule quiet_kbufs [OF BufCache_Read_kmore BufCache_Read_regions])

lemma BufCache_Release_quiet: "quiet s (BufCache_Release e s)" for s :: "'a kvfs_scheme"
  by (rule quiet_kbufs [OF BufCache_Release_kmore]) (simp add: BufCache_Release_def Let_def)

lemma quiet_release: "quiet (BufCache_Release e s) t \<Longrightarrow> quiet s t" for s t :: "'a kvfs_scheme"
  by (rule quiet_trans [OF BufCache_Release_quiet])

lemma XMem_Allocate_loop_other: "XMem_Allocate_loop x off len s = Some s' \<Longrightarrow> y \<noteq> x \<Longrightarrow> regions s' y = regions s y"
proof -
  have "XMem_Allocate_loop x off len s = Some s' \<Longrightarrow> y \<noteq> x \<longrightarrow> regions s' y = regions s y"
    by (erule XMem_Allocate_loop.raw_induct [where P = "\<lambda>x off len s s'. y \<noteq> x \<longrightarrow> regions s' y = regions s y"
         and xa = "(((x, off), len), s)", unfolded prod.case, rotated])
       (auto simp: bind_eq_Some_conv split: if_splits dest: XMem_grow_regions)
  then show "XMem_Allocate_loop x off len s = Some s' \<Longrightarrow> y \<noteq> x \<Longrightarrow> regions s' y = regions s y" by simp
qed

lemma XMem_Allocate_other: "XMem_Allocate x len s = Some (b, s') \<Longrightarrow> y \<noteq> x \<Longrightarrow> regions s' y = regions s y"
  by (auto simp: XMem_Allocate_def bind_eq_Some_conv split: if_splits dest: XMem_Allocate_loop_other)

lemma SlabExtend_other:
  "SlabExtend sl s = Some (r, sl', s') \<Longrightarrow> slabXMem sl' = slabXMem sl"
  "SlabExtend sl s = Some (r, sl', s') \<Longrightarrow> y \<noteq> slabXMem sl \<Longrightarrow> regions s' y = regions s y"
  by (auto simp: SlabExtend_def bind_eq_Some_conv Let_def split: if_splits dest: XMem_Allocate_other)

lemma Slab_Alloc_other:
  assumes a: "Slab_Alloc sl s = Some (p, sl', s')"
  shows "slabXMem sl' = slabXMem sl" "y \<noteq> slabXMem sl \<Longrightarrow> regions s' y = regions s y"
proof -
  obtain sl1 s1 where
    ex: "(if freeObjs sl = 0 then map_option snd (SlabExtend sl s) else Some (sl, s)) = Some (sl1, s1)" and
    r: "(case slabFree sl1 of [] \<Rightarrow> Some (None, sl1, s1)
        | e # es \<Rightarrow> Some (Some e, sl1\<lparr>slabFree := es, allocs := allocs sl1 + 1, freeObjs := freeObjs sl1 - 1\<rparr>, s1))
        = Some (p, sl', s')"
    using a by (auto simp: Slab_Alloc_def bind_eq_Some_conv)
  from r have r: "slabXMem sl' = slabXMem sl1" "s' = s1" by (cases "slabFree sl1"; auto)+
  from ex have "sl1 = sl \<and> s1 = s \<or> (\<exists>r. SlabExtend sl s = Some (r, sl1, s1))" by (auto split: if_splits)
  then show "slabXMem sl' = slabXMem sl" "y \<noteq> slabXMem sl \<Longrightarrow> regions s' y = regions s y"
    using SlabExtend_other [of sl s _ sl1 s1] r by auto
qed

lemma VNode_Alloc_quiet: "quiet s t" if v: "VNode_Alloc s = Some (p, t)"
proof -
  obtain sl u where a: "Slab_Alloc (vnodeSlab s) s = Some (p, sl, u)" and t: "t = u\<lparr>vnodeSlab := sl\<rparr>"
    using v by (auto simp: VNode_Alloc_def bind_eq_Some_conv)
  have "kvfs.more u = kvfs.more s" using Slab_Alloc_more [OF a] by (cases u, cases s, simp)
  then show ?thesis using Slab_Alloc_other [OF a] by (auto simp: t quiet_def)
qed

lemma vnodes_quiet [simp]: "quiet s (t\<lparr>vnodes := f\<rparr>) = quiet s t"
  by (simp add: quiet_def)

lemma new_vnode_quiet [simp]: "quiet s (new_vnode v fs e t) = quiet s t" "quiet s (O2FSRetainVNode v t) = quiet s t"
  by (simp_all add: new_vnode_def O2FSRetainVNode_def)

lemma load_quiet:
  fixes s :: "'a kvfs_scheme"
  shows "BufCache_Read d off s = Some (i, e, u) \<Longrightarrow> VNode_Alloc u = Some (v, w) \<Longrightarrow> quiet s w"
  by (rule quiet_trans [OF BufCache_Read_quiet VNode_Alloc_quiet])

lemma read_release_quiet:
  fixes s :: "'a kvfs_scheme"
  shows "BufCache_Read d off s = Some (i, e, u) \<Longrightarrow> quiet s (BufCache_Release x u)"
  by (rule quiet_trans [OF BufCache_Read_quiet BufCache_Release_quiet])

lemma O2FSLoadVNode_quiet: "O2FSLoadVNode fs off s = Some (v, t) \<Longrightarrow> quiet s t"
  by (auto simp: O2FSLoadVNode_def bind_eq_Some_conv split: if_splits option.splits intro: read_release_quiet load_quiet BufCache_Read_quiet)
    (erule (1) load_quiet)

lemma O2FS_GetRoot_quiet: "O2FS_GetRoot fs s = Some (r, v, t) \<Longrightarrow> quiet s t"
  by (auto simp: O2FS_GetRoot_def bind_eq_Some_conv split: if_splits intro: read_release_quiet load_quiet BufCache_Read_quiet)

lemma O2FSResolveBuf_quiet: "O2FSResolveBuf v b s = Some (r, e, t) \<Longrightarrow> quiet s t"
  by (auto simp: O2FSResolveBuf_def bind_eq_Some_conv Let_def dest: BufCache_Read_quiet)

lemma Lookup_loop_quiet: "Lookup_loop dn name b n s = Some (r, v, t) \<Longrightarrow> quiet s t"
proof (induction n arbitrary: b s)
  case 0
  then show ?case by (simp add: Lookup_loop.simps)
next
  case (Suc n)
  from Suc.prems obtain st e u where 1: "O2FSResolveBuf dn (of_nat b) s = Some (st, e, u)"
    by (subst (asm) Lookup_loop.simps) (auto simp: bind_eq_Some_conv)
  note q = O2FSResolveBuf_quiet [OF 1]
  show ?case using Suc.prems q 1
    by (subst (asm) Lookup_loop.simps)
       (auto simp: bind_eq_Some_conv Let_def split: if_splits option.splits
         dest!: O2FSLoadVNode_quiet Suc.IH quiet_release intro: quiet_trans)
qed

lemma O2FS_Lookup_quiet: "O2FS_Lookup dn name s = Some (r, v, t) \<Longrightarrow> quiet s t"
  by (auto simp: O2FS_Lookup_def Let_def bind_eq_Some_conv dest: Lookup_loop_quiet)

lemma VFS_Lookup_loop_quiet: "VFS_Lookup_loop start n s = Some (v, t) \<Longrightarrow> quiet s t"
proof -
  have "VFS_Lookup_loop start n s = Some (v, t) \<Longrightarrow> quiet s (snd (v, t))"
  proof (erule VFS_Lookup_loop.raw_induct [rotated], goal_cases)
    case (1 L start n s y)
    then show ?case
      by (auto simp: bind_eq_Some_conv Let_def split: if_splits dest!: O2FS_Lookup_quiet 1(1) intro: quiet_trans)
  qed
  then show "VFS_Lookup_loop start n s = Some (v, t) \<Longrightarrow> quiet s t" by simp
qed

lemma VFS_Lookup_quiet: "VFS_Lookup path s = Some (v, t) \<Longrightarrow> quiet s t"
  by (auto simp: VFS_Lookup_def bind_eq_Some_conv split: if_splits dest!: O2FS_GetRoot_quiet VFS_Lookup_loop_quiet intro: quiet_trans)

section \<open>Typed handle tables\<close>

text \<open>
  A handle that is well typed can be called: it has the functions of a file or of the console,
  and those of a file find what they assert.
\<close>

definition well_typed :: "Handle \<Rightarrow> bool" where
  "well_typed x = (case h_ops x of NoOps \<Rightarrow> False | VFSUIO_ops \<Rightarrow> h_type x = HANDLE_TYPE_FILE \<and> h_vnode x \<noteq> 0 | Console_ops \<Rightarrow> True)"

text \<open>\<open>M\<close> is the set of handles in use; those of \<open>L\<close> may be in the tables, and they are well typed.\<close>

definition typed :: "u64 set \<Rightarrow> u64 set \<Rightarrow> 'a kern_scheme \<Rightarrow> bool" where
  "typed M L s \<longleftrightarrow> slabXMem (handleSlab s) \<noteq> slabXMem (vnodeSlab s) \<and> slab_inv (handleSlab s) M s \<and> L \<subseteq> M \<and>
     (\<forall>h\<in>L. well_typed (hdls s h)) \<and> (\<forall>p i. set (p_handles (procs s p) i) \<subseteq> L)"

definition handles_typed :: "'a kern_scheme \<Rightarrow> bool" where
  "handles_typed s \<longleftrightarrow> (\<exists>M L. typed M L s)"

lemma slab_inv_regions: "regions t (slabXMem sl) = regions s (slabXMem sl) \<Longrightarrow> slab_inv sl M t = slab_inv sl M s"
  by (simp add: slab_inv_def)

lemma slab_inv_frame [simp]:
  fixes s :: "'a kern_scheme"
  shows "slab_inv sl M (s\<lparr>hdls := a\<rparr>) = slab_inv sl M s" "slab_inv sl M (s\<lparr>handleSlab := b\<rparr>) = slab_inv sl M s"
    "slab_inv sl M (s\<lparr>procs := c\<rparr>) = slab_inv sl M s" "slab_inv sl M (s\<lparr>thrs := d\<rparr>) = slab_inv sl M s"
  by (simp_all add: slab_inv_def)

lemma typed_quiet: "typed M L s \<Longrightarrow> quiet s t \<Longrightarrow> typed M L t \<and> thrs t = thrs s"
proof -
  assume a: "typed M L s" "quiet s t"
  from a(2) have e: "handleSlab t = handleSlab s" "hdls t = hdls s" "procs t = procs s" "thrs t = thrs s"
    by (cases s, cases t, simp add: quiet_def)+
  then show ?thesis using a slab_inv_regions [of t "handleSlab s" s M] by (simp add: typed_def quiet_def)
qed

lemma Handle_Alloc_typed:
  assumes t: "typed M L s" and a: "Handle_Alloc s = Some (h, t)"
  shows "\<exists>M'. typed M' L t \<and> (h \<noteq> 0 \<longrightarrow> h \<in> M' \<and> h \<notin> L) \<and> thrs t = thrs s"
proof -
  obtain r sl u where s: "Slab_Alloc (handleSlab s) s = Some (r, sl, u)" using a by (auto simp: Handle_Alloc_def bind_eq_Some_conv)
  note f = kern_fields [OF Slab_Alloc_more [OF s]] and i = Slab_Alloc_inv [OF _ s, of M]
  have hh: "handleFreeHead u = handleFreeHead s" "vnodeSlab u = vnodeSlab s" using Slab_Alloc_more [OF s] by (cases u, cases s, simp)+
  have x: "slabXMem sl = slabXMem (handleSlab s)" using Slab_Alloc_other(1) [OF s] .
  show ?thesis
  proof (cases r)
    case None
    then have "t = u\<lparr>handleSlab := sl\<rparr>" "h = 0" using a by (simp_all add: Handle_Alloc_def s Let_def)
    then show ?thesis using t i x f hh None by (intro exI [of _ M]) (auto simp: typed_def)
  next
    case (Some p)
    let ?hd = "link_free (handleFreeHead u) (slabFree sl) (link_free (handleFreeHead u) (p # slabFree sl) (hdls u))"
    have e: "t = u\<lparr>handleSlab := sl, hdls := ?hd\<rparr>" "h = p" using a by (auto simp: Handle_Alloc_def s Let_def Some)
    have v: "p \<notin> M" "slab_inv sl (insert p M) u" using i t Some by (simp_all add: typed_def)
    then have fr: "x \<notin> set (p # slabFree sl)" if "x \<in> M" for x using that by (auto simp: slab_inv_def Let_def)
    have "?hd x = hdls s x" if "x \<in> L" for x
      using fr [of x] that t link_free_other [of x] by (auto simp: typed_def f simp del: link_free.simps)
    then show ?thesis using t v x f hh unfolding e by (intro exI [of _ "insert p M"]) (auto simp: typed_def simp del: link_free.simps)
  qed
qed

lemma Handle_Free_typed:
  assumes t: "typed M L s" and a: "Handle_Free h s = Some t" and h: "h \<in> M" "h \<notin> L"
  shows "typed (M - {h}) L t \<and> thrs t = thrs s"
proof -
  let ?fl = "h # slabFree (handleSlab s)"
  have e: "t = s\<lparr>handleSlab := Slab_Free (handleSlab s) h, hdls := link_free (handleFreeHead s) ?fl (hdls s)\<rparr>"
    using a by (auto simp: Handle_Free_def Slab_Free_def bind_eq_Some_conv)
  have "slab_inv (Slab_Free (handleSlab s) h) (M - {h}) s" using t h by (intro Slab_Free_inv) (simp_all add: typed_def)
  moreover have "link_free (handleFreeHead s) ?fl (hdls s) x = hdls s x" if "x \<in> L" for x
    using that t h by (intro link_free_other) (auto simp: typed_def slab_inv_def Let_def)
  moreover have "slabXMem (Slab_Free (handleSlab s) h) = slabXMem (handleSlab s)" by (simp add: Slab_Free_def)
  ultimately show ?thesis using t h unfolding e by (auto simp: typed_def simp del: link_free.simps)
qed

lemma set_handle_typed:
  "typed M L s \<Longrightarrow> h \<in> M \<Longrightarrow> h \<notin> L \<Longrightarrow> well_typed x \<Longrightarrow> typed M (insert h L) (s\<lparr>hdls := (hdls s)(h := x)\<rparr>)"
  by (simp add: typed_def) blast

lemma Handle_Add_typed:
  assumes t: "typed M L s" and a: "Handle_Add p h s = Some (r, t)" and h: "h \<in> L"
  shows "typed M L t \<and> thrs t = thrs s"
proof -
  let ?hd = "(hdls s h)\<lparr>h_fd := nextFD (procs s p), h_processId := pid (procs s p)\<rparr>"
  have e: "t = upd_proc p (\<lambda>q. q\<lparr>nextFD := nextFD q + 1,
      p_handles := (p_handles q)(fd_slot (nextFD (procs s p)) := h # p_handles q (fd_slot (nextFD (procs s p))))\<rparr>)
      (s\<lparr>hdls := (hdls s)(h := ?hd)\<rparr>)"
    using a by (auto simp: Handle_Add_def bind_eq_Some_conv Let_def)
  have "well_typed ?hd" using t h by (auto simp: typed_def well_typed_def split: handle_ops.splits)
  then show ?thesis using t h unfolding e by (auto simp: typed_def upd_proc_def)
qed

lemma VFSUIO_Open_typed:
  assumes t: "typed M L s" and a: "VFSUIO_Open path s = Some (status, h, t)"
  shows "\<exists>M L. typed M L t \<and> thrs t = thrs s \<and> (status = 0 \<longrightarrow> h \<in> L)"
proof -
  obtain hdl s1 where 1: "Handle_Alloc s = Some (hdl, s1)" using a by (auto simp: VFSUIO_Open_def bind_eq_Some_conv)
  obtain M1 where t1: "typed M1 L s1" "thrs s1 = thrs s" and h: "hdl \<noteq> 0 \<Longrightarrow> hdl \<in> M1 \<and> hdl \<notin> L" using Handle_Alloc_typed [OF t 1] by blast
  show ?thesis
  proof (cases "hdl = 0")
    case True
    then show ?thesis using a t1 by (auto simp: VFSUIO_Open_def 1 ENOMEM_def)
  next
    case False
    obtain vn s2 where 2: "VFS_Lookup path s1 = Some (vn, s2)" using a False by (auto simp: VFSUIO_Open_def 1 bind_eq_Some_conv)
    have t2: "typed M1 L s2" "thrs s2 = thrs s" using typed_quiet [OF t1(1) VFS_Lookup_quiet [OF 2]] t1(2) by simp_all
    show ?thesis
    proof (cases "vn = 0")
      case True
      then obtain s3 where 3: "Handle_Free hdl s2 = Some s3" "t = s3" "status \<noteq> 0"
        using a False by (auto simp: VFSUIO_Open_def 1 2 ENOENT_def bind_eq_Some_conv)
      then show ?thesis using Handle_Free_typed [OF t2(1) 3(1)] h False t2(2) by auto
    next
      case vn: False
      then have e: "t = s2\<lparr>hdls := (hdls s2)(hdl := (hdls s2 hdl)\<lparr>h_vnode := vn, h_type := HANDLE_TYPE_FILE, h_ops := VFSUIO_ops\<rparr>)\<rparr>" "h = hdl"
        using a False by (auto simp: VFSUIO_Open_def 1 2 VFS_Open_def O2FS_Open_def kassert_def)
      have "typed M1 (insert hdl L) t" unfolding e using h False vn
        by (intro set_handle_typed [OF t2(1)]) (simp_all add: well_typed_def)
      then show ?thesis using t2(2) e by (intro exI [of _ M1] exI [of _ "insert hdl L"]) simp
    qed
  qed
qed

lemma Console_OpenHandle_typed:
  assumes t: "typed M L s" and a: "Console_OpenHandle s = Some (h, t)"
  shows "\<exists>M L. typed M L t \<and> thrs t = thrs s \<and> (h \<noteq> 0 \<longrightarrow> h \<in> L)"
proof -
  obtain s1 where 1: "Handle_Alloc s = Some (h, s1)" using a by (auto simp: Console_OpenHandle_def bind_eq_Some_conv)
  obtain M1 where t1: "typed M1 L s1" "thrs s1 = thrs s" and h: "h \<noteq> 0 \<Longrightarrow> h \<in> M1 \<and> h \<notin> L" using Handle_Alloc_typed [OF t 1] by blast
  show ?thesis
  proof (cases "h = 0")
    case True
    then show ?thesis using a 1 t1 by (auto simp: Console_OpenHandle_def)
  next
    case False
    then have "typed M1 (insert h L) (s1\<lparr>hdls := (hdls s1)(h := (hdls s1 h)\<lparr>h_ops := Console_ops\<rparr>)\<rparr>)"
      using h by (intro set_handle_typed [OF t1(1)]) (simp_all add: well_typed_def)
    moreover have "t = s1\<lparr>hdls := (hdls s1)(h := (hdls s1 h)\<lparr>h_ops := Console_ops\<rparr>)\<rparr>" using a 1 False by (simp add: Console_OpenHandle_def)
    ultimately show ?thesis using t1(2) by (intro exI [of _ M1] exI [of _ "insert h L"]) simp
  qed
qed

lemma copystr_bmem: "\<exists>m. snd (copystr n to from s) = s\<lparr>bmem := m\<rparr>"
proof (induction n arbitrary: to "from" s)
  case (Suc n)
  have e: "\<exists>m. s = s\<lparr>bmem := m\<rparr>" by (rule exI [of _ "bmem s"]) simp
  obtain m where "snd (copystr n (to + 1) (from + 1) (s\<lparr>bmem := (bmem s)(to := bmem s from)\<rparr>)) = s\<lparr>bmem := (bmem s)(to := bmem s from)\<rparr>\<lparr>bmem := m\<rparr>"
    using Suc by blast
  then show ?case using e by (auto simp: Let_def)
qed (metis (no_types) copystr.simps(1) kbufs.surjective kbufs.update_convs(1) snd_conv)

lemma Copy_StrIn_bmem: "\<exists>m. snd (Copy_StrIn u k len s) = s\<lparr>bmem := m\<rparr>"
proof -
  have e: "\<exists>m. s = s\<lparr>bmem := m\<rparr>" by (rule exI [of _ "bmem s"]) simp
  then show ?thesis using copystr_bmem by (auto simp: Copy_StrIn_def copystr_unsafe_def)
qed

lemma typed_upd_thr [simp]: "typed M L (upd_thr t f s) = typed M L s"
  by (simp add: typed_def upd_thr_def)

lemma typed_bmem [simp]: "typed M L (s\<lparr>bmem := m\<rparr>) = typed M L s"
  by (simp add: typed_def slab_inv_def)

lemma Syscall_Open_typed:
  fixes s :: "'a kern_scheme"
  assumes t: "typed M L s" and c: "curProc s c \<noteq> 0" "t_refCount (thrs s (curProc s c)) \<notin> {0, - 1}"
    and o: "Syscall_Open c stk path flags s = Some (r, s')"
  shows "handles_typed s'"
proof -
  let ?p = "curProc s c"
  let ?sa = "upd_thr ?p (t_refCount_update (\<lambda>c. c + 1)) s"
  let ?proc = "t_proc (thrs ?sa ?p)"
  have cur: "Sched_Current c s = Some (?p, ?sa)" using c by (simp add: Sched_Current_def Thread_Retain_def Let_def)
  obtain status m where cp: "Copy_StrIn path stk 256 ?sa = (status, ?sa\<lparr>bmem := m\<rparr>)"
    using Copy_StrIn_bmem [of path stk 256 ?sa] by (cases "Copy_StrIn path stk 256 ?sa") auto
  let ?sb = "?sa\<lparr>bmem := m\<rparr>"
  have tb: "typed M L ?sb" using t by simp
  define body where "body =
       (if status \<noteq> 0 then Some (ret status, ?sb)
        else if bytes_at (bmem ?sb) stk 5 = dev_prefix
        then (if cstr (bmem ?sb) stk dev_console
              then do { (h, s) \<leftarrow> Console_OpenHandle ?sb; Handle_Add ?proc h s }
              else Some (ret (- ENOENT), ?sb))
        else do {
          (status, h, s) \<leftarrow> VFSUIO_Open stk ?sb;
          if status \<noteq> 0 then Some (ret status, s) else Handle_Add ?proc h s
        })"
  have "\<exists>s1. body = Some (r, s1) \<and> Thread_Release ?p s1 = Some s'"
    using o by (auto simp: Syscall_Open_def cur cp Let_def body_def bind_eq_Some_conv)
  then obtain s1 where b: "body = Some (r, s1)" and rel: "Thread_Release ?p s1 = Some s'" by blast
  have "\<exists>M L. typed M L s1 \<and> thrs s1 = thrs ?sb"
  proof -
    consider "s1 = ?sb"
      | h s2 where "Console_OpenHandle ?sb = Some (h, s2)" "Handle_Add ?proc h s2 = Some (r, s1)"
      | h where "\<exists>i. VFSUIO_Open stk ?sb = Some (i, h, s1)"
      | h s2 where "VFSUIO_Open stk ?sb = Some (0, h, s2)" "Handle_Add ?proc h s2 = Some (r, s1)"
      using b unfolding body_def by (auto simp: bind_eq_Some_conv split: if_splits)
    then show ?thesis
    proof cases
      case 1
      then show ?thesis using tb by blast
    next
      case 2
      from Console_OpenHandle_typed [OF tb 2(1)] obtain M L where t2: "typed M L s2" "thrs s2 = thrs ?sb" and h: "h \<noteq> 0 \<longrightarrow> h \<in> L" by blast
      have "h \<noteq> 0" using 2(2) by (auto simp: Handle_Add_def bind_eq_Some_conv)
      with Handle_Add_typed [OF t2(1) 2(2)] h t2(2) show ?thesis by auto
    next
      case 3
      then show ?thesis using VFSUIO_Open_typed [OF tb] by blast
    next
      case 4
      from VFSUIO_Open_typed [OF tb 4(1)] obtain M L where t2: "typed M L s2" "thrs s2 = thrs ?sb" "h \<in> L" by auto
      with Handle_Add_typed [OF t2(1) 4(2) t2(3)] show ?thesis by auto
    qed
  qed
  then obtain M L where ts: "typed M L s1" "thrs s1 = thrs ?sb" by blast
  have "t_refCount (thrs s1 ?p) \<notin> {0, 1}" using c(2) by (simp add: ts(2) upd_thr_def eq_neg_iff_add_eq_0)
  from Thread_Release_keep [OF this] rel have "s' = upd_thr ?p (t_refCount_update (\<lambda>c. c - 1)) s1" by simp
  then show ?thesis using ts(1) unfolding handles_typed_def by auto
qed

lemma typed_lookup: "typed M L s \<Longrightarrow> Handle_Lookup p fd s = Some h \<Longrightarrow> well_typed (hdls s h) \<and> h \<notin> set (slabFree (handleSlab s))"
proof -
  assume t: "typed M L s" and l: "Handle_Lookup p fd s = Some h"
  then have "h \<in> set (p_handles (procs s p) (fd_slot fd))" by (auto simp: Handle_Lookup_def find_Some_iff)
  then have "h \<in> L" using t unfolding typed_def by blast
  then show ?thesis using t by (auto simp: typed_def slab_inv_def Let_def)
qed

lemma with_handle_missing:
  fixes s :: "'a kern_scheme"
  assumes c: "curProc s c \<noteq> 0" "t_refCount (thrs s (curProc s c)) \<notin> {0, - 1}"
    and h: "Handle_Lookup (t_proc (thrs s (curProc s c))) fd s = None"
  shows "with_handle c fd f s = Some (ret (- EBADF), upd_thr (curProc s c) (t_refCount_update (\<lambda>c. c - 1))
      (upd_thr (curProc s c) (t_refCount_update (\<lambda>c. c + 1)) s))"
proof -
  let ?p = "curProc s c"
  let ?sa = "upd_thr ?p (t_refCount_update (\<lambda>c. c + 1)) s"
  have cur: "Sched_Current c s = Some (?p, ?sa)" using c by (simp add: Sched_Current_def Thread_Retain_def Let_def)
  have "t_refCount (thrs ?sa ?p) \<notin> {0, 1}" using c(2) by (simp add: eq_neg_iff_add_eq_0)
  from Thread_Release_keep [OF this] show ?thesis using cur h by (simp add: with_handle_def)
qed

text \<open>
  C1. Typed handle tables.  In a state in which every handle of every table is an object in use of
  the handle slab and has the functions of a file, with the type and the node these assert, or
  those of the console, the calls on a descriptor never call through a handle that has no
  functions and never fail an assertion: \<^verbatim>\<open>Syscall_Flush\<close> returns and leaves the tables typed,
  and \<^verbatim>\<open>Syscall_Close\<close> returns, for every descriptor.  \<^verbatim>\<open>Syscall_Open\<close> of any path, whether it
  succeeds or fails at any point, leaves the tables typed.
\<close>

theorem syscall_handles_typed:
  fixes s :: "'a kern_scheme"
  assumes t: "handles_typed s" and c: "curProc s c \<noteq> 0" "t_refCount (thrs s (curProc s c)) \<notin> {0, - 1}"
  shows "(\<forall>r s'. Syscall_Open c stk path flags s = Some (r, s') \<longrightarrow> handles_typed s') \<and>
    (\<exists>r s'. Syscall_Flush c fd s = Some (r, s') \<and> handles_typed s') \<and> (\<exists>r s'. Syscall_Close c fd s = Some (r, s'))"
proof -
  obtain M L where t: "typed M L s" using t by (auto simp: handles_typed_def)
  let ?p = "curProc s c" and ?sa = "upd_thr (curProc s c) (t_refCount_update (\<lambda>c. c + 1)) s"
  have "(\<exists>r s'. Syscall_Flush c fd s = Some (r, s') \<and> handles_typed s') \<and> (\<exists>r s'. Syscall_Close c fd s = Some (r, s'))"
  proof (cases "Handle_Lookup (t_proc (thrs s ?p)) fd s")
    case None
    then show ?thesis using t unfolding Syscall_Flush_def Syscall_Close_def handles_typed_def by (auto simp: with_handle_missing [OF c])
  next
    case (Some h)
    note w = typed_lookup [OF t Some]
    obtain r where f: "handle_flush h ?sa = Some (r, ?sa)"
      using w by (cases "h_ops (hdls s h)") (auto simp: well_typed_def handle_flush_def VFSUIO_Flush_def kassert_def)
    have cl: "handle_close h ?sa = do { s \<leftarrow> Handle_Free h ?sa; Some (0, s) }"
      using w by (cases "h_ops (hdls s h)")
        (auto simp: well_typed_def handle_close_def VFSUIO_Close_def Console_Close_def VFS_Close_def O2FS_Close_def kassert_def)
    obtain s1 where s1: "Handle_Free h ?sa = Some s1" "thrs s1 = thrs ?sa"
      using w by (auto simp: Handle_Free_def kassert_def Let_def upd_thr_def)
    show ?thesis
      using with_handle_ok [where f = handle_flush, OF c Some f refl] with_handle_ok [where f = handle_close, OF c Some _ s1(2)] cl s1(1) t
      by (auto simp: Syscall_Flush_def Syscall_Close_def handles_typed_def)
  qed
  then show ?thesis using Syscall_Open_typed [OF t c] by blast
qed

text \<open>The example: the open file of \<open>open_state\<close> is an object of the handle slab.\<close>

definition handle_slab :: slab where
  "handle_slab = \<lparr>objsz = 80, align = 16, slabXMem = 0, objs = 3, freeObjs = 2,
     slabFree = [0xFFFF810000000050, 0xFFFF810000000000], allocs = 1, frees = 0, slabName = ''Handle Objects''\<rparr>"

definition typed_state :: kern where
  "typed_state = open_state\<lparr>handleSlab := handle_slab, vnodeSlab := slab_example\<lparr>slabXMem := 1\<rparr>,
     regions := (\<lambda>_. \<lparr>inUse = True, base = MEM_XMAP_BASE, maxLength = 0x8000000, xlength = 0x4000\<rparr>),
     procs := (\<lambda>_. Process_zero)(0x10 := Process_zero\<lparr>pid := 2, nextFD := 4, p_handles := (\<lambda>_. [])(3 := [0xFFFF8100000000A0])\<rparr>)\<rparr>"

lemma typed_state_inv: "typed {0xFFFF8100000000A0} {0xFFFF8100000000A0} typed_state"
proof -
  have z: "realObjSz handle_slab = 80" "slab_inc handle_slab = 16384"
    by (simp_all add: realObjSz_def slab_inc_def handle_slab_def ROUNDUP_def PGSIZE_def)
  have "slab_inv handle_slab {0xFFFF8100000000A0} typed_state"
    unfolding slab_inv_def Let_def z by (auto simp: handle_slab_def typed_state_def MEM_XMAP_BASE_def obj_inside_def obj_apart_def)
  moreover have "well_typed (hdls typed_state h)" for h by (simp add: typed_state_def open_state_def well_typed_def)
  moreover have "set (p_handles (procs typed_state p) i) \<subseteq> {0xFFFF8100000000A0}" for p i
    by (auto simp: typed_state_def Process_zero_def)
  ultimately show ?thesis by (simp add: typed_def) (simp add: typed_state_def handle_slab_def)
qed

theorem syscall_handles_typed_witness:
  "(\<exists>r s'. Syscall_Flush 0 3 typed_state = Some (r, s') \<and> handles_typed s') \<and> (\<exists>r s'. Syscall_Close 0 3 typed_state = Some (r, s'))"
proof -
  have "handles_typed typed_state" using typed_state_inv unfolding handles_typed_def by blast
  moreover have "curProc typed_state = curProc open_state" "thrs typed_state = thrs open_state" by (simp_all add: typed_state_def)
  ultimately show ?thesis using syscall_handles_typed [of typed_state 0] open_state_handle by auto
qed

end
