(* ===== verification/LibC.thy ===== *)
theory LibC
  imports Syscall
begin

text \<open>
  The C library's wrappers of the system calls (\<^verbatim>\<open>lib/libc/syscall.c\<close>, \<^verbatim>\<open>amd64/syscall.S\<close>) and
  what is directly above them: \<^verbatim>\<open>posix/mman.c\<close> and \<^verbatim>\<open>process.c\<close>.  A call traps into
  \<open>Syscall_Entry\<close> on the CPU \<open>c\<close> with the kernel stack \<open>stk\<close>.  Beside the new state its result is
  the value of the return register, or \<open>None\<close> if another thread runs now.
\<close>

section \<open>System calls\<close>

type_synonym 's os = "'s \<Rightarrow> (u64 option \<times> 's) option"

definition "syscall" :: "nat \<Rightarrow> u64 \<Rightarrow> u64 \<Rightarrow> u64 \<Rightarrow> u64 \<Rightarrow> u64 \<Rightarrow> u64 \<Rightarrow> 'a kern_scheme os" where
  "syscall c stk num a1 a2 a3 a4 = Syscall_Entry c stk num a1 a2 a3 a4"

text \<open>A wrapper of type \<^verbatim>\<open>int\<close> keeps the low 32 bits; as a \<^verbatim>\<open>uint64_t\<close> they are sign extended.\<close>

definition cast_int :: "u64 \<Rightarrow> u64" where
  "cast_int x = of_int (int_of_u64 x)"

definition int_call :: "'s os \<Rightarrow> 's os" where
  "int_call f s = map_option (map_prod (map_option cast_int) (\<lambda>s. s)) (f s)"

definition OSTime :: "nat \<Rightarrow> u64 \<Rightarrow> 'a kern_scheme os" where
  "OSTime c stk = syscall c stk 0x01 0 0 0 0"

definition OSExit :: "nat \<Rightarrow> u64 \<Rightarrow> u64 \<Rightarrow> 'a kern_scheme os" where
  "OSExit c stk status = syscall c stk 0x03 status 0 0 0"

definition OSGetPID :: "nat \<Rightarrow> u64 \<Rightarrow> 'a kern_scheme os" where
  "OSGetPID c stk = syscall c stk 0x02 0 0 0 0"

definition OSSpawn :: "nat \<Rightarrow> u64 \<Rightarrow> u64 \<Rightarrow> u64 \<Rightarrow> 'a kern_scheme os" where
  "OSSpawn c stk path argv = syscall c stk 0x04 path argv 0 0"

definition OSWait :: "nat \<Rightarrow> u64 \<Rightarrow> u64 \<Rightarrow> 'a kern_scheme os" where
  "OSWait c stk ident = syscall c stk 0x05 ident 0 0 0"

definition OSMemMap :: "nat \<Rightarrow> u64 \<Rightarrow> u64 \<Rightarrow> u64 \<Rightarrow> u64 \<Rightarrow> 'a kern_scheme os" where
  "OSMemMap c stk addr len flags = syscall c stk 0x08 addr len flags 0"

definition OSMemUnmap :: "nat \<Rightarrow> u64 \<Rightarrow> u64 \<Rightarrow> u64 \<Rightarrow> 'a kern_scheme os" where
  "OSMemUnmap c stk addr len = int_call (syscall c stk 0x09 addr len 0 0)"

definition OSMemProtect :: "nat \<Rightarrow> u64 \<Rightarrow> u64 \<Rightarrow> u64 \<Rightarrow> u64 \<Rightarrow> 'a kern_scheme os" where
  "OSMemProtect c stk addr len flags = int_call (syscall c stk 0x0A addr len flags 0)"

definition OSRead :: "nat \<Rightarrow> u64 \<Rightarrow> u64 \<Rightarrow> u64 \<Rightarrow> u64 \<Rightarrow> u64 \<Rightarrow> 'a kern_scheme os" where
  "OSRead c stk fd addr off len = int_call (syscall c stk 0x10 fd addr off len)"

definition OSWrite :: "nat \<Rightarrow> u64 \<Rightarrow> u64 \<Rightarrow> u64 \<Rightarrow> u64 \<Rightarrow> u64 \<Rightarrow> 'a kern_scheme os" where
  "OSWrite c stk fd addr off len = int_call (syscall c stk 0x11 fd addr off len)"

definition OSFlush :: "nat \<Rightarrow> u64 \<Rightarrow> u64 \<Rightarrow> 'a kern_scheme os" where
  "OSFlush c stk fd = int_call (syscall c stk 0x12 fd 0 0 0)"

definition OSOpen :: "nat \<Rightarrow> u64 \<Rightarrow> u64 \<Rightarrow> u64 \<Rightarrow> 'a kern_scheme os" where
  "OSOpen c stk path flags = syscall c stk 0x18 path flags 0 0"

definition OSClose :: "nat \<Rightarrow> u64 \<Rightarrow> u64 \<Rightarrow> 'a kern_scheme os" where
  "OSClose c stk fd = int_call (syscall c stk 0x19 fd 0 0 0)"

definition OSStat :: "nat \<Rightarrow> u64 \<Rightarrow> u64 \<Rightarrow> u64 \<Rightarrow> 'a kern_scheme os" where
  "OSStat c stk path sb = int_call (syscall c stk 0x1D path sb 0 0)"

definition OSReadDir :: "nat \<Rightarrow> u64 \<Rightarrow> u64 \<Rightarrow> u64 \<Rightarrow> u64 \<Rightarrow> u64 \<Rightarrow> 'a kern_scheme os" where
  "OSReadDir c stk fd buf len off = int_call (syscall c stk 0x1E fd buf len off)"

definition OSPipe :: "nat \<Rightarrow> u64 \<Rightarrow> u64 \<Rightarrow> 'a kern_scheme os" where
  "OSPipe c stk fds = int_call (syscall c stk 0x20 fds 0 0 0)"

definition OSThreadCreate :: "nat \<Rightarrow> u64 \<Rightarrow> u64 \<Rightarrow> u64 \<Rightarrow> 'a kern_scheme os" where
  "OSThreadCreate c stk rip arg = int_call (syscall c stk 0x30 rip arg 0 0)"

definition OSGetTID :: "nat \<Rightarrow> u64 \<Rightarrow> 'a kern_scheme os" where
  "OSGetTID c stk = int_call (syscall c stk 0x31 0 0 0 0)"

definition OSThreadExit :: "nat \<Rightarrow> u64 \<Rightarrow> u64 \<Rightarrow> 'a kern_scheme os" where
  "OSThreadExit c stk status = int_call (syscall c stk 0x32 status 0 0 0)"

definition OSThreadSleep :: "nat \<Rightarrow> u64 \<Rightarrow> u64 \<Rightarrow> 'a kern_scheme os" where
  "OSThreadSleep c stk time = int_call (syscall c stk 0x33 time 0 0 0)"

definition OSThreadWait :: "nat \<Rightarrow> u64 \<Rightarrow> u64 \<Rightarrow> 'a kern_scheme os" where
  "OSThreadWait c stk ident = int_call (syscall c stk 0x34 ident 0 0 0)"

definition OSNICStat :: "nat \<Rightarrow> u64 \<Rightarrow> u64 \<Rightarrow> u64 \<Rightarrow> 'a kern_scheme os" where
  "OSNICStat c stk no nic = int_call (syscall c stk 0x40 no nic 0 0)"

definition OSNICSend :: "nat \<Rightarrow> u64 \<Rightarrow> u64 \<Rightarrow> u64 \<Rightarrow> 'a kern_scheme os" where
  "OSNICSend c stk no mbuf = int_call (syscall c stk 0x41 no mbuf 0 0)"

definition OSNICRecv :: "nat \<Rightarrow> u64 \<Rightarrow> u64 \<Rightarrow> u64 \<Rightarrow> 'a kern_scheme os" where
  "OSNICRecv c stk no mbuf = int_call (syscall c stk 0x42 no mbuf 0 0)"

definition OSSysCtl :: "nat \<Rightarrow> u64 \<Rightarrow> u64 \<Rightarrow> u64 \<Rightarrow> u64 \<Rightarrow> 'a kern_scheme os" where
  "OSSysCtl c stk node oldvar newvar = int_call (syscall c stk 0x80 node oldvar newvar 0)"

definition OSFSMount :: "nat \<Rightarrow> u64 \<Rightarrow> u64 \<Rightarrow> u64 \<Rightarrow> u64 \<Rightarrow> 'a kern_scheme os" where
  "OSFSMount c stk mntpt device flags = int_call (syscall c stk 0x81 mntpt device flags 0)"

definition OSFSUnmount :: "nat \<Rightarrow> u64 \<Rightarrow> u64 \<Rightarrow> 'a kern_scheme os" where
  "OSFSUnmount c stk mntpt = int_call (syscall c stk 0x82 mntpt 0 0 0)"

definition OSFSInfo :: "nat \<Rightarrow> u64 \<Rightarrow> u64 \<Rightarrow> u64 \<Rightarrow> 'a kern_scheme os" where
  "OSFSInfo c stk info mx = int_call (syscall c stk 0x83 info mx 0 0)"

section \<open>Memory mappings\<close>

definition PROT_READ :: u64 where "PROT_READ = 1"
definition PROT_WRITE :: u64 where "PROT_WRITE = 2"
definition MAP_ANON :: u64 where "MAP_ANON = 0x20"
definition MAP_FIXED :: u64 where "MAP_FIXED = 0x40"

lemmas mman_consts = PROT_READ_def PROT_WRITE_def MAP_ANON_def MAP_FIXED_def

text \<open>\<^verbatim>\<open>getpagesizes\<close>: the result and the values stored in the array, if there is one.\<close>

definition getpagesizes :: "bool \<Rightarrow> int \<Rightarrow> int \<times> u64 list" where
  "getpagesizes pagesize nelem =
     (if pagesize then (if 3 < nelem then 3 else nelem, take (nat nelem) [PGSIZE, 0x200000, 0x40000000]) else (3, []))"

text \<open>Without \<^verbatim>\<open>MAP_ANON\<close> the process aborts and \<^verbatim>\<open>mmap\<close> does not return.\<close>

definition mmap :: "nat \<Rightarrow> u64 \<Rightarrow> u64 \<Rightarrow> u64 \<Rightarrow> u64 \<Rightarrow> u64 \<Rightarrow> 'a kern_scheme os" where
  "mmap c stk addr len prot flags s =
     (if flags AND MAP_ANON \<noteq> 0 then OSMemMap c stk addr len (prot OR flags) s
      else map_option (Pair None \<circ> snd) (OSExit c stk (- 1) s))"

definition munmap :: "nat \<Rightarrow> u64 \<Rightarrow> u64 \<Rightarrow> u64 \<Rightarrow> 'a kern_scheme os" where
  "munmap c stk addr len = OSMemUnmap c stk addr len"

definition mprotect :: "nat \<Rightarrow> u64 \<Rightarrow> u64 \<Rightarrow> u64 \<Rightarrow> u64 \<Rightarrow> 'a kern_scheme os" where
  "mprotect c stk addr len prot = OSMemProtect c stk addr len prot"

definition madvise :: "u64 \<Rightarrow> u64 \<Rightarrow> int \<Rightarrow> int" where
  "madvise addr len behav = 0"

section \<open>Processes\<close>

text \<open>The results are the value returned, a \<^verbatim>\<open>pid_t\<close> of 16 bits, and the value of \<^verbatim>\<open>errno\<close> (\<^verbatim>\<open>spawn\<close>) or
  \<^verbatim>\<open>*status\<close> (\<^verbatim>\<open>waitpid\<close>) if it is set.\<close>

definition sleep_secs :: "nat \<Rightarrow> u64 \<Rightarrow> u64 \<Rightarrow> 'a kern_scheme os" where
  "sleep_secs c stk seconds s = map_option (map_prod (map_option (\<lambda>_. 0)) (\<lambda>s. s)) (OSThreadSleep c stk seconds s)"

definition spawn_result :: "u64 \<Rightarrow> u16 \<times> u64 option" where
  "spawn_result status =
     (if SYSCALL_ERRCODE status \<noteq> 0 then (- 1, Some (SYSCALL_ERRCODE status)) else (ucast (SYSCALL_VALUE status), None))"

definition spawn :: "nat \<Rightarrow> u64 \<Rightarrow> u64 \<Rightarrow> u64 \<Rightarrow> 'a kern_scheme \<Rightarrow> ((u16 \<times> u64 option) option \<times> 'a kern_scheme) option" where
  "spawn c stk path argv s = map_option (map_prod (map_option spawn_result) (\<lambda>s. s)) (OSSpawn c stk path argv s)"

definition WAIT_ANY :: u16 where "WAIT_ANY = 0"

definition WGETPID :: "u64 \<Rightarrow> u16" where
  "WGETPID x = ucast (drop_bit 16 x)"

definition WEXITSTATUS :: "u64 \<Rightarrow> u64" where
  "WEXITSTATUS x = x AND 0xFF"

definition WIFEXITED :: "u64 \<Rightarrow> bool" where
  "WIFEXITED x \<longleftrightarrow> drop_bit 8 (x AND 0xFF00) = 0"

definition waitpid_result :: "u64 \<Rightarrow> u16 \<times> u64 option" where
  "waitpid_result wstatus =
     (if SYSCALL_ERRCODE wstatus \<noteq> 0 then (- 1, None)
      else (WGETPID (SYSCALL_VALUE wstatus), Some (SYSCALL_VALUE wstatus AND 0xFFFF)))"

definition waitpid :: "nat \<Rightarrow> u64 \<Rightarrow> u16 \<Rightarrow> 'a kern_scheme \<Rightarrow> ((u16 \<times> u64 option) option \<times> 'a kern_scheme) option" where
  "waitpid c stk ident s = map_option (map_prod (map_option waitpid_result) (\<lambda>s. s)) (OSWait c stk (ucast ident) s)"

definition wait :: "nat \<Rightarrow> u64 \<Rightarrow> 'a kern_scheme \<Rightarrow> ((u16 \<times> u64 option) option \<times> 'a kern_scheme) option" where
  "wait c stk = waitpid c stk WAIT_ANY"

section \<open>Waiting for processes\<close>

lemma Process_Wait_0: "Process_Wait p 0 s = None"
  by (simp add: Process_Wait_def)

text \<open>
  C1. Waiting for any child stops the machine: \<^verbatim>\<open>wait\<close> passes 0 to the kernel, which is documented
  to mean any process, and \<^verbatim>\<open>Process_Wait\<close> asserts that the number is not 0.
\<close>

theorem wait_any_panics:
  fixes s :: "'a kern_scheme"
  shows "wait c stk s = None"
proof -
  have "Syscall_Wait c 0 s = None"
    by (simp add: Syscall_Wait_def Process_Wait_0 bind_eq_None_conv split: prod.split)
  then show ?thesis
    by (simp add: wait_def waitpid_def WAIT_ANY_def OSWait_def syscall_def Syscall_Entry_def returns_def)
qed

text \<open>The packed status of the kernel and what the library takes out of it.\<close>

lemma pack_pid:
  fixes p :: u16
  defines "r \<equiv> SYSCALL_PACK 0 (push_bit 16 (ucast p))"
  shows "SYSCALL_ERRCODE r = 0" and "WGETPID (SYSCALL_VALUE r) = p" and "SYSCALL_VALUE r AND 0xFFFF = 0"
proof -
  have m: "0xFFFFFFFF = (mask 32 :: u64)" "0xFFFF = (mask 16 :: u64)" by (simp_all add: mask_eq_exp_minus_1)
  have b: "bit p n \<Longrightarrow> n < 16" for n using bit_imp_le_length [of p n] by simp
  show "SYSCALL_ERRCODE r = 0"
    by (rule bit_word_eqI) (auto simp: r_def SYSCALL_ERRCODE_def SYSCALL_PACK_def bit_simps dest: b)
  show "WGETPID (SYSCALL_VALUE r) = p"
    by (rule bit_word_eqI) (auto simp: r_def WGETPID_def SYSCALL_VALUE_def SYSCALL_PACK_def m bit_simps)
  show "SYSCALL_VALUE r AND 0xFFFF = 0"
    by (rule bit_word_eqI) (auto simp: r_def SYSCALL_VALUE_def SYSCALL_PACK_def m bit_simps)
qed

text \<open>
  C1. Waiting for a given child: \<^verbatim>\<open>waitpid\<close> returns the number it was given, without an error and
  with the exit status 0, whatever the child does; the placeholder in the kernel does not wait.
\<close>

theorem waitpid_returns_pid:
  fixes s :: "'a kern_scheme"
  assumes "p \<noteq> 0" and "curProc s c \<noteq> 0" and "t_refCount (thrs s (curProc s c)) \<notin> {0, - 1}"
  shows "\<exists>s'. waitpid c stk p s = Some (Some (p, Some 0), s') \<and> runnableQueue s' = runnableQueue s \<and> waitQueue s' = waitQueue s"
proof -
  let ?t = "curProc s c"
  let ?sa = "upd_thr ?t (t_refCount_update (\<lambda>c. c + 1)) s"
  have cur: "Sched_Current c s = Some (?t, ?sa)" using assms(2,3) by (simp add: Sched_Current_def Thread_Retain_def Let_def)
  have "t_refCount (thrs ?sa ?t) \<notin> {0, 1}" using assms(3) by (simp add: eq_neg_iff_add_eq_0)
  then have rel: "Thread_Release ?t ?sa = Some (upd_thr ?t (t_refCount_update (\<lambda>c. c - 1)) ?sa)" by (rule Thread_Release_keep)
  have p: "(ucast p :: u64) \<noteq> 0"
    using assms(1) pack_pid(2) [of p] by (auto simp: WGETPID_def SYSCALL_VALUE_def SYSCALL_PACK_def)
  have "Syscall_Wait c (ucast p) s = Some (SYSCALL_PACK 0 (push_bit 16 (ucast p)), upd_thr ?t (t_refCount_update (\<lambda>c. c - 1)) ?sa)"
    using cur rel p by (simp add: Syscall_Wait_def Process_Wait_def)
  then show ?thesis
    by (simp add: waitpid_def OSWait_def syscall_def Syscall_Entry_def returns_def waitpid_result_def pack_pid)
qed

theorem waitpid_returns_pid_witness: "\<exists>s'. waitpid 0 0x90000 7 (kern_state []) = Some (Some (7, Some 0), s')"
  using waitpid_returns_pid [of 7 "kern_state []" 0 "0x90000"] by auto

end
