(* ===== verification/UserHeap.thy ===== *)
theory UserHeap
  imports LibC
begin

text \<open>
  The heap of user programs (\<^verbatim>\<open>lib/libc/malloc.c\<close>): twelve pools of blocks of 64 bytes to 128 KB,
  each with a free list that is linked through the headers of the blocks, and a region for
  larger blocks.  Headers are records at the addresses of their blocks; the counters of a pool
  are never used in the source and left out.
\<close>

section \<open>Definitions\<close>

record Header =
  hd_magic :: u16
  hd_status :: u16
  hd_size :: u32
  hd_next :: u64

definition HEAP_MAGIC :: u16 where "HEAP_MAGIC = 0x8051"
definition sizeof_Header :: u64 where "sizeof_Header = 16"
definition HEAP_MAX_POOLSIZE :: u64 where "HEAP_MAX_POOLSIZE = 128 * 1024 - sizeof_Header"
definition HEAP_POOLS :: nat where "HEAP_POOLS = 12"
definition HEAP_INCREMENT :: nat where "HEAP_INCREMENT = 64"

lemmas heap_consts = HEAP_MAGIC_def sizeof_Header_def HEAP_MAX_POOLSIZE_def HEAP_POOLS_def HEAP_INCREMENT_def

text \<open>\<open>pfree i\<close> and \<open>ptop i\<close> are \<^verbatim>\<open>pool[i].free\<close> and \<^verbatim>\<open>pool[i].top\<close>, \<open>largeTop\<close> is \<^verbatim>\<open>largePool.top\<close>.\<close>

record uheap = kern +
  hdrs :: "u64 \<Rightarrow> Header"
  pfree :: "nat \<Rightarrow> u64"
  ptop :: "nat \<Rightarrow> u64"
  largeTop :: u64

definition pool_base :: "nat \<Rightarrow> u64" where
  "pool_base i = 0x400000000 + of_nat i * 0x10000000"

definition large_base :: u64 where "large_base = 0x4C000000"

definition heap_start :: "'a uheap_scheme \<Rightarrow> 'a uheap_scheme" where
  "heap_start s = s\<lparr>pfree := (\<lambda>_. 0), ptop := pool_base, largeTop := large_base\<rparr>"

partial_function (option) size_to_idx_loop :: "u64 \<Rightarrow> u64 \<Rightarrow> nat \<Rightarrow> nat option" where
  "size_to_idx_loop sz bucketSz i =
     (if sz \<le> bucketSz - sizeof_Header then Some i else size_to_idx_loop sz (bucketSz * 2) (i + 1))"

definition size_to_idx :: "u64 \<Rightarrow> nat option" where
  "size_to_idx sz = size_to_idx_loop sz 64 0"

definition bucket_size :: "nat \<Rightarrow> u64" where
  "bucket_size idx = of_nat (2 ^ idx * 64)"

text \<open>The body of the loop of \<^verbatim>\<open>grow_small\<close>.\<close>

definition grow_block :: "nat \<Rightarrow> u64 \<Rightarrow> nat \<Rightarrow> 'a uheap_scheme \<Rightarrow> 'a uheap_scheme" where
  "grow_block idx addr i s =
     (let obj = addr + of_nat i * bucket_size idx
      in s\<lparr>hdrs := (hdrs s)(obj := \<lparr>hd_magic = HEAP_MAGIC, hd_status = 0,
             hd_size = ucast (bucket_size idx - sizeof_Header), hd_next = pfree s idx\<rparr>),
           pfree := (pfree s)(idx := obj)\<rparr>)"

text \<open>A call that maps memory returns to the caller, so the CPU runs the same thread.\<close>

definition map_anon :: "nat \<Rightarrow> u64 \<Rightarrow> u64 \<Rightarrow> u64 \<Rightarrow> 'a kern_scheme \<Rightarrow> (u64 \<times> 'a kern_scheme) option" where
  "map_anon c stk addr len s = do {
     (r, s) \<leftarrow> mmap c stk addr len (PROT_READ OR PROT_WRITE) (MAP_ANON OR MAP_FIXED) s;
     r \<leftarrow> r;
     Some (r, s)
   }"

definition grow_small :: "nat \<Rightarrow> u64 \<Rightarrow> nat \<Rightarrow> 'a uheap_scheme \<Rightarrow> 'a uheap_scheme option" where
  "grow_small c stk idx s = do {
     let len = bucket_size idx * of_nat HEAP_INCREMENT;
     (addr, s) \<leftarrow> map_anon c stk (ptop s idx) len s;
     Some (if addr = 0 then s
           else fold (grow_block idx addr) [0..<HEAP_INCREMENT] (s\<lparr>ptop := (ptop s)(idx := ptop s idx + len)\<rparr>))
   }"

definition malloc_small :: "nat \<Rightarrow> u64 \<Rightarrow> u64 \<Rightarrow> 'a uheap_scheme \<Rightarrow> (u64 \<times> 'a uheap_scheme) option" where
  "malloc_small c stk sz s = do {
     idx \<leftarrow> size_to_idx sz;
     kassert (idx < HEAP_POOLS);
     s \<leftarrow> (if pfree s idx = 0 then grow_small c stk idx s else Some s);
     let hdr = pfree s idx;
     Some (if hdr = 0 then (0, s)
           else (hdr + sizeof_Header, s\<lparr>pfree := (pfree s)(idx := hd_next (hdrs s hdr))\<rparr>))
   }"

definition free_small :: "u64 \<Rightarrow> 'a uheap_scheme \<Rightarrow> 'a uheap_scheme option" where
  "free_small blk s = do {
     idx \<leftarrow> size_to_idx (ucast (hd_size (hdrs s blk)));
     kassert (idx < HEAP_POOLS);
     Some (s\<lparr>hdrs := (hdrs s)(blk := (hdrs s blk)\<lparr>hd_next := pfree s idx\<rparr>), pfree := (pfree s)(idx := blk)\<rparr>)
   }"

definition malloc_large :: "nat \<Rightarrow> u64 \<Rightarrow> u64 \<Rightarrow> 'a uheap_scheme \<Rightarrow> (u64 \<times> 'a uheap_scheme) option" where
  "malloc_large c stk sz s = do {
     let realSz = ROUNDUP sz 4096;
     (addr, s) \<leftarrow> map_anon c stk (largeTop s) realSz s;
     Some (if addr = 0 then (0, s)
           else (addr + sizeof_Header,
                 s\<lparr>hdrs := (hdrs s)(addr := \<lparr>hd_magic = HEAP_MAGIC, hd_status = 0, hd_size = ucast realSz, hd_next = 0\<rparr>),
                   largeTop := largeTop s + realSz\<rparr>))
   }"

definition free_large :: "nat \<Rightarrow> u64 \<Rightarrow> u64 \<Rightarrow> 'a uheap_scheme \<Rightarrow> 'a uheap_scheme option" where
  "free_large c stk blk s = do {
     (r, s) \<leftarrow> munmap c stk blk (ucast (hd_size (hdrs s blk))) s;
     v \<leftarrow> r;
     Some s
   }"

definition malloc :: "nat \<Rightarrow> u64 \<Rightarrow> u64 \<Rightarrow> 'a uheap_scheme \<Rightarrow> (u64 \<times> 'a uheap_scheme) option" where
  "malloc c stk sz s = (if HEAP_MAX_POOLSIZE < sz then malloc_large c stk sz s else malloc_small c stk sz s)"

definition calloc :: "nat \<Rightarrow> u64 \<Rightarrow> u64 \<Rightarrow> u64 \<Rightarrow> 'a uheap_scheme \<Rightarrow> (u64 \<times> 'a uheap_scheme) option" where
  "calloc c stk num sz = malloc c stk (num * sz)"

definition free :: "nat \<Rightarrow> u64 \<Rightarrow> u64 \<Rightarrow> 'a uheap_scheme \<Rightarrow> 'a uheap_scheme option" where
  "free c stk blk s =
     (if blk = 0 then Some s
      else let hdr = blk - sizeof_Header in do {
        kassert (hd_magic (hdrs s hdr) = HEAP_MAGIC);
        if HEAP_MAX_POOLSIZE < ucast (hd_size (hdrs s hdr)) then free_large c stk hdr s else free_small hdr s
      })"

section \<open>Blocks\<close>

definition bsize :: "nat \<Rightarrow> nat" where "bsize i = 64 * 2 ^ i"

definition baddr :: "nat \<Rightarrow> nat \<Rightarrow> nat" where
  "baddr i k = 0x400000000 + i * 0x10000000 + k * bsize i"

definition blk :: "nat \<Rightarrow> nat \<Rightarrow> u64" where
  "blk i k = of_nat (baddr i k)"

text \<open>Block \<open>k\<close> of pool \<open>i\<close> is in the 256 MB that the pool may grow to.\<close>

definition fits :: "nat \<Rightarrow> nat \<Rightarrow> bool" where
  "fits i k \<longleftrightarrow> i < HEAP_POOLS \<and> (k + 1) * bsize i \<le> 0x10000000"

lemma baddr_bound:
  assumes "fits i k"
  shows "baddr i k + bsize i \<le> 0x400000000 + (i + 1) * 0x10000000" and "0x400000000 + i * 0x10000000 \<le> baddr i k"
    and "baddr i k + bsize i \<le> 0x4C0000000"
  using assms by (auto simp: fits_def baddr_def HEAP_POOLS_def)

lemma bsize_ge: "64 \<le> bsize i"
  by (simp add: bsize_def)

lemma unat_blk: "fits i k \<Longrightarrow> unat (blk i k) = baddr i k"
  using baddr_bound(3) [of i k] by (simp add: blk_def unsigned_of_nat take_bit_eq_mod)

lemma blk_nz: "fits i k \<Longrightarrow> blk i k \<noteq> 0"
  using unat_blk [of i k] baddr_bound(2) [of i k] by auto

lemma baddr_apart:
  assumes "fits i k" and "fits j l" and "i \<noteq> j \<or> k \<noteq> l"
  shows "baddr i k + bsize i \<le> baddr j l \<or> baddr j l + bsize j \<le> baddr i k"
proof -
  have *: "baddr i k + bsize i \<le> baddr j l" if "fits i k" "fits j l" "i < j" for i j k l
  proof -
    have "(i + 1) * 0x10000000 \<le> j * 0x10000000" using that(3) by simp
    then show ?thesis using baddr_bound(1) [OF that(1)] baddr_bound(2) [OF that(2)] by linarith
  qed
  have **: "baddr i k + bsize i \<le> baddr i l" if "k < l" for i k l
  proof -
    have "(k + 1) * bsize i \<le> l * bsize i" using that by (intro mult_right_mono) auto
    then show ?thesis by (simp add: baddr_def)
  qed
  consider "i < j" | "j < i" | "i = j" "k < l" | "i = j" "l < k" using assms(3) by linarith
  then show ?thesis using * [OF assms(1,2)] * [OF assms(2,1)] ** by cases auto
qed

lemma blk_inj:
  assumes "fits i k" and "fits j l"
  shows "blk i k = blk j l \<longleftrightarrow> i = j \<and> k = l"
  using baddr_apart [OF assms] unat_blk [OF assms(1)] unat_blk [OF assms(2)] bsize_ge [of i] bsize_ge [of j] by fastforce

lemma bucket_size_unat: "i < HEAP_POOLS \<Longrightarrow> unat (bucket_size i) = bsize i \<and> bsize i \<le> 131072"
proof -
  assume "i < HEAP_POOLS"
  then have "(2 :: nat) ^ i \<le> 2 ^ 11" by (intro power_increasing) (auto simp: HEAP_POOLS_def)
  then have b: "2 ^ i * 64 \<le> (131072 :: nat)" by simp
  then have "unat (of_nat (2 ^ i * 64) :: u64) = 2 ^ i * 64" by (simp only: unsigned_of_nat take_bit_eq_mod) simp
  with b show ?thesis by (simp add: bucket_size_def bsize_def mult.commute)
qed

lemma blk_step: "blk i k + of_nat n * bucket_size i = blk i (k + n)"
  by (simp add: blk_def baddr_def bucket_size_def bsize_def algebra_simps)

lemma pool_base_blk: "pool_base i = blk i 0"
  by (simp add: pool_base_def blk_def baddr_def)

section \<open>The pool of a size\<close>

lemma size_loop:
  assumes "\<And>m. i \<le> m \<Longrightarrow> m < j \<Longrightarrow> bsize m < unat sz + 16" and "unat sz + 16 \<le> bsize j" and "i \<le> j" and "j < HEAP_POOLS"
  shows "size_to_idx_loop sz (bucket_size i) i = Some j"
  using assms
proof (induction "j - i" arbitrary: i)
  case 0
  then have "i = j" by simp
  have "unat (bucket_size j - sizeof_Header) = bsize j - 16"
    using bucket_size_unat [OF 0(5)] bsize_ge [of j] by (subst unat_sub) (auto simp: word_le_nat_alt sizeof_Header_def)
  then have "sz \<le> bucket_size j - sizeof_Header" using 0(3) by (simp add: word_le_nat_alt)
  then show ?case unfolding \<open>i = j\<close> by (subst size_to_idx_loop.simps) simp
next
  case (Suc d)
  then have i: "i < j" "i < HEAP_POOLS" by auto
  have u: "unat (bucket_size i - sizeof_Header) = bsize i - 16"
    using bucket_size_unat [OF i(2)] bsize_ge [of i] by (subst unat_sub) (auto simp: word_le_nat_alt sizeof_Header_def)
  have "\<not> sz \<le> bucket_size i - sizeof_Header" using Suc.prems(1) [of i] i(1) u bsize_ge [of i] by (simp add: word_le_nat_alt)
  moreover have "bucket_size i * 2 = bucket_size (i + 1)" by (simp add: bucket_size_def)
  moreover have "size_to_idx_loop sz (bucket_size (i + 1)) (i + 1) = Some j"
    using Suc.hyps(1) [of "i + 1"] Suc.hyps(2) Suc.prems i by simp
  ultimately show ?case by (subst size_to_idx_loop.simps) simp
qed

lemma bsize_mono: "i < j \<Longrightarrow> bsize i * 2 \<le> bsize j"
proof -
  assume "i < j"
  then have "(2 :: nat) ^ (i + 1) \<le> 2 ^ j" by (intro power_increasing) auto
  then show ?thesis by (simp add: bsize_def)
qed

lemma size_to_idx_ok:
  assumes "sz \<le> HEAP_MAX_POOLSIZE"
  obtains j where "size_to_idx sz = Some j" "j < HEAP_POOLS" "unat sz + 16 \<le> bsize j"
proof -
  define j where "j = (LEAST j. unat sz + 16 \<le> bsize j)"
  have m: "unat sz + 16 \<le> bsize 11" using assms by (simp add: bsize_def heap_consts word_le_nat_alt)
  have 1: "unat sz + 16 \<le> bsize j" unfolding j_def by (rule LeastI, rule m)
  have 2: "j \<le> 11" unfolding j_def by (rule Least_le, rule m)
  have 3: "bsize k < unat sz + 16" if "k < j" for k using not_less_Least [OF that [unfolded j_def]] by simp
  have "size_to_idx_loop sz (bucket_size 0) 0 = Some j" by (rule size_loop) (use 1 2 3 in \<open>auto simp: HEAP_POOLS_def\<close>)
  then have "size_to_idx sz = Some j" by (simp add: size_to_idx_def bucket_size_def)
  with 1 2 that show thesis by (simp add: HEAP_POOLS_def)
qed

text \<open>The pool of the size that a block records is the pool of the block.\<close>

lemma size_to_idx_block:
  assumes "i < HEAP_POOLS"
  shows "size_to_idx (ucast (ucast (bucket_size i - sizeof_Header) :: u32)) = Some i"
    and "\<not> HEAP_MAX_POOLSIZE < ucast (ucast (bucket_size i - sizeof_Header) :: u32)"
proof -
  note b = bucket_size_unat [OF assms]
  have u: "unat (bucket_size i - sizeof_Header) = bsize i - 16"
    using b bsize_ge [of i] by (subst unat_sub) (auto simp: word_le_nat_alt sizeof_Header_def)
  have c: "unat (ucast (ucast (bucket_size i - sizeof_Header) :: u32) :: u64) = bsize i - 16"
  proof -
    have "bsize i - 16 < 4294967296" using b by linarith
    then have "(bsize i - 16) mod 4294967296 = bsize i - 16" by (rule mod_less)
    with u show ?thesis by (simp add: unsigned_ucast_eq unsigned_take_bit_eq take_bit_eq_mod unat_mod)
  qed
  show "\<not> HEAP_MAX_POOLSIZE < ucast (ucast (bucket_size i - sizeof_Header) :: u32)"
    using c b by (simp add: word_less_nat_alt heap_consts) linarith
  have "size_to_idx_loop (ucast (ucast (bucket_size i - sizeof_Header) :: u32)) (bucket_size 0) 0 = Some i"
  proof (rule size_loop)
    show "bsize m < unat (ucast (ucast (bucket_size i - sizeof_Header) :: u32) :: u64) + 16" if "m < i" for m
      using c bsize_mono [OF that] bsize_ge [of m] by linarith
  qed (use c bsize_ge [of i] assms in simp_all)
  then show "size_to_idx (ucast (ucast (bucket_size i - sizeof_Header) :: u32)) = Some i"
    by (simp add: size_to_idx_def bucket_size_def)
qed

section \<open>Free lists\<close>

fun chain :: "(u64 \<Rightarrow> Header) \<Rightarrow> u64 \<Rightarrow> u64 list \<Rightarrow> bool" where
  "chain H p [] \<longleftrightarrow> p = 0"
| "chain H p (x # xs) \<longleftrightarrow> p = x \<and> x \<noteq> 0 \<and> chain H (hd_next (H x)) xs"

lemma chain_cong: "(\<And>x. x \<in> set xs \<Longrightarrow> hd_next (H' x) = hd_next (H x)) \<Longrightarrow> chain H' p xs = chain H p xs"
  by (induction xs arbitrary: p) auto

lemma chain_nil: "chain H 0 xs \<longleftrightarrow> xs = []"
  by (cases xs) auto

text \<open>
  The invariant of the heap for the number \<open>N i\<close> of blocks in each pool and the set \<open>L\<close> of
  blocks in use: the free list of a pool has each of its blocks that is not in use once, and
  every block has the header that \<^verbatim>\<open>grow_small\<close> gave it, apart from the link.
\<close>

definition pool_ok :: "nat \<Rightarrow> nat \<Rightarrow> u64 set \<Rightarrow> 'a uheap_scheme \<Rightarrow> bool" where
  "pool_ok i n L s \<longleftrightarrow>
     ptop s i = blk i n \<and> HEAP_INCREMENT dvd n \<and> n * bsize i \<le> 0x10000000 \<and>
     (\<forall>k < n. hd_magic (hdrs s (blk i k)) = HEAP_MAGIC \<and> hd_size (hdrs s (blk i k)) = ucast (bucket_size i - sizeof_Header)) \<and>
     (\<exists>xs. chain (hdrs s) (pfree s i) xs \<and> distinct xs \<and> set xs = blk i ` {..<n} - L)"

definition heap_ok :: "(nat \<Rightarrow> nat) \<Rightarrow> u64 set \<Rightarrow> 'a uheap_scheme \<Rightarrow> bool" where
  "heap_ok N L s \<longleftrightarrow> (\<forall>i < HEAP_POOLS. pool_ok i (N i) L s) \<and> L \<subseteq> (\<Union>i < HEAP_POOLS. blk i ` {..<N i})"

lemma fits_le: "fits i l \<Longrightarrow> k \<le> l \<Longrightarrow> fits i k"
  unfolding fits_def using mult_le_mono1 [of "k + 1" "l + 1" "bsize i"] by linarith

lemma pool_fits: "pool_ok i n L s \<Longrightarrow> i < HEAP_POOLS \<Longrightarrow> k < n \<Longrightarrow> fits i k"
proof -
  assume "pool_ok i n L s" "i < HEAP_POOLS" "k < n"
  then have "(k + 1) * bsize i \<le> n * bsize i" and "n * bsize i \<le> 0x10000000"
    by (simp_all only: pool_ok_def mult_le_mono1 Suc_leI add_Suc_right add_0_right One_nat_def)
  then have "(k + 1) * bsize i \<le> 0x10000000" by (rule order_trans)
  then show ?thesis using \<open>i < HEAP_POOLS\<close> by (simp only: fits_def)
qed

lemma pool_ok_cong:
  assumes "ptop s' i = ptop s i" "pfree s' i = pfree s i" and "\<And>k. k < n \<Longrightarrow> hdrs s' (blk i k) = hdrs s (blk i k)"
    and "blk i ` {..<n} - L' = blk i ` {..<n} - L"
  shows "pool_ok i n L' s' = pool_ok i n L s"
proof -
  have c: "chain (hdrs s') (pfree s i) xs = chain (hdrs s) (pfree s i) xs" if "set xs = blk i ` {..<n} - L" for xs
    using assms(3) that by (intro chain_cong) auto
  have "(\<exists>xs. chain (hdrs s') (pfree s i) xs \<and> distinct xs \<and> set xs = blk i ` {..<n} - L) \<longleftrightarrow>
     (\<exists>xs. chain (hdrs s) (pfree s i) xs \<and> distinct xs \<and> set xs = blk i ` {..<n} - L)" using c by metis
  then show ?thesis unfolding pool_ok_def assms(1,2,4) using assms(3) by simp
qed

text \<open>Blocks of other pools are other addresses.\<close>

lemma other_pool:
  assumes "heap_ok N L s" and "i < HEAP_POOLS" and "j < HEAP_POOLS" and "j \<noteq> i" and "k < N i" and "l < N j"
  shows "blk i k \<noteq> blk j l"
  using blk_inj [OF pool_fits pool_fits, of i "N i" L s k j "N j" L s l] assms by (auto simp: heap_ok_def)

section \<open>Growing a pool\<close>

lemma grow_fold:
  fixes s :: "'a uheap_scheme" and i n m :: nat
  assumes "fits i (n + m - 1)" and "0 < m"
  defines "s' \<equiv> fold (grow_block i (blk i n)) [0..<m] s"
  shows "pfree s' = (pfree s)(i := blk i (n + m - 1))" and "ptop s' = ptop s"
    and "\<And>x. x \<notin> blk i ` {n..<n + m} \<Longrightarrow> hdrs s' x = hdrs s x"
    and "\<And>k. k < m \<Longrightarrow> hdrs s' (blk i (n + k)) = \<lparr>hd_magic = HEAP_MAGIC, hd_status = 0,
      hd_size = ucast (bucket_size i - sizeof_Header), hd_next = (if k = 0 then pfree s i else blk i (n + k - 1))\<rparr>"
proof -
  let ?f = "\<lambda>m. fold (grow_block i (blk i n)) [0..<m] s"
  have fits: "fits i (n + k)" if "k < m" for k
    by (rule fits_le [OF assms(1)]) (use that in simp)
  have *: "pfree (?f l) = (if l = 0 then pfree s else (pfree s)(i := blk i (n + l - 1))) \<and> ptop (?f l) = ptop s \<and>
    (\<forall>x. x \<notin> blk i ` {n..<n + l} \<longrightarrow> hdrs (?f l) x = hdrs s x) \<and>
    (\<forall>k < l. hdrs (?f l) (blk i (n + k)) = \<lparr>hd_magic = HEAP_MAGIC, hd_status = 0,
      hd_size = ucast (bucket_size i - sizeof_Header), hd_next = (if k = 0 then pfree s i else blk i (n + k - 1))\<rparr>)"
    if "l \<le> m" for l
    using that
  proof (induction l)
    case (Suc l)
    have ne: "blk i (n + k) \<noteq> blk i (n + l)" if "k < l" for k
      using that Suc.prems blk_inj [OF fits fits, of k l] by simp
    have im: "blk i ` {n..<n + Suc l} = insert (blk i (n + l)) (blk i ` {n..<n + l})"
      by (simp add: atLeastLessThanSuc)
    obtain t where t: "?f l = t" by simp
    have f: "?f (Suc l) = grow_block i (blk i n) l t" by (simp add: t)
    show ?case unfolding f im using Suc.IH [unfolded t] Suc.prems ne
      by (auto simp: grow_block_def Let_def blk_step less_Suc_eq)
  qed simp
  from * [of m] assms(2) show "pfree s' = (pfree s)(i := blk i (n + m - 1))" and "ptop s' = ptop s"
    and "\<And>x. x \<notin> blk i ` {n..<n + m} \<Longrightarrow> hdrs s' x = hdrs s x"
    and "\<And>k. k < m \<Longrightarrow> hdrs s' (blk i (n + k)) = \<lparr>hd_magic = HEAP_MAGIC, hd_status = 0,
      hd_size = ucast (bucket_size i - sizeof_Header), hd_next = (if k = 0 then pfree s i else blk i (n + k - 1))\<rparr>"
    unfolding s'_def by simp_all
qed

section \<open>Mapping the memory of a pool\<close>

definition runs :: "nat \<Rightarrow> 'a kern_scheme \<Rightarrow> bool" where
  "runs c s \<longleftrightarrow> curProc s c \<noteq> 0 \<and> t_refCount (thrs s (curProc s c)) \<notin> {0, - 1}"

lemma kern_more_vmem: "vmem.more s = vmem.more t \<Longrightarrow> kern.more s = kern.more t" for s t :: "'a kern_scheme"
  by (cases s, cases t, simp)

lemma map_anon_keep:
  fixes s :: "'a kern_scheme"
  assumes "runs c s" and "map_anon c stk a len s = Some (r, s')"
  shows "r = a" and "kern.more s' = kern.more s" and "runs c s'"
proof -
  let ?t = "curProc s c"
  let ?s1 = "upd_thr ?t (t_refCount_update (\<lambda>r. r + 1)) s"
  obtain s2 where s2: "PMap_AllocMap (t_space (thrs ?s1 ?t)) a len PTE_W ?s1 = Some s2"
    and r: "r = a" and rel: "Thread_Release ?t s2 = Some s'"
    using assms by (auto simp: map_anon_def mmap_def OSMemMap_def syscall_def Syscall_Entry_def Syscall_MMap_def Sched_Current_def
        Thread_Retain_def runs_def mman_consts returns_def bind_eq_Some_conv Let_def split: if_splits)
  note f = kern_fields [OF kslabs_from_vmem [OF PMap_AllocMap_more [OF s2]]]
  have "t_refCount (thrs s2 ?t) \<notin> {0, 1}"
    using assms(1) by (auto simp: f runs_def eq_neg_iff_add_eq_0)
  then have s': "s' = upd_thr ?t (t_refCount_update (\<lambda>c. c - 1)) s2" using rel by (simp add: Thread_Release_keep)
  show "kern.more s' = kern.more s" using kern_more_vmem [OF PMap_AllocMap_more [OF s2]] by (simp add: s' upd_thr_def)
  show "runs c s'" using assms(1) by (simp add: s' f runs_def)
qed (use assms in \<open>auto simp: map_anon_def mmap_def OSMemMap_def syscall_def Syscall_Entry_def Syscall_MMap_def mman_consts
       returns_def bind_eq_Some_conv\<close>)

lemma uheap_fields:
  fixes s t :: "'a uheap_scheme"
  assumes "kern.more s = kern.more t"
  shows "hdrs s = hdrs t" "pfree s = pfree t" "ptop s = ptop t" "largeTop s = largeTop t"
  using assms by (cases s, cases t, simp)+

lemma chain_last: "chain H p xs \<Longrightarrow> p \<noteq> 0 \<Longrightarrow> \<exists>ys. xs = p # ys \<and> chain H (hd_next (H p)) ys"
  by (cases xs) auto

text \<open>A pool whose blocks are all in use grows by 64 blocks, which are all free.\<close>

lemma blks_chain:
  assumes "\<And>k. k < m \<Longrightarrow> hd_next (H (blk i (n + k))) = (if k = 0 then 0 else blk i (n + k - 1))"
    and "\<And>k. k < m \<Longrightarrow> blk i (n + k) \<noteq> 0" and "0 < m"
  shows "chain H (blk i (n + m - 1)) (map (\<lambda>k. blk i (n + k)) (rev [0..<m]))"
  using assms
proof (induction m)
  case (Suc m)
  have "chain H (hd_next (H (blk i (n + m)))) (map (\<lambda>k. blk i (n + k)) (rev [0..<m]))"
    using Suc.IH Suc.prems(1,2) by (cases "m = 0") auto
  then show ?case using Suc.prems(2) [of m] by simp
qed simp

lemma pool_free_set: "pool_ok i n L s \<Longrightarrow> pfree s i = 0 \<longleftrightarrow> blk i ` {..<n} \<subseteq> L"
proof -
  assume "pool_ok i n L s"
  then obtain xs where "chain (hdrs s) (pfree s i) xs" "set xs = blk i ` {..<n} - L" by (auto simp: pool_ok_def)
  then show ?thesis by (cases xs) auto
qed

lemma grow_pool:
  fixes s :: "'a uheap_scheme" and i n :: nat
  defines "m \<equiv> HEAP_INCREMENT"
  defines "s' \<equiv> fold (grow_block i (blk i n)) [0..<m] (s\<lparr>ptop := (ptop s)(i := ptop s i + bucket_size i * of_nat m)\<rparr>)"
  assumes "pool_ok i n L s" and "blk i ` {..<n} \<subseteq> L" and "fits i (n + m - 1)" and "L \<inter> blk i ` {n..<n + m} = {}"
  shows "pool_ok i (n + m) L s'" and "pfree s' i \<noteq> 0"
    and "\<And>j. j \<noteq> i \<Longrightarrow> pfree s' j = pfree s j \<and> ptop s' j = ptop s j"
    and "\<And>x. x \<notin> blk i ` {n..<n + m} \<Longrightarrow> hdrs s' x = hdrs s x"
proof -
  let ?s = "s\<lparr>ptop := (ptop s)(i := ptop s i + bucket_size i * of_nat m)\<rparr>"
  have m: "0 < m" by (simp add: m_def HEAP_INCREMENT_def)
  have f: "fits i k" if "k < n + m" for k by (rule fits_le [OF assms(5)]) (use that in simp)
  note g = grow_fold [OF assms(5) m, where s = ?s, folded s'_def]
  show "\<And>j. j \<noteq> i \<Longrightarrow> pfree s' j = pfree s j \<and> ptop s' j = ptop s j"
    and frame: "\<And>x. x \<notin> blk i ` {n..<n + m} \<Longrightarrow> hdrs s' x = hdrs s x" using g(1-3) by auto
  have ne: "blk i k \<noteq> blk i l" if "k < n + m" "l < n + m" "k \<noteq> l" for k l using blk_inj [OF f f, of k l] that by simp
  have p: "pfree s i = 0" using pool_free_set [OF assms(3)] assms(4) by blast
  have old: "hdrs s' (blk i k) = hdrs s (blk i k)" if "k < n" for k
    by (rule frame) (use ne that in fastforce)
  have new: "hdrs s' (blk i (n + k)) = \<lparr>hd_magic = HEAP_MAGIC, hd_status = 0,
      hd_size = ucast (bucket_size i - sizeof_Header), hd_next = (if k = 0 then 0 else blk i (n + k - 1))\<rparr>" if "k < m" for k
    using g(4) [OF that] p by simp
  let ?xs = "map (\<lambda>k. blk i (n + k)) (rev [0..<m])"
  have c: "chain (hdrs s') (pfree s' i) ?xs" unfolding g(1) fun_upd_same
    by (rule blks_chain) (use new blk_nz [OF f] m in simp_all)
  have "inj_on (\<lambda>k. blk i (n + k)) {..<m}" by (rule inj_onI) (use ne in \<open>metis add_left_cancel lessThan_iff nat_add_left_cancel_less\<close>)
  then have d: "distinct ?xs" by (simp add: distinct_map lessThan_atLeast0)
  have "blk i ` {..<n + m} = blk i ` {..<n} \<union> blk i ` {n..<n + m}" by (simp add: image_Un [symmetric] ivl_disj_un)
  moreover have "{n..<n + m} = (\<lambda>k. n + k) ` {0..<m}" by (simp add: add.commute)
  then have "set ?xs = blk i ` {n..<n + m}" by (simp only: image_image set_map set_rev set_upt)
  ultimately have e: "set ?xs = blk i ` {..<n + m} - L" using assms(4,6) by auto
  have top: "ptop s' i = blk i (n + m)" using assms(3) blk_step [of i n m] by (simp add: g(2) pool_ok_def mult.commute)
  have bound: "(n + m) * bsize i \<le> 0x10000000" using assms(5) m by (simp add: fits_def)
  have hd: "hd_magic (hdrs s' (blk i k)) = HEAP_MAGIC \<and> hd_size (hdrs s' (blk i k)) = ucast (bucket_size i - sizeof_Header)"
    if "k < n + m" for k
    using old [of k] new [of "k - n"] that assms(3) by (cases "k < n") (simp_all add: pool_ok_def)
  have dv: "HEAP_INCREMENT dvd n + m" using assms(3) by (simp add: pool_ok_def m_def)
  show "pool_ok i (n + m) L s'" unfolding pool_ok_def using top bound hd c d e dv by blast
  show "pfree s' i \<noteq> 0" using g(1) blk_nz [OF assms(5)] by simp
qed

section \<open>Allocating and freeing\<close>

lemma heap_finite: "heap_ok N L s \<Longrightarrow> finite L"
  by (rule finite_subset [of _ "\<Union>i < HEAP_POOLS. blk i ` {..<N i}"]) (auto simp: heap_ok_def)

lemma heap_live_block:
  assumes "heap_ok N L s" and "b \<in> L"
  obtains i k where "i < HEAP_POOLS" "k < N i" "b = blk i k"
  using assms by (auto simp: heap_ok_def)

lemma heap_okI:
  assumes "pool_ok i (N i) L s" and "\<And>j. j \<noteq> i \<Longrightarrow> j < HEAP_POOLS \<Longrightarrow> pool_ok j (N j) L s"
    and "\<And>b. b \<in> L \<Longrightarrow> \<exists>j < HEAP_POOLS. \<exists>k < N j. b = blk j k"
  shows "heap_ok N L s"
  unfolding heap_ok_def
proof (intro conjI allI impI)
  show "pool_ok j (N j) L s" if "j < HEAP_POOLS" for j using assms(1,2) that by (cases "j = i") auto
qed (use assms(3) in blast)

text \<open>Taking the first block of a free list.\<close>

lemma pool_take:
  assumes "heap_ok N L s" and "i < HEAP_POOLS" and "pfree s i \<noteq> 0"
  shows "heap_ok N (insert (pfree s i) L) (s\<lparr>pfree := (pfree s)(i := hd_next (hdrs s (pfree s i)))\<rparr>)"
    and "pfree s i \<notin> L" and "\<exists>k < N i. pfree s i = blk i k"
proof -
  let ?b = "pfree s i" and ?s = "s\<lparr>pfree := (pfree s)(i := hd_next (hdrs s (pfree s i)))\<rparr>"
  have P: "pool_ok i (N i) L s" using assms(1,2) by (simp add: heap_ok_def)
  then obtain xs where xs: "chain (hdrs s) ?b xs" "distinct xs" "set xs = blk i ` {..<N i} - L"
    unfolding pool_ok_def by blast
  obtain ys where "xs = ?b # ys" and ys1: "chain (hdrs s) (hd_next (hdrs s ?b)) ys" using chain_last [OF xs(1) assms(3)] by blast
  with xs have ys: "chain (hdrs s) (hd_next (hdrs s ?b)) ys" "distinct (?b # ys)" "set (?b # ys) = blk i ` {..<N i} - L"
    by simp_all
  from ys(3) show "?b \<notin> L" and k: "\<exists>k < N i. ?b = blk i k" by auto
  have "set ys = blk i ` {..<N i} - insert ?b L" using ys(2,3) by auto
  then have "pool_ok i (N i) (insert ?b L) ?s" using P ys(1,2) unfolding pool_ok_def by (intro conjI exI [of _ ys]) simp_all
  moreover have "pool_ok j (N j) (insert ?b L) ?s" if "j \<noteq> i" "j < HEAP_POOLS" for j
  proof -
    have "?b \<notin> blk j ` {..<N j}" using k other_pool [OF assms(1) assms(2) that(2,1)] by fastforce
    then have "pool_ok j (N j) (insert ?b L) ?s = pool_ok j (N j) L s" using that(1) by (intro pool_ok_cong) auto
    then show ?thesis using assms(1) that(2) by (simp add: heap_ok_def)
  qed
  ultimately show "heap_ok N (insert ?b L) ?s"
    by (rule heap_okI) (use assms(1,2) k heap_live_block [OF assms(1)] in blast)+
qed

text \<open>Putting a block back.\<close>

lemma pool_put:
  assumes "heap_ok N L s" and "i < HEAP_POOLS" and "k < N i" and "blk i k \<in> L"
  shows "heap_ok N (L - {blk i k}) (s\<lparr>hdrs := (hdrs s)(blk i k := (hdrs s (blk i k))\<lparr>hd_next := pfree s i\<rparr>),
    pfree := (pfree s)(i := blk i k)\<rparr>)" (is "heap_ok N ?L ?s")
proof -
  let ?b = "blk i k"
  have P: "pool_ok i (N i) L s" using assms(1,2) by (simp add: heap_ok_def)
  then obtain xs where xs: "chain (hdrs s) (pfree s i) xs" "distinct xs" "set xs = blk i ` {..<N i} - L"
    by (auto simp: pool_ok_def)
  have b: "?b \<notin> set xs" "?b \<noteq> 0" using assms xs(3) blk_nz [OF pool_fits [OF P]] by auto
  have "chain (hdrs ?s) (pfree s i) xs" using xs(1) b(1) by (subst chain_cong) auto
  then have "chain (hdrs ?s) (pfree ?s i) (?b # xs)" using b by simp
  moreover have "set (?b # xs) = blk i ` {..<N i} - ?L" using xs(3) assms(3,4) by auto
  moreover have "distinct (?b # xs)" using xs(2) b(1) by simp
  ultimately have "pool_ok i (N i) ?L ?s" using P unfolding pool_ok_def by (intro conjI exI [of _ "?b # xs"]) auto
  moreover have "pool_ok j (N j) ?L ?s" if "j \<noteq> i" "j < HEAP_POOLS" for j
  proof -
    have ne: "blk j l \<noteq> ?b" if "l < N j" for l using other_pool [OF assms(1,2) \<open>j < HEAP_POOLS\<close> \<open>j \<noteq> i\<close> assms(3) that] by simp
    have "pool_ok j (N j) ?L ?s = pool_ok j (N j) L s" using that(1) ne by (intro pool_ok_cong) auto
    then show ?thesis using assms(1) that(2) by (simp add: heap_ok_def)
  qed
  ultimately show ?thesis by (rule heap_okI) (use heap_live_block [OF assms(1)] in blast)+
qed

lemma free_live:
  assumes "heap_ok N L s" and "b \<in> L"
  obtains s' where "free c stk (b + sizeof_Header) s = Some s'" "heap_ok N (L - {b}) s'"
    "thrs s' = thrs s" "curProc s' = curProc s"
proof -
  obtain i k where b: "i < HEAP_POOLS" "k < N i" "b = blk i k" using heap_live_block [OF assms] .
  have P: "pool_ok i (N i) L s" using assms(1) b(1) by (simp add: heap_ok_def)
  have h: "hd_magic (hdrs s b) = HEAP_MAGIC" "hd_size (hdrs s b) = ucast (bucket_size i - sizeof_Header)"
    using P b by (simp_all add: pool_ok_def)
  have "unat (b + sizeof_Header) = baddr i k + 16"
    using baddr_bound(3) [OF pool_fits [OF P b(1,2)]] unat_blk [OF pool_fits [OF P b(1,2)]]
    by (simp add: b(3) sizeof_Header_def unat_word_ariths)
  then have nz: "b + sizeof_Header \<noteq> 0" by auto
  have "free c stk (b + sizeof_Header) s = free_small b s"
    using nz h size_to_idx_block(2) [OF b(1)] by (simp add: free_def Let_def)
  also have "\<dots> = Some (s\<lparr>hdrs := (hdrs s)(b := (hdrs s b)\<lparr>hd_next := pfree s i\<rparr>), pfree := (pfree s)(i := b)\<rparr>)"
    using h b(1) size_to_idx_block(1) [OF b(1)] by (simp add: free_small_def)
  finally show thesis using that pool_put [OF assms(1) b(1,2)] assms(2) by (simp add: b(3))
qed

lemma pool_full:
  assumes "heap_ok N L s" and "i < HEAP_POOLS" and "pfree s i = 0" and "card L < 2048"
  shows "fits i (N i + HEAP_INCREMENT - 1)" and "blk i ` {..<N i} \<subseteq> L"
proof -
  have P: "pool_ok i (N i) L s" using assms(1,2) by (simp add: heap_ok_def)
  show s: "blk i ` {..<N i} \<subseteq> L" using pool_free_set [OF P] assms(3) by simp
  have "inj_on (blk i) {..<N i}" by (rule inj_onI) (use blk_inj [OF pool_fits [OF P assms(2)] pool_fits [OF P assms(2)]] in simp)
  then have "N i < 2048" using card_mono [OF heap_finite [OF assms(1)] s] assms(4) by (simp add: card_image)
  moreover have "64 dvd N i" using P by (simp add: pool_ok_def HEAP_INCREMENT_def)
  ultimately have "N i + 64 \<le> 2048" by (auto elim!: dvdE)
  then have "(N i + 64) * bsize i \<le> 2048 * 131072" using bucket_size_unat [OF assms(2)] by (intro mult_le_mono) simp_all
  then show "fits i (N i + HEAP_INCREMENT - 1)" using assms(2) by (simp add: fits_def HEAP_INCREMENT_def add.commute)
qed

lemma grow_small_ok:
  fixes s :: "'a uheap_scheme"
  assumes "heap_ok N L s" and "runs c s" and "i < HEAP_POOLS" and "pfree s i = 0" and "card L < 2048"
    and "map_anon c stk (ptop s i) (bucket_size i * of_nat HEAP_INCREMENT) s = Some (r, s1)"
  obtains s' where "grow_small c stk i s = Some s'" "heap_ok (N(i := N i + HEAP_INCREMENT)) L s'" "runs c s'" "pfree s' i \<noteq> 0"
proof -
  let ?n = "N i" and ?m = HEAP_INCREMENT
  note full = pool_full [OF assms(1,3-5)]
  have P: "pool_ok i ?n L s" using assms(1,3) by (simp add: heap_ok_def)
  then have top: "ptop s i = blk i ?n" by (simp add: pool_ok_def)
  note k = map_anon_keep [OF assms(2,6)] and f = uheap_fields [OF map_anon_keep(2) [OF assms(2,6)]]
  have cong: "pool_ok j n L s1 = pool_ok j n L s" for j n by (rule pool_ok_cong) (simp_all add: f)
  have fit: "fits i l" if "l < ?n + ?m" for l by (rule fits_le [OF full(1)]) (use that in simp)
  have apart: "blk j l \<notin> blk i ` {?n..<?n + ?m}" if "j < HEAP_POOLS" "l < N j" for j l
  proof -
    have "pool_ok j (N j) L s" using assms(1) that(1) by (simp add: heap_ok_def)
    then have "blk j l = blk i x \<longleftrightarrow> j = i \<and> l = x" if "x < ?n + ?m" for x
      using blk_inj [OF pool_fits fit] that \<open>j < HEAP_POOLS\<close> \<open>l < N j\<close> by metis
    then show ?thesis using that(2) by fastforce
  qed
  have new: "L \<inter> blk i ` {?n..<?n + ?m} = {}" using apart heap_live_block [OF assms(1)] by (metis disjoint_iff)
  let ?s = "fold (grow_block i (blk i ?n)) [0..<?m] (s1\<lparr>ptop := (ptop s1)(i := ptop s1 i + bucket_size i * of_nat ?m)\<rparr>)"
  note g = grow_pool [OF P [folded cong] full(2,1) new]
  have "fits i ?n" using fit by (simp add: HEAP_INCREMENT_def)
  then have nz: "r \<noteq> 0" using k(1) top blk_nz by simp
  have gs: "grow_small c stk i s = Some ?s" using assms(6) nz k(1) top by (simp add: grow_small_def)
  have r: "runs c (fold (grow_block i a) xs t) = runs c t" for a xs and t :: "'a uheap_scheme"
    by (induction xs arbitrary: t) (simp_all add: grow_block_def Let_def runs_def)
  have "pool_ok j (N j) L ?s" if "j \<noteq> i" "j < HEAP_POOLS" for j
  proof -
    have "pool_ok j (N j) L ?s = pool_ok j (N j) L s1" using g(3,4) that apart by (intro pool_ok_cong) simp_all
    then show ?thesis using assms(1) that(2) by (simp add: cong heap_ok_def)
  qed
  moreover have "\<exists>j < HEAP_POOLS. \<exists>l < (N(i := ?n + ?m)) j. b = blk j l" if "b \<in> L" for b
  proof -
    obtain j l where "j < HEAP_POOLS" "l < N j" "b = blk j l" using heap_live_block [OF assms(1) \<open>b \<in> L\<close>] .
    moreover from this have "l < (N(i := ?n + ?m)) j" by auto
    ultimately show ?thesis by blast
  qed
  ultimately have "heap_ok (N(i := ?n + ?m)) L ?s" using g(1) by (intro heap_okI [of i]) simp_all
  then show thesis using that [of ?s] gs g(2) k(3) by (simp add: r) (simp add: runs_def)
qed

text \<open>
  \<open>may_grow\<close> says that the kernel maps memory for the pool of a request if the pool has no free
  block; when the kernel has no memory left it stops in \<^verbatim>\<open>PMap_AllocMap\<close>.
\<close>

definition may_grow :: "nat \<Rightarrow> u64 \<Rightarrow> u64 \<Rightarrow> 'a uheap_scheme \<Rightarrow> bool" where
  "may_grow c stk sz s \<longleftrightarrow> (case size_to_idx sz of None \<Rightarrow> False
     | Some i \<Rightarrow> pfree s i \<noteq> 0 \<or> map_anon c stk (ptop s i) (bucket_size i * of_nat HEAP_INCREMENT) s \<noteq> None)"

lemma malloc_fresh:
  fixes s :: "'a uheap_scheme"
  assumes "heap_ok N L s" and "runs c s" and "card L < 2048" and "sz \<le> HEAP_MAX_POOLSIZE" and "may_grow c stk sz s"
  obtains i k s' N' where "malloc c stk sz s = Some (blk i k + sizeof_Header, s')" "heap_ok N' (insert (blk i k) L) s'" "runs c s'"
    "blk i k \<notin> L" "fits i k" "unat sz + 16 \<le> bsize i"
proof -
  obtain i where i: "size_to_idx sz = Some i" "i < HEAP_POOLS" "unat sz + 16 \<le> bsize i" using size_to_idx_ok [OF assms(4)] .
  have "\<exists>s1 N'. (if pfree s i = 0 then grow_small c stk i s else Some s) = Some s1 \<and> heap_ok N' L s1 \<and> runs c s1 \<and> pfree s1 i \<noteq> 0"
  proof (cases "pfree s i = 0")
    case True
    then obtain r t where m: "map_anon c stk (ptop s i) (bucket_size i * of_nat HEAP_INCREMENT) s = Some (r, t)"
      using assms(5) i(1) by (auto simp: may_grow_def)
    show ?thesis by (rule grow_small_ok [OF assms(1,2) i(2) True assms(3) m]) (use True in auto)
  qed (use assms(1,2) in auto)
  then obtain s1 N' where s1: "(if pfree s i = 0 then grow_small c stk i s else Some s) = Some s1" "heap_ok N' L s1" "runs c s1" "pfree s1 i \<noteq> 0"
    by blast
  note t = pool_take [OF s1(2) i(2) s1(4)]
  obtain k where k: "k < N' i" "pfree s1 i = blk i k" using t(3) by blast
  have "fits i k" using s1(2) i(2) k(1) by (auto simp: heap_ok_def intro: pool_fits)
  moreover have "malloc c stk sz s = Some (blk i k + sizeof_Header, s1\<lparr>pfree := (pfree s1)(i := hd_next (hdrs s1 (pfree s1 i)))\<rparr>)"
    using assms(4) s1(1,4) i k(2) by (simp add: malloc_def malloc_small_def Let_def not_less [symmetric])
  moreover have "runs c (s1\<lparr>pfree := (pfree s1)(i := hd_next (hdrs s1 (pfree s1 i)))\<rparr>)" using s1(3) by (simp add: runs_def)
  ultimately show thesis using that t(1,2) i(3) by (simp only: k(2)) blast
qed

section \<open>Runs of a program\<close>

text \<open>
  What a program has allocated: the pointers it got and has not freed, with the sizes it asked
  for.  A program frees only those, each once.
\<close>

datatype heap_op = Malloc u64 | Free u64

fun heap_step :: "nat \<Rightarrow> u64 \<Rightarrow> heap_op \<Rightarrow> (u64 \<rightharpoonup> u64) \<times> 'a uheap_scheme \<Rightarrow> ((u64 \<rightharpoonup> u64) \<times> 'a uheap_scheme) option" where
  "heap_step c stk (Malloc sz) (live, s) = do {
     (p, s) \<leftarrow> malloc c stk sz s;
     Some (if p = 0 then live else live(p \<mapsto> sz), s)
   }"
| "heap_step c stk (Free p) (live, s) = do {
     s \<leftarrow> free c stk p s;
     Some (live(p := None), s)
   }"

fun heap_op_ok :: "nat \<Rightarrow> u64 \<Rightarrow> heap_op \<Rightarrow> (u64 \<rightharpoonup> u64) \<times> 'a uheap_scheme \<Rightarrow> bool" where
  "heap_op_ok c stk (Malloc sz) (live, s) \<longleftrightarrow> sz \<le> HEAP_MAX_POOLSIZE \<and> card (dom live) < 2048 \<and> may_grow c stk sz s"
| "heap_op_ok c stk (Free p) (live, s) \<longleftrightarrow> live p \<noteq> None"

definition block_of :: "u64 \<Rightarrow> u64 \<Rightarrow> bool" where
  "block_of p sz \<longleftrightarrow> (\<exists>i k. p = blk i k + sizeof_Header \<and> fits i k \<and> unat sz + 16 \<le> bsize i)"

fun heap_inv :: "nat \<Rightarrow> (u64 \<rightharpoonup> u64) \<times> 'a uheap_scheme \<Rightarrow> bool" where
  "heap_inv c (live, s) \<longleftrightarrow> runs c s \<and> (\<exists>N. heap_ok N ((\<lambda>p. p - sizeof_Header) ` dom live) s) \<and>
     (\<forall>p sz. live p = Some sz \<longrightarrow> block_of p sz)"

lemma block_of_unat:
  assumes "block_of p sz"
  obtains i k where "fits i k" "unat p = baddr i k + 16" "unat sz + 16 \<le> bsize i" "p - sizeof_Header = blk i k"
proof -
  obtain i k where p: "p = blk i k + sizeof_Header" "fits i k" "unat sz + 16 \<le> bsize i" using assms by (auto simp: block_of_def)
  have "unat p = baddr i k + 16"
    using baddr_bound(3) [OF p(2)] unat_blk [OF p(2)] by (simp add: p(1) sizeof_Header_def unat_word_ariths)
  then show thesis using that [of i k] p by simp
qed

lemma live_card: "card ((\<lambda>p. p - sizeof_Header) ` A) = card A"
  by (rule card_image) (simp add: inj_on_def)

lemma heap_step_malloc:
  assumes "heap_inv c (live, s)" and "heap_op_ok c stk (Malloc sz) (live, s)"
  shows "\<exists>st. heap_step c stk (Malloc sz) (live, s) = Some st \<and> heap_inv c st"
proof -
  let ?L = "(\<lambda>p. p - sizeof_Header) ` dom live"
  obtain N where I: "runs c s" "heap_ok N ?L s" "\<And>p sz. live p = Some sz \<Longrightarrow> block_of p sz" using assms(1) by auto
  have ok: "sz \<le> HEAP_MAX_POOLSIZE" "card ?L < 2048" "may_grow c stk sz s" using assms(2) live_card by auto
  obtain i k s' N' where m: "malloc c stk sz s = Some (blk i k + sizeof_Header, s')" "heap_ok N' (insert (blk i k) ?L) s'" "runs c s'"
    "fits i k" "unat sz + 16 \<le> bsize i"
    by (rule malloc_fresh [OF I(2,1) ok(2,1,3)])
  have b: "block_of (blk i k + sizeof_Header) sz" using m(4,5) by (auto simp: block_of_def)
  then have nz: "blk i k + sizeof_Header \<noteq> 0" by (rule block_of_unat) auto
  have "heap_inv c (live(blk i k + sizeof_Header \<mapsto> sz), s')" using m(2,3) I(3) b by auto
  then show ?thesis using m(1) nz by simp
qed

lemma heap_step_free:
  assumes "heap_inv c (live, s)" and "heap_op_ok c stk (Free p) (live, s)"
  shows "\<exists>st. heap_step c stk (Free p) (live, s) = Some st \<and> heap_inv c st"
proof -
  let ?L = "(\<lambda>p. p - sizeof_Header) ` dom live"
  obtain N where I: "runs c s" "heap_ok N ?L s" "\<And>p sz. live p = Some sz \<Longrightarrow> block_of p sz" using assms(1) by auto
  have "p - sizeof_Header \<in> ?L" using assms(2) by auto
  then obtain s' where s': "free c stk (p - sizeof_Header + sizeof_Header) s = Some s'" "heap_ok N (?L - {p - sizeof_Header}) s'"
    "thrs s' = thrs s" "curProc s' = curProc s" by (rule free_live [OF I(2)])
  have "?L - {p - sizeof_Header} = (\<lambda>p. p - sizeof_Header) ` dom (live(p := None))" by auto
  then have "heap_inv c (live(p := None), s')" using s'(2-4) I(1,3) by (auto simp: runs_def)
  then show ?thesis using s'(1) by simp
qed

interpretation heap: step_system "heap_step c stk" "heap_op_ok c stk" "heap_inv c" for c stk
proof -
  have "\<exists>st'. heap_step c stk x st = Some st' \<and> heap_inv c st'"
    if "heap_inv c st" "heap_op_ok c stk x st" for x and st :: "(u64 \<rightharpoonup> u64) \<times> 'a uheap_scheme"
    using that heap_step_malloc heap_step_free by (cases st; cases x) blast+
  then show "step_system (heap_step c stk) (heap_op_ok c stk) (heap_inv c :: (u64 \<rightharpoonup> u64) \<times> 'a uheap_scheme \<Rightarrow> bool)"
    by (metis (no_types, lifting) option.inject step_system.intro)
qed

lemma heap_start_inv: "runs c s \<Longrightarrow> heap_inv c (Map.empty, heap_start s)"
  by (auto simp: runs_def heap_start_def heap_ok_def pool_ok_def pool_base_blk intro!: exI [of _ "\<lambda>_. 0"])

text \<open>
  C1.  A program that starts with an empty heap and allocates and frees blocks of up to 128 KB,
  at most 2048 at a time, never gets overlapping memory: every request returns and every
  free of a pointer it has succeeds, each block is as large as asked for, and no two blocks with their headers
  overlap, as long as the kernel can map memory when a pool has to grow.
\<close>

theorem malloc_run_disjoint:
  assumes "runs c s" and "run_ok (heap_step c stk) (heap_op_ok c stk) ops (Map.empty, heap_start s)"
  shows "\<exists>live s'. run_steps (heap_step c stk) ops (Map.empty, heap_start s) = Some (live, s') \<and>
    (\<forall>p sz. live p = Some sz \<longrightarrow> 16 \<le> unat p \<and> unat p + unat sz \<le> 0x4C0000000 \<and>
      (\<exists>s''. free c stk p s' = Some s'') \<and>
      (\<forall>q sz'. live q = Some sz' \<and> p \<noteq> q \<longrightarrow> unat p + unat sz \<le> unat q - 16 \<or> unat q + unat sz' \<le> unat p - 16))"
proof -
  obtain live s' where r: "run_steps (heap_step c stk) ops (Map.empty, heap_start s) = Some (live, s')" and I: "heap_inv c (live, s')"
    using heap.run_inv [OF heap_start_inv [OF assms(1)] assms(2)] by auto
  then have b: "block_of p sz" if "live p = Some sz" for p sz using that by simp
  have "16 \<le> unat p \<and> unat p + unat sz \<le> 0x4C0000000 \<and> (\<exists>s''. free c stk p s' = Some s'')" if p: "live p = Some sz" for p sz
  proof -
    obtain st where "heap_step c stk (Free p) (live, s') = Some st" using heap_step_free [OF I, of stk p] p by auto
    then have "\<exists>s''. free c stk p s' = Some s''" by (auto simp: bind_eq_Some_conv)
    moreover have "16 \<le> unat p \<and> unat p + unat sz \<le> 0x4C0000000"
      by (rule block_of_unat [OF b [OF p]]) (use baddr_bound(3) in force)
    ultimately show ?thesis by blast
  qed
  moreover have "unat p + unat sz \<le> unat q - 16 \<or> unat q + unat sz' \<le> unat p - 16"
    if L: "live p = Some sz" "live q = Some sz'" "p \<noteq> q" for p q sz sz'
  proof -
    obtain i k where p: "fits i k" "unat p = baddr i k + 16" "unat sz + 16 \<le> bsize i" using b [OF L(1)] by (rule block_of_unat)
    obtain j l where q: "fits j l" "unat q = baddr j l + 16" "unat sz' + 16 \<le> bsize j" using b [OF L(2)] by (rule block_of_unat)
    have "i \<noteq> j \<or> k \<noteq> l" using L(3) p(2) q(2) by (metis unsigned_word_eqI)
    with baddr_apart [OF p(1) q(1)] show ?thesis using p(2,3) q(2,3) by linarith
  qed
  ultimately show ?thesis using r by blast
qed

text \<open>An example: a process whose pages are all mapped.\<close>

definition heap_state :: uheap where
  "heap_state = kern.extend ((kern_state [])\<lparr>mem := (\<lambda>_. PTE_P)\<rparr>)
     (uheap.fields (\<lambda>_. \<lparr>hd_magic = 0, hd_status = 0, hd_size = 0, hd_next = 0\<rparr>) (\<lambda>_. 0) pool_base large_base)"

lemma extend_fields: "mem (kern.extend s x) = mem s" "curProc (kern.extend s x) = curProc s" "thrs (kern.extend s x) = thrs s" for s :: kern
  by (cases s, simp add: kern.defs)+

lemma heap_state_simps [simp]: "mem (heap_start heap_state) = (\<lambda>_. PTE_P)" "curProc (heap_start heap_state) 0 = 0x100"
  "t_refCount (thrs (heap_start heap_state) 0x100) = 1" "pfree (heap_start heap_state) = (\<lambda>_. 0)" "ptop (heap_start heap_state) = pool_base"
  by (simp_all add: heap_state_def heap_start_def extend_fields)

lemma AllocMap_present:
  assumes "mem s = (\<lambda>_. PTE_P)" and "a AND PGMASK = 0" and "unat ((len + PGSIZE - 1) div PGSIZE) \<le> 1000"
  shows "PMap_AllocMap as a len fl s = Some s"
  using assms
  by (simp add: PMap_AllocMap_def Let_def)
     (rule for_each_skip, auto simp: PMapLookupEntry_def pmap_descend_def Let_def PTE_P_def PGSIZE_def cint_mul_def)

lemma upd_thr_mem: "mem (upd_thr p f s) = mem s"
  by (simp add: upd_thr_def)

lemma map_anon_present:
  fixes s :: "'a kern_scheme"
  assumes "runs c s" and "mem s = (\<lambda>_. PTE_P)" and "a AND PGMASK = 0" and "unat ((len + PGSIZE - 1) div PGSIZE) \<le> 1000"
  shows "\<exists>s'. map_anon c stk a len s = Some (a, s') \<and> mem s' = (\<lambda>_. PTE_P)"
proof -
  let ?t = "curProc s c"
  let ?s = "upd_thr ?t (t_refCount_update (\<lambda>r. r + 1)) s"
  have m: "PMap_AllocMap (t_space (thrs ?s ?t)) a len PTE_W ?s = Some ?s"
    using assms(2-4) by (intro AllocMap_present) (simp_all add: upd_thr_mem)
  have "t_refCount (thrs ?s ?t) \<notin> {0, 1}" using assms(1) by (auto simp: runs_def eq_neg_iff_add_eq_0)
  then have "Thread_Release ?t ?s = Some (upd_thr ?t (t_refCount_update (\<lambda>c. c - 1)) ?s)" by (rule Thread_Release_keep)
  with m assms(1,2) show ?thesis
    by (simp add: map_anon_def mmap_def OSMemMap_def syscall_def Syscall_Entry_def Syscall_MMap_def Sched_Current_def
        Thread_Retain_def mman_consts returns_def Let_def runs_def upd_thr_mem)
qed

lemma heap_state_map:
  "\<exists>s'. map_anon 0 0x90000 (pool_base 0) (bucket_size 0 * of_nat HEAP_INCREMENT) (heap_start heap_state) = Some (pool_base 0, s')"
  using map_anon_present [of 0 "heap_start heap_state" "pool_base 0" "bucket_size 0 * of_nat HEAP_INCREMENT" "0x90000"]
  by (auto simp: runs_def pool_base_def bucket_size_def HEAP_INCREMENT_def PGMASK_def PGSIZE_def)

lemma heap_state_malloc:
  "\<exists>s'. malloc 0 0x90000 10 (heap_start heap_state) = Some (blk 0 63 + sizeof_Header, s') \<and> pfree s' 0 = blk 0 62"
proof -
  let ?sa = "heap_start heap_state"
  obtain s1 where m: "map_anon 0 0x90000 (pool_base 0) (bucket_size 0 * of_nat HEAP_INCREMENT) ?sa = Some (pool_base 0, s1)"
    using heap_state_map by blast
  have "runs 0 ?sa" by (simp add: runs_def)
  note f = uheap_fields [OF map_anon_keep(2) [OF this m]]
  let ?s = "s1\<lparr>ptop := (ptop s1)(0 := ptop s1 0 + bucket_size 0 * of_nat HEAP_INCREMENT)\<rparr>"
  define s2 where "s2 = fold (grow_block 0 (blk 0 0)) [0..<HEAP_INCREMENT] ?s"
  have fits: "fits 0 (0 + 64 - 1)" by (simp add: fits_def bsize_def HEAP_POOLS_def)
  note g = grow_fold [OF fits, where s = ?s, unfolded HEAP_INCREMENT_def [symmetric], folded s2_def]
  have nz: "blk 0 0 \<noteq> 0" "blk 0 63 \<noteq> 0" using blk_nz [OF fits_le [OF fits]] by simp_all
  have "grow_small 0 0x90000 0 ?sa = Some s2" using m nz(1) by (simp add: grow_small_def Let_def s2_def pool_base_blk)
  moreover have "size_to_idx 10 = Some 0" by (simp add: size_to_idx_def size_to_idx_loop.simps sizeof_Header_def)
  moreover have "pfree s2 0 = blk 0 63" "hd_next (hdrs s2 (blk 0 63)) = blk 0 62"
    using g(1) g(4) [of 63] by (simp_all add: HEAP_INCREMENT_def)
  ultimately show ?thesis using nz(2) by (simp add: malloc_def malloc_small_def heap_consts Let_def)
qed

theorem malloc_run_disjoint_witness:
  "\<exists>live s'. run_steps (heap_step 0 0x90000) [Malloc 10, Malloc 20] (Map.empty, heap_start heap_state) = Some (live, s') \<and>
    (\<forall>p sz. live p = Some sz \<longrightarrow> 16 \<le> unat p \<and> unat p + unat sz \<le> 0x4C0000000 \<and>
      (\<exists>s''. free 0 0x90000 p s' = Some s'') \<and>
      (\<forall>q sz'. live q = Some sz' \<and> p \<noteq> q \<longrightarrow> unat p + unat sz \<le> unat q - 16 \<or> unat q + unat sz' \<le> unat p - 16))"
proof (rule malloc_run_disjoint)
  show "runs 0 heap_state" by (simp add: runs_def heap_state_def extend_fields)
  have "blk 0 62 \<noteq> 0" by (rule blk_nz) (simp add: fits_def bsize_def HEAP_POOLS_def)
  moreover have "size_to_idx 10 = Some 0" "size_to_idx 20 = Some 0" by (simp_all add: size_to_idx_def size_to_idx_loop.simps sizeof_Header_def)
  ultimately show "run_ok (heap_step 0 0x90000) (heap_op_ok 0 0x90000) [Malloc 10, Malloc 20] (Map.empty, heap_start heap_state)"
    using heap_state_malloc heap_state_map by (auto simp: may_grow_def heap_consts split: option.split)
qed

section \<open>Large blocks\<close>

lemma ROUNDUP_unat:
  assumes "unat x + 4095 < 2 ^ 64"
  shows "unat (ROUNDUP x 4096) = (unat x + 4095) div 4096 * 4096"
proof -
  have "ROUNDUP x 4096 = push_bit 12 (drop_bit 12 (x + 4095))"
    by (rule bit_word_eqI) (auto simp: ROUNDUP_def bit_simps mask_eq_exp_minus_1 [of 12, where 'a = "64 word", simplified, symmetric] add.commute simp del: mask_numeral)
  then have R: "ROUNDUP x 4096 = (x + 4095) div 4096 * 4096" by (simp add: push_bit_eq_mult drop_bit_eq_div)
  have "unat (x + 4095) = unat x + 4095" using assms by (simp add: unat_word_ariths)
  then have d: "unat ((x + 4095) div 4096) = (unat x + 4095) div 4096" by (simp add: unat_div)
  have "(unat x + 4095) div 4096 * 4096 < 2 ^ 64" using assms by (meson div_times_less_eq_dividend order_le_less_trans)
  then show ?thesis unfolding R by (simp add: unat_word_ariths d)
qed

lemma malloc_large_block:
  fixes s :: "'a uheap_scheme"
  assumes "runs c s" and "HEAP_MAX_POOLSIZE < sz" and "malloc c stk sz s = Some (p, s')" and "largeTop s \<noteq> 0"
  shows "p = largeTop s + sizeof_Header" and "largeTop s' = largeTop s + ROUNDUP sz 4096" and "runs c s'"
    and "hdrs s' (largeTop s) = \<lparr>hd_magic = HEAP_MAGIC, hd_status = 0, hd_size = ucast (ROUNDUP sz 4096), hd_next = 0\<rparr>"
proof -
  obtain r s1 where m: "map_anon c stk (largeTop s) (ROUNDUP sz 4096) s = Some (r, s1)"
    using assms(2,3) by (auto simp: malloc_def malloc_large_def bind_eq_Some_conv Let_def)
  note k = map_anon_keep [OF assms(1) m] and f = uheap_fields [OF map_anon_keep(2) [OF assms(1) m]]
  show "p = largeTop s + sizeof_Header" and "largeTop s' = largeTop s + ROUNDUP sz 4096" and "runs c s'"
    and "hdrs s' (largeTop s) = \<lparr>hd_magic = HEAP_MAGIC, hd_status = 0, hd_size = ucast (ROUNDUP sz 4096), hd_next = 0\<rparr>"
    using assms(2-4) m k f by (auto simp: malloc_def malloc_large_def Let_def runs_def)
qed

lemma PMap_Unmap_panics: "pages \<noteq> 0 \<Longrightarrow> PMap_Unmap as va pages s = None"
proof -
  assume "pages \<noteq> 0"
  then have "unat pages \<noteq> 0" by (metis unsigned_0 unsigned_word_eqI)
  then have "[0..<unat pages] = 0 # [1..<unat pages]" by (simp add: upt_conv_Cons)
  then show ?thesis by (simp add: PMap_Unmap_def bind_eq_None_conv split: prod.split)
qed

text \<open>
  C1. A block of more than 128 KB is rounded up to pages without room for its header: the next
  large block begins, with its own header, inside the memory of the first one exactly if less than a
  header is left of its last page, as for every multiple of the page size.
\<close>

theorem malloc_large_overlap:
  fixes s :: "'a uheap_scheme"
  assumes "runs c s" and "0 < unat (largeTop s)" and "unat (largeTop s) \<le> 0x10000000000"
    and "HEAP_MAX_POOLSIZE < sz" and "unat sz \<le> 0x80000000" and "HEAP_MAX_POOLSIZE < sz'"
    and "malloc c stk sz s = Some (p, s1)" and "malloc c stk sz' s1 = Some (q, s2)"
  shows "unat p < unat q \<and> (unat q - 16 < unat p + unat sz \<longleftrightarrow> (unat sz + 4095) mod 4096 > 4079)"
proof -
  let ?T = "largeTop s" and ?R = "ROUNDUP sz 4096"
  have T: "?T \<noteq> 0" using assms(2) by auto
  note b = malloc_large_block [OF assms(1,4,7) T]
  have R: "unat ?R = (unat sz + 4095) div 4096 * 4096" using assms(5) by (intro ROUNDUP_unat) simp
  then have R': "unat ?R + (unat sz + 4095) mod 4096 = unat sz + 4095" using div_mult_mod_eq [of "unat sz + 4095" 4096] by simp
  then have small: "unat ?R \<le> 0x80000FFF" using assms(5) by linarith
  then have top: "unat (largeTop s1) = unat ?T + unat ?R" using b(2) assms(3) by (simp add: unat_word_ariths)
  then have "largeTop s1 \<noteq> 0" using assms(2) by auto
  then have q: "q = largeTop s1 + sizeof_Header" using malloc_large_block(1) [OF b(3) assms(6,8)] by simp
  have "unat q = unat ?T + unat ?R + 16" using small top assms(3) by (simp add: q sizeof_Header_def unat_word_ariths)
  moreover have "unat p = unat ?T + 16" using assms(3) by (simp add: b(1) sizeof_Header_def unat_word_ariths)
  moreover have "0 < unat ?R" using R assms(4) by (simp add: heap_consts word_less_nat_alt)
  ultimately show ?thesis using R' by linarith
qed

text \<open>
  C1. Freeing a block of more than 128 KB stops the machine: \<^verbatim>\<open>free\<close> unmaps it, and \<^verbatim>\<open>PMap_Unmap\<close>
  has an assertion that always fails.
\<close>

theorem free_large_panics:
  fixes s :: "'a uheap_scheme"
  assumes "runs c s" and "largeTop s \<noteq> 0" and "HEAP_MAX_POOLSIZE < sz" and "unat sz \<le> 0x80000000"
    and "malloc c stk sz s = Some (p, s')" and "p \<noteq> 0"
  shows "free c stk p s' = None"
proof -
  note b = malloc_large_block [OF assms(1,3,5,2)]
  let ?h = "ucast (ucast (ROUNDUP sz 4096) :: u32) :: u64"
  have R: "unat (ROUNDUP sz 4096) = (unat sz + 4095) div 4096 * 4096" using assms(4) by (intro ROUNDUP_unat) simp
  then have e: "unat (ROUNDUP sz 4096) + (unat sz + 4095) mod 4096 = unat sz + 4095"
    using div_mult_mod_eq [of "unat sz + 4095" 4096] by simp
  have "(unat sz + 4095) mod 4096 \<le> 4095" by simp
  with e assms(4) have R': "unat sz \<le> unat (ROUNDUP sz 4096)" "unat (ROUNDUP sz 4096) < 0x100000000" by linarith+
  have h: "unat ?h = unat (ROUNDUP sz 4096)"
    using R'(2) by (simp add: unsigned_ucast_eq unsigned_take_bit_eq take_bit_eq_mod unat_mod)
  have "HEAP_MAX_POOLSIZE < ?h" using assms(3) h R'(1) by (simp add: word_less_nat_alt)
  moreover have "131056 < unat ?h" using assms(3) h R'(1) by (simp add: word_less_nat_alt heap_consts)
  then have "0 < unat (?h div PGSIZE)" by (simp add: unat_div PGSIZE_def) 
  then have "?h div PGSIZE \<noteq> 0" by auto
  ultimately show ?thesis using b assms(6)
    by (simp add: free_def free_large_def munmap_def OSMemUnmap_def int_call_def syscall_def Syscall_Entry_def Syscall_MUnmap_def returns_def
        PMap_Unmap_panics Let_def bind_eq_None_conv split: prod.split)
qed

lemma large_present:
  fixes s :: "'a uheap_scheme"
  assumes "runs c s" and "mem s = (\<lambda>_. PTE_P)" and "largeTop s AND PGMASK = 0" and "largeTop s \<noteq> 0"
  shows "\<exists>s'. malloc c stk 0x21000 s = Some (largeTop s + sizeof_Header, s') \<and> mem s' = (\<lambda>_. PTE_P)"
  using map_anon_present [OF assms(1-3), of "0x21000" stk] assms(4)
  by (auto simp: malloc_def malloc_large_def heap_consts ROUNDUP_def Let_def PGSIZE_def)

lemma heap_state_large: "largeTop heap_state = 0x4C000000" "runs 0 heap_state" "mem heap_state = (\<lambda>_. PTE_P)"
  by (simp_all add: heap_state_def runs_def extend_fields kern.defs uheap.defs large_base_def)

theorem malloc_large_overlap_witness:
  "\<exists>p q s1 s2. malloc 0 0x90000 0x21000 heap_state = Some (p, s1) \<and> malloc 0 0x90000 0x21000 s1 = Some (q, s2) \<and>
     unat q - 16 < unat p + 0x21000"
proof -
  obtain p s1 where 1: "malloc 0 0x90000 0x21000 heap_state = Some (p, s1)" "mem s1 = (\<lambda>_. PTE_P)"
    using large_present [of 0 heap_state "0x90000"] by (auto simp: heap_state_large PGMASK_def)
  note b = malloc_large_block [OF heap_state_large(2) _ 1(1)]
  have "runs 0 s1" "largeTop s1 = 0x4C021000" using b(2,3) by (simp_all add: heap_consts heap_state_large ROUNDUP_def)
  then obtain q s2 where 2: "malloc 0 0x90000 0x21000 s1 = Some (q, s2)"
    using large_present [of 0 s1 "0x90000"] 1(2) by (auto simp: PGMASK_def)
  show ?thesis using malloc_large_overlap [OF heap_state_large(2) _ _ _ _ _ 1(1) 2] 1(1) 2
    by (auto simp: heap_state_large heap_consts)
qed

theorem free_large_panics_witness: "\<exists>p s'. malloc 0 0x90000 0x21000 heap_state = Some (p, s') \<and> free 0 0x90000 p s' = None"
proof -
  obtain s' where 1: "malloc 0 0x90000 0x21000 heap_state = Some (0x4C000010, s')"
    using large_present [of 0 heap_state "0x90000"] by (auto simp: heap_state_large PGMASK_def heap_consts)
  show ?thesis using free_large_panics [OF heap_state_large(2) _ _ _ 1] 1 by (simp add: heap_state_large heap_consts)
qed

end
