(* ===== verification/LwipMem.thy ===== *)
theory LwipMem
  imports CString
begin

text \<open>
  The heap of lwIP (\<^verbatim>\<open>lib/liblwip/src/core/mem.c\<close>) in the configuration of \<^verbatim>\<open>lwipopts.h\<close>: no
  alignment, 1600 bytes, no statistics, \<^verbatim>\<open>mem_size_t\<close> has 16 bits.  The heap is a list of
  \<^verbatim>\<open>struct mem\<close>s that are linked by offsets into \<^verbatim>\<open>ram\<close>; here a \<^verbatim>\<open>struct mem *\<close> is such an offset
  and \<open>ram\<close> gives the struct there.  An access outside the array \<^verbatim>\<open>ram_heap\<close> is undefined and a
  failed \<^verbatim>\<open>LWIP_ASSERT\<close> aborts (\<open>None\<close>).  The operations run under \<^verbatim>\<open>mem_mutex\<close> and are atomic.
\<close>

section \<open>Definitions\<close>

record mem_struct =
  ms_next :: u16
  ms_prev :: u16
  ms_used :: u8

text \<open>\<open>rbase\<close> is the address of \<^verbatim>\<open>ram\<close>, and \<open>rbytes\<close> has the bytes that a user of the heap sees.\<close>

record lwip_heap =
  rbase :: u64
  ram :: "u16 \<Rightarrow> mem_struct"
  lfree :: u16
  rbytes :: bytes

definition MEM_ALIGNMENT :: u64 where "MEM_ALIGNMENT = 1"

definition LWIP_MEM_ALIGN_SIZE :: "u64 \<Rightarrow> u64" where
  "LWIP_MEM_ALIGN_SIZE sz = (sz + MEM_ALIGNMENT - 1) AND NOT (MEM_ALIGNMENT - 1)"

definition MIN_SIZE_ALIGNED :: u64 where "MIN_SIZE_ALIGNED = LWIP_MEM_ALIGN_SIZE 12"
definition SIZEOF_STRUCT_MEM :: u64 where "SIZEOF_STRUCT_MEM = LWIP_MEM_ALIGN_SIZE 6"
definition MEM_SIZE_ALIGNED :: u64 where "MEM_SIZE_ALIGNED = LWIP_MEM_ALIGN_SIZE 1600"

text \<open>The array \<^verbatim>\<open>ram_heap\<close> and the offset of \<^verbatim>\<open>ram_end\<close>.\<close>

definition in_ram :: "u16 \<Rightarrow> bool" where
  "in_ram p \<longleftrightarrow> ucast p + SIZEOF_STRUCT_MEM \<le> MEM_SIZE_ALIGNED + 2 * SIZEOF_STRUCT_MEM + MEM_ALIGNMENT"

definition ram_end :: u16 where "ram_end = ucast MEM_SIZE_ALIGNED"

definition upd_mem :: "u16 \<Rightarrow> (mem_struct \<Rightarrow> mem_struct) \<Rightarrow> lwip_heap \<Rightarrow> lwip_heap" where
  "upd_mem p f h = h\<lparr>ram := (ram h)(p := f (ram h p))\<rparr>"

text \<open>\<^verbatim>\<open>plug_holes\<close>: a free block is combined with the next one and with the previous one if they are free.\<close>

definition plug_forward :: "u16 \<Rightarrow> lwip_heap \<Rightarrow> lwip_heap option" where
  "plug_forward m h = do {
     let nmem = ms_next (ram h m);
     kassert (in_ram nmem);
     if m \<noteq> nmem \<and> ms_used (ram h nmem) = 0 \<and> nmem \<noteq> ram_end then do {
       let h = (if lfree h = nmem then h\<lparr>lfree := m\<rparr> else h);
       let h = upd_mem m (ms_next_update (\<lambda>_. ms_next (ram h nmem))) h;
       kassert (in_ram (ms_next (ram h nmem)));
       Some (upd_mem (ms_next (ram h nmem)) (ms_prev_update (\<lambda>_. m)) h)
     } else Some h
   }"

definition plug_backward :: "u16 \<Rightarrow> lwip_heap \<Rightarrow> lwip_heap option" where
  "plug_backward m h = do {
     let pmem = ms_prev (ram h m);
     kassert (in_ram pmem);
     if pmem \<noteq> m \<and> ms_used (ram h pmem) = 0 then do {
       let h = (if lfree h = m then h\<lparr>lfree := pmem\<rparr> else h);
       let h = upd_mem pmem (ms_next_update (\<lambda>_. ms_next (ram h m))) h;
       kassert (in_ram (ms_next (ram h m)));
       Some (upd_mem (ms_next (ram h m)) (ms_prev_update (\<lambda>_. pmem)) h)
     } else Some h
   }"

definition plug_holes :: "u16 \<Rightarrow> lwip_heap \<Rightarrow> lwip_heap option" where
  "plug_holes m h = do {
     kassert (m < ram_end);
     kassert (ms_used (ram h m) = 0);
     kassert (ucast (ms_next (ram h m)) \<le> MEM_SIZE_ALIGNED);
     h \<leftarrow> plug_forward m h;
     plug_backward m h
   }"

definition mem_init :: "lwip_heap \<Rightarrow> lwip_heap" where
  "mem_init h =
     (let h = upd_mem 0 (\<lambda>_. \<lparr>ms_next = ucast MEM_SIZE_ALIGNED, ms_prev = 0, ms_used = 0\<rparr>) h;
          h = upd_mem ram_end (\<lambda>_. \<lparr>ms_next = ucast MEM_SIZE_ALIGNED, ms_prev = ucast MEM_SIZE_ALIGNED, ms_used = 1\<rparr>) h
      in h\<lparr>lfree := 0\<rparr>)"

text \<open>The struct of a pointer that \<^verbatim>\<open>mem_malloc\<close> returned; it has to be inside \<^verbatim>\<open>ram_heap\<close>.\<close>

definition legal_rmem :: "u64 \<Rightarrow> lwip_heap \<Rightarrow> bool" where
  "legal_rmem rmem h \<longleftrightarrow> rbase h \<le> rmem \<and> rmem < rbase h + ucast ram_end"

definition struct_of :: "u64 \<Rightarrow> lwip_heap \<Rightarrow> u16 option" where
  "struct_of rmem h = do {
     kassert (rbase h + SIZEOF_STRUCT_MEM \<le> rmem);
     Some (ucast (rmem - SIZEOF_STRUCT_MEM - rbase h))
   }"

definition mem_free :: "u64 \<Rightarrow> lwip_heap \<Rightarrow> lwip_heap option" where
  "mem_free rmem h =
     (if rmem = 0 then Some h
      else do {
        kassert (rmem AND (MEM_ALIGNMENT - 1) = 0);
        kassert (legal_rmem rmem h);
        m \<leftarrow> struct_of rmem h;
        kassert (ms_used (ram h m) \<noteq> 0);
        let h = upd_mem m (ms_used_update (\<lambda>_. 0)) h;
        let h = (if m < lfree h then h\<lparr>lfree := m\<rparr> else h);
        plug_holes m h
      })"

text \<open>
  The size of the request as \<^verbatim>\<open>mem_malloc\<close> and \<^verbatim>\<open>mem_trim\<close> adjust it, and \<^verbatim>\<open>mem_trim\<close>, whose
  result is the pointer or NULL.
\<close>

definition adjust_size :: "u16 \<Rightarrow> u16" where
  "adjust_size sz = (let sz = ucast (LWIP_MEM_ALIGN_SIZE (ucast sz)) in if ucast sz < MIN_SIZE_ALIGNED then ucast MIN_SIZE_ALIGNED else sz)"

text \<open>The two cases of \<^verbatim>\<open>mem_trim\<close> that create a block behind the shrunk one, of which the first moves the next block there.\<close>

definition mem_trim_move :: "u16 \<Rightarrow> u16 \<Rightarrow> lwip_heap \<Rightarrow> lwip_heap option" where
  "mem_trim_move ptr newsize h = do {
     let mem2 = ms_next (ram h ptr);
     let nxt = ms_next (ram h mem2);
     let ptr2 = (ucast (ucast ptr + SIZEOF_STRUCT_MEM + ucast newsize) :: u16);
     let h = (if lfree h = mem2 then h\<lparr>lfree := ptr2\<rparr> else h);
     kassert (in_ram ptr2);
     let h = upd_mem ptr2 (\<lambda>_. \<lparr>ms_next = nxt, ms_prev = ptr, ms_used = 0\<rparr>) h;
     let h = upd_mem ptr (ms_next_update (\<lambda>_. ptr2)) h;
     kassert (in_ram nxt);
     Some (if ucast nxt \<noteq> MEM_SIZE_ALIGNED then upd_mem nxt (ms_prev_update (\<lambda>_. ptr2)) h else h)
   }"

definition mem_trim_split :: "u16 \<Rightarrow> u16 \<Rightarrow> lwip_heap \<Rightarrow> lwip_heap option" where
  "mem_trim_split ptr newsize h = do {
     let ptr2 = (ucast (ucast ptr + SIZEOF_STRUCT_MEM + ucast newsize) :: u16);
     let h = (if ptr2 < lfree h then h\<lparr>lfree := ptr2\<rparr> else h);
     kassert (in_ram ptr2);
     let nxt = ms_next (ram h ptr);
     let h = upd_mem ptr2 (\<lambda>_. \<lparr>ms_next = nxt, ms_prev = ptr, ms_used = 0\<rparr>) h;
     let h = upd_mem ptr (ms_next_update (\<lambda>_. ptr2)) h;
     kassert (in_ram nxt);
     Some (if ucast nxt \<noteq> MEM_SIZE_ALIGNED then upd_mem nxt (ms_prev_update (\<lambda>_. ptr2)) h else h)
   }"

definition mem_trim :: "u64 \<Rightarrow> u16 \<Rightarrow> lwip_heap \<Rightarrow> (u64 \<times> lwip_heap) option" where
  "mem_trim rmem newsize h =
     (let newsize = adjust_size newsize in
      if MEM_SIZE_ALIGNED < ucast newsize then Some (0, h)
      else do {
        kassert (legal_rmem rmem h);
        ptr \<leftarrow> struct_of rmem h;
        let sz = (ucast (ucast (ms_next (ram h ptr)) - ucast ptr - SIZEOF_STRUCT_MEM) :: u16);
        kassert (newsize \<le> sz);
        if newsize = sz then Some (rmem, h)
        else do {
          kassert (in_ram (ms_next (ram h ptr)));
          h \<leftarrow> (if ms_used (ram h (ms_next (ram h ptr))) = 0 then mem_trim_move ptr newsize h
               else if ucast newsize + SIZEOF_STRUCT_MEM + MIN_SIZE_ALIGNED \<le> ucast sz then mem_trim_split ptr newsize h
               else Some h);
          Some (rmem, h)
        }
      })"

text \<open>
  The two loops of \<^verbatim>\<open>mem_malloc\<close>: the search for a free block that is large enough, which ends
  with \<open>None\<close> if there is none, and the search for the next free block.
\<close>

definition data_size :: "u16 \<Rightarrow> lwip_heap \<Rightarrow> u64" where
  "data_size ptr h = ucast (ms_next (ram h ptr)) - (ucast ptr + SIZEOF_STRUCT_MEM)"

partial_function (option) mem_search :: "u16 \<Rightarrow> u16 \<Rightarrow> lwip_heap \<Rightarrow> u16 option option" where
  "mem_search sz ptr h =
     (if ucast ptr < MEM_SIZE_ALIGNED - ucast sz then do {
        kassert (in_ram ptr);
        if ms_used (ram h ptr) = 0 \<and> ucast sz \<le> data_size ptr h then Some (Some ptr)
        else mem_search sz (ms_next (ram h ptr)) h
      } else Some None)"

partial_function (option) adjust_lfree :: "u16 \<Rightarrow> lwip_heap \<Rightarrow> u16 option" where
  "adjust_lfree cur h = do {
     kassert (in_ram cur);
     if ms_used (ram h cur) \<noteq> 0 \<and> cur \<noteq> ram_end then adjust_lfree (ms_next (ram h cur)) h else Some cur
   }"

text \<open>Taking the block at \<open>ptr\<close>: it is split if the rest is large enough for a block.\<close>

definition mem_take :: "u16 \<Rightarrow> u16 \<Rightarrow> lwip_heap \<Rightarrow> lwip_heap option" where
  "mem_take sz ptr h =
     (if ucast sz + SIZEOF_STRUCT_MEM + MIN_SIZE_ALIGNED \<le> data_size ptr h then do {
        let ptr2 = (ucast (ucast ptr + SIZEOF_STRUCT_MEM + ucast sz) :: u16);
        kassert (in_ram ptr2);
        let nxt = ms_next (ram h ptr);
        let h = upd_mem ptr2 (\<lambda>_. \<lparr>ms_next = nxt, ms_prev = ptr, ms_used = 0\<rparr>) h;
        let h = upd_mem ptr (\<lambda>m. m\<lparr>ms_next := ptr2, ms_used := 1\<rparr>) h;
        kassert (in_ram nxt);
        Some (if ucast nxt \<noteq> MEM_SIZE_ALIGNED then upd_mem nxt (ms_prev_update (\<lambda>_. ptr2)) h else h)
      } else Some (upd_mem ptr (ms_used_update (\<lambda>_. 1)) h))"

definition mem_place :: "u16 \<Rightarrow> u16 \<Rightarrow> lwip_heap \<Rightarrow> lwip_heap option" where
  "mem_place sz ptr h = do {
     h \<leftarrow> mem_take sz ptr h;
     if ptr = lfree h then do {
       cur \<leftarrow> adjust_lfree (lfree h) h;
       kassert (cur = ram_end \<or> ms_used (ram h cur) = 0);
       Some (h\<lparr>lfree := cur\<rparr>)
     } else Some h
   }"

definition mem_malloc :: "u16 \<Rightarrow> lwip_heap \<Rightarrow> (u64 \<times> lwip_heap) option" where
  "mem_malloc sz h =
     (if sz = 0 then Some (0, h)
      else let sz = adjust_size sz in
      if MEM_SIZE_ALIGNED < ucast sz then Some (0, h)
      else do {
        r \<leftarrow> mem_search sz (lfree h) h;
        case r of
          None \<Rightarrow> Some (0, h)
        | Some ptr \<Rightarrow> do {
            h \<leftarrow> mem_place sz ptr h;
            kassert (rbase h + ucast ptr + SIZEOF_STRUCT_MEM + ucast sz \<le> rbase h + ucast ram_end);
            Some (rbase h + ucast ptr + SIZEOF_STRUCT_MEM, h)
          }
      })"

text \<open>The product of the arguments is an \<^verbatim>\<open>int\<close>; \<^verbatim>\<open>mem_malloc\<close> gets its low 16 bits, \<^verbatim>\<open>memset\<close> all of it.\<close>

definition mem_calloc :: "u16 \<Rightarrow> u16 \<Rightarrow> lwip_heap \<Rightarrow> (u64 \<times> lwip_heap) option" where
  "mem_calloc count sz h = do {
     n \<leftarrow> cint_mul (uint count) (uint sz);
     (p, h) \<leftarrow> mem_malloc (of_int n) h;
     Some (p, if p = 0 then h else h\<lparr>rbytes := memset p 0 (of_int n) (rbytes h)\<rparr>)
   }"

section \<open>Offsets\<close>

lemma mem_consts: "MEM_ALIGNMENT = 1" "LWIP_MEM_ALIGN_SIZE x = x" "MIN_SIZE_ALIGNED = 12" "SIZEOF_STRUCT_MEM = 6" "MEM_SIZE_ALIGNED = 1600"
  "ram_end = 1600"
  by (simp_all add: MEM_ALIGNMENT_def LWIP_MEM_ALIGN_SIZE_def MIN_SIZE_ALIGNED_def SIZEOF_STRUCT_MEM_def MEM_SIZE_ALIGNED_def ram_end_def)

lemma unat_off: "x \<le> 1607 \<Longrightarrow> unat (of_nat x :: u16) = x"
  by (simp add: unsigned_of_nat take_bit_eq_mod)

lemma unat_off64: "unat (ucast (p :: u16) :: u64) = unat p"
proof -
  have "unat p < 2 ^ 16" using unsigned_less [of p] by simp
  then have "unat p mod 18446744073709551616 = unat p" by simp
  then show ?thesis by (simp add: unsigned_ucast_eq take_bit_eq_mod)
qed

lemma off_eq: "x \<le> 1607 \<Longrightarrow> y \<le> 1607 \<Longrightarrow> (of_nat x :: u16) = of_nat y \<longleftrightarrow> x = y"
  by (metis unat_off)

lemma in_ram_off: "x \<le> 1607 \<Longrightarrow> in_ram (of_nat x)"
  by (simp add: in_ram_def mem_consts word_le_nat_alt unat_word_ariths unat_off64 unat_off)

text \<open>The fields of the structs as functions on offsets.\<close>

definition nx :: "lwip_heap \<Rightarrow> nat \<Rightarrow> nat" where "nx h x = unat (ms_next (ram h (of_nat x)))"
definition pv :: "lwip_heap \<Rightarrow> nat \<Rightarrow> nat" where "pv h x = unat (ms_prev (ram h (of_nat x)))"
definition us :: "lwip_heap \<Rightarrow> nat \<Rightarrow> bool" where "us h x \<longleftrightarrow> ms_used (ram h (of_nat x)) \<noteq> 0"

lemma next_off: "ms_next (ram h (of_nat x)) = of_nat (nx h x)" and prev_off: "ms_prev (ram h (of_nat x)) = of_nat (pv h x)"
  by (simp_all add: nx_def pv_def)

section \<open>Lists of blocks\<close>

text \<open>\<open>path N P p os e\<close>: the blocks \<open>os\<close> are linked in order up to \<open>e\<close>, and the first has the predecessor \<open>p\<close>.\<close>

fun path :: "(nat \<Rightarrow> nat) \<Rightarrow> (nat \<Rightarrow> nat) \<Rightarrow> nat \<Rightarrow> nat list \<Rightarrow> nat \<Rightarrow> bool" where
  "path N P p [] e \<longleftrightarrow> True"
| "path N P p (x # xs) e \<longleftrightarrow> x + 18 \<le> N x \<and> N x = hd (xs @ [e]) \<and> P x = p \<and> path N P x xs e"

lemma path_cong: "(\<And>x. x \<in> set xs \<Longrightarrow> N' x = N x \<and> P' x = P x) \<Longrightarrow> path N' P' p xs e = path N P p xs e"
  by (induction xs arbitrary: p) auto

lemma path_append: "path N P p (xs @ ys) e \<longleftrightarrow> path N P p xs (hd (ys @ [e])) \<and> path N P (last (p # xs)) ys e"
  by (induction xs arbitrary: p) (auto simp: hd_append)

lemma path_bound: "path N P p xs e \<Longrightarrow> x \<in> set xs \<Longrightarrow> hd xs \<le> x \<and> x + 18 \<le> e"
proof (induction xs arbitrary: p x)
  case (Cons y ys)
  show ?case
  proof (cases ys)
    case (Cons z zs)
    then have "z \<le> x \<and> x + 18 \<le> e" if "x \<in> set ys" using Cons.IH [of y x] Cons.prems(1) that by simp
    moreover have "z + 18 \<le> e" using Cons.IH [of y z] Cons.prems(1) Cons by simp
    ultimately show ?thesis using Cons.prems Cons by auto
  qed (use Cons.prems in auto)
qed simp

lemma path_order: "path N P p xs e \<Longrightarrow> sorted_wrt (<) xs"
proof (induction xs arbitrary: p)
  case (Cons y ys)
  have "y < x" if "x \<in> set ys" for x
    using path_bound [of N P y ys e x] Cons.prems that by (cases ys) auto
  with Cons.IH [of y] Cons.prems show ?case by simp
qed simp

lemma path_gap: "path N P p xs e \<Longrightarrow> x \<in> set xs \<Longrightarrow> y \<in> set xs \<Longrightarrow> x < y \<Longrightarrow> N x \<le> y"
proof (induction xs arbitrary: p)
  case (Cons z zs)
  have tl: "N z \<le> w \<and> z < w" if "w \<in> set zs" for w
    using path_bound [of N P z zs e w] Cons.prems(1) that by (cases zs) auto
  consider "x = z" "y \<in> set zs" | "x \<in> set zs" "y = z" | "x \<in> set zs" "y \<in> set zs" | "x = z" "y = z" using Cons.prems(2,3) by auto
  then show ?case
  proof cases
    case 3
    then show ?thesis using Cons.IH [of z] Cons.prems(1,4) by simp
  qed (use tl Cons.prems(4) in fastforce)+
qed simp

lemma path_distinct: "path N P p xs e \<Longrightarrow> distinct xs"
  using path_order strict_sorted_iff by blast

section \<open>The invariant\<close>

fun first_free :: "(nat \<Rightarrow> bool) \<Rightarrow> nat list \<Rightarrow> nat" where
  "first_free U [] = 1600"
| "first_free U (x # xs) = (if U x then first_free U xs else x)"

text \<open>No two blocks in a row are free.\<close>

fun plugged :: "(nat \<Rightarrow> bool) \<Rightarrow> nat list \<Rightarrow> bool" where
  "plugged U (x # y # xs) \<longleftrightarrow> (U x \<or> U y) \<and> plugged U (y # xs)"
| "plugged U _ \<longleftrightarrow> True"

definition blocks :: "lwip_heap \<Rightarrow> nat list \<Rightarrow> bool" where
  "blocks h xs \<longleftrightarrow> path (nx h) (pv h) 0 xs 1600 \<and> xs \<noteq> [] \<and> hd xs = 0 \<and> us h 1600 \<and> lfree h = of_nat (first_free (us h) xs)"

definition list_inv :: "lwip_heap \<Rightarrow> nat list \<Rightarrow> bool" where
  "list_inv h xs \<longleftrightarrow> blocks h xs \<and> plugged (us h) xs"

lemma first_free_cong: "(\<And>x. x \<in> set xs \<Longrightarrow> U' x = U x) \<Longrightarrow> first_free U' xs = first_free U xs"
  by (induction xs) auto

lemma plugged_cong: "(\<And>x. x \<in> set xs \<Longrightarrow> U' x = U x) \<Longrightarrow> plugged U' xs = plugged U xs"
  by (induction U xs rule: plugged.induct) auto

lemma first_free_append: "first_free U (xs @ ys) = (if \<forall>x \<in> set xs. U x then first_free U ys else first_free U xs)"
  by (induction xs) auto

lemma plugged_Cons: "plugged U (x # xs) \<longleftrightarrow> (xs = [] \<or> U x \<or> U (hd xs)) \<and> plugged U xs"
  by (cases xs) auto

lemma plugged_append: "plugged U (xs @ ys) \<longleftrightarrow> plugged U xs \<and> plugged U ys \<and> (xs = [] \<or> ys = [] \<or> U (last xs) \<or> U (hd ys))"
  by (induction xs) (auto simp: plugged_Cons)

lemma blocks_bound: "blocks h xs \<Longrightarrow> x \<in> set xs \<Longrightarrow> x + 18 \<le> 1600"
  by (auto simp: blocks_def dest: path_bound)

lemma first_free_bound: "blocks h xs \<Longrightarrow> first_free U xs \<le> 1600"
proof -
  assume b: "blocks h xs"
  have "first_free U ys = 1600 \<or> first_free U ys \<in> set ys" for ys by (induction ys) auto
  then show ?thesis using blocks_bound [OF b] by (metis add_leD1 order_refl)
qed

section \<open>Combining and splitting blocks\<close>

lemma path_merge:
  assumes "path N P p (as @ m # n # bs) e" and "\<And>x. x \<in> set (as @ m # bs) \<Longrightarrow> N' x = (if x = m then N n else N x)"
    and "\<And>x. x \<in> set (as @ m # bs) \<Longrightarrow> P' x = (if x = N n then m else P x)"
  shows "path N' P' p (as @ m # bs) e"
proof -
  have a: "path N P p as m" and m: "m + 18 \<le> n" "P m = last (p # as)" and n: "n + 18 \<le> N n" "N n = hd (bs @ [e])" and b: "path N P n bs e"
    using assms(1) by (auto simp: path_append)
  have d: "distinct (as @ m # n # bs)" and s: "sorted_wrt (<) (as @ m # n # bs)" using path_distinct [OF assms(1)] path_order [OF assms(1)] by auto
  have as: "x < m" if "x \<in> set as" for x using that s by (auto simp: sorted_wrt_append)
  have "N' x = N x \<and> P' x = P x" if "x \<in> set as" for x using assms(2,3) [of x] as [OF that] m(1) n(1) that by simp
  then have "path N' P' p as m = path N P p as m" by (rule path_cong)
  moreover have "path N' P' m bs e"
  proof (cases bs)
    case (Cons y ys)
    then have "path N' P' y ys e = path N P y ys e" using assms(2,3) d n(2) by (intro path_cong) auto
    then show ?thesis using Cons b assms(2,3) [of y] n(2) d by auto
  qed simp
  ultimately show ?thesis using a m n assms(2,3) [of m] by (simp add: path_append)
qed

lemma path_split:
  assumes "path N P p (as @ m # bs) e" and "m + 18 \<le> k" and "k + 18 \<le> N m"
    and "\<And>x. x \<in> set (as @ m # k # bs) \<Longrightarrow> N' x = (if x = m then k else if x = k then N m else N x)"
    and "\<And>x. x \<in> set (as @ m # k # bs) \<Longrightarrow> P' x = (if x = k then m else if x = N m then k else P x)"
  shows "path N' P' p (as @ m # k # bs) e"
proof -
  have a: "path N P p as m" and m: "N m = hd (bs @ [e])" "P m = last (p # as)" and b: "path N P m bs e"
    using assms(1) by (auto simp: path_append)
  have d: "distinct (as @ m # bs)" and s: "sorted_wrt (<) (as @ m # bs)" using path_distinct [OF assms(1)] path_order [OF assms(1)] by auto
  have as: "x < m" if "x \<in> set as" for x using that s by (auto simp: sorted_wrt_append)
  have bs: "N m \<le> x" if "x \<in> set bs" for x using path_gap [OF assms(1), of m x] that s by (auto simp: sorted_wrt_append)
  have "N' x = N x \<and> P' x = P x" if "x \<in> set as" for x using assms(4,5) [of x] as [OF that] assms(2,3) that by simp
  then have "path N' P' p as m = path N P p as m" by (rule path_cong)
  moreover have "path N' P' k bs e"
  proof (cases bs)
    case (Cons y ys)
    have "N' x = N x \<and> P' x = P x" if "x \<in> set ys" for x
      using assms(4,5) [of x] assms(2,3) bs [of x] that d m(1) Cons by auto
    then have "path N' P' y ys e = path N P y ys e" by (rule path_cong)
    moreover have "k \<noteq> y" "m \<noteq> y" using assms(2,3) m(1) Cons by auto
    ultimately show ?thesis using Cons b assms(4,5) [of y] m(1) by auto
  qed simp
  moreover have "m \<noteq> k" "m \<noteq> N m" using assms(2,3) by auto
  ultimately show ?thesis using a m assms(2-3) assms(4,5) [of m] assms(4,5) [of k] by (simp add: path_append)
qed

lemma upd_fields:
  assumes "x \<le> 1607" and "y \<le> 1607"
  shows "nx (upd_mem (of_nat x) f h) y = (if y = x then unat (ms_next (f (ram h (of_nat x)))) else nx h y)"
    and "pv (upd_mem (of_nat x) f h) y = (if y = x then unat (ms_prev (f (ram h (of_nat x)))) else pv h y)"
    and "us (upd_mem (of_nat x) f h) y = (if y = x then ms_used (f (ram h (of_nat x))) \<noteq> 0 else us h y)"
  using off_eq [OF assms] by (auto simp: upd_mem_def nx_def pv_def us_def)

lemma upd_other [simp]: "lfree (upd_mem p f h) = lfree h" "rbase (upd_mem p f h) = rbase h" "rbytes (upd_mem p f h) = rbytes h"
  "nx (h\<lparr>lfree := l\<rparr>) = nx h" "pv (h\<lparr>lfree := l\<rparr>) = pv h" "us (h\<lparr>lfree := l\<rparr>) = us h"
  by (simp_all add: upd_mem_def nx_def pv_def us_def fun_eq_iff)

text \<open>Operations on a heap keep the blocks in use if those have the same ends afterwards.\<close>

definition used :: "lwip_heap \<Rightarrow> nat list \<Rightarrow> (nat \<times> nat) set" where
  "used h xs = {(x, nx h x) | x. x \<in> set xs \<and> us h x}"

lemma blocks_next:
  assumes "blocks h (as @ m # bs)"
  shows "nx h m = hd (bs @ [1600])" "pv h m = last (0 # as)" "m \<le> 1582" "nx h m \<le> 1600" "m + 18 \<le> nx h m"
    and "x \<in> set as \<Longrightarrow> x + 18 \<le> m" and "x \<in> set bs \<Longrightarrow> nx h m \<le> x \<and> x \<le> 1582" and "distinct (as @ m # bs)"
proof -
  have p: "path (nx h) (pv h) 0 (as @ m # bs) 1600" using assms by (simp add: blocks_def)
  then show "nx h m = hd (bs @ [1600])" "pv h m = last (0 # as)" "m + 18 \<le> nx h m" "distinct (as @ m # bs)"
    using path_distinct [OF p] by (auto simp: path_append)
  show "m \<le> 1582" using path_bound [OF p, of m] by simp
  show "x \<in> set as \<Longrightarrow> x + 18 \<le> m" using p by (auto simp: path_append dest: path_bound)
  have b: "nx h m \<le> x \<and> x \<le> 1582" if "x \<in> set bs" for x
    using p path_bound [of "nx h" "pv h" m bs 1600 x] that by (cases bs) (auto simp: path_append)
  then show "x \<in> set bs \<Longrightarrow> nx h m \<le> x \<and> x \<le> 1582" .
  show "nx h m \<le> 1600" using p b [of "nx h m"] by (cases bs) (auto simp: path_append)
qed

text \<open>Both halves of \<^verbatim>\<open>plug_holes\<close> link a block to the end of the next one.\<close>

abbreviation merge :: "nat \<Rightarrow> nat \<Rightarrow> lwip_heap \<Rightarrow> lwip_heap" where
  "merge m n h \<equiv> upd_mem (of_nat (nx h n)) (ms_prev_update (\<lambda>_. of_nat m)) (upd_mem (of_nat m) (ms_next_update (\<lambda>_. of_nat (nx h n))) h)"

lemma merge_fields:
  assumes b: "blocks h (as @ m # n # bs)"
  shows "us (merge m n h) = us h" and "path (nx (merge m n h)) (pv (merge m n h)) 0 (as @ m # bs) 1600"
    and "x \<le> 1607 \<Longrightarrow> x \<noteq> m \<Longrightarrow> nx (merge m n h) x = nx h x"
    and "nx h m = n" "(of_nat m :: u16) \<noteq> of_nat n" "of_nat n \<noteq> ram_end" "m < n"
    and "nx (upd_mem (of_nat m) f h) n = nx h n" and "in_ram (of_nat n)" and "in_ram (of_nat (nx h n))"
proof -
  note m = blocks_next [OF b]
  have b': "blocks h ((as @ [m]) @ n # bs)" using b by simp
  note n = blocks_next [OF b']
  show "us (merge m n h) = us h" by (auto simp: us_def upd_mem_def fun_eq_iff)
  have N: "nx (merge m n h) x = (if x = m then nx h n else nx h x)" and P: "pv (merge m n h) x = (if x = nx h n then m else pv h x)"
    if "x \<le> 1607" for x
    using that m(3) n(4) by (auto simp: upd_fields unat_off nx_def [symmetric] pv_def [symmetric])
  show "path (nx (merge m n h)) (pv (merge m n h)) 0 (as @ m # bs) 1600"
  proof (rule path_merge)
    show "path (nx h) (pv h) 0 (as @ m # n # bs) 1600" using b by (simp add: blocks_def)
    fix x assume "x \<in> set (as @ m # bs)"
    then have "x \<le> 1607" using blocks_bound [OF b, of x] by auto
    then show "nx (merge m n h) x = (if x = m then nx h n else nx h x)" "pv (merge m n h) x = (if x = nx h n then m else pv h x)"
      by (rule N, rule P)
  qed
  show "x \<le> 1607 \<Longrightarrow> x \<noteq> m \<Longrightarrow> nx (merge m n h) x = nx h x" using N by simp
  show "nx h m = n" "m < n" using m(1,5) by simp_all
  then show ne: "(of_nat m :: u16) \<noteq> of_nat n" "of_nat n \<noteq> ram_end" using off_eq [of m n] off_eq [of n 1600] n(3) by (auto simp: mem_consts)
  show "nx (upd_mem (of_nat m) f h) n = nx h n" using ne(1) by (simp add: upd_mem_def nx_def)
  show "in_ram (of_nat n)" "in_ram (of_nat (nx h n))" using n(3,4) by (simp_all add: in_ram_off)
qed

lemma plug_forward_merge:
  assumes b: "blocks h (as @ m # n # bs)" and "\<not> us h m" and "\<not> us h n"
  shows "plug_forward (of_nat m) h = Some (merge m n h)" and "blocks (merge m n h) (as @ m # bs)"
proof -
  note g = merge_fields [OF b]
  have ff: "first_free (us h) (as @ m # n # bs) = first_free (us h) (as @ m # bs)" using assms(2) by (simp add: first_free_append)
  have "first_free (us h) (as @ m # n # bs) \<in> set (as @ [m])" using assms(2) by (induction as) auto
  then have "first_free (us h) (as @ m # n # bs) < n" using blocks_next(6) [OF b] g(7) by fastforce
  then have "lfree h \<noteq> of_nat n"
    using b blocks_bound [OF b, of n] off_eq [of "first_free (us h) (as @ m # n # bs)" n] by (simp add: blocks_def)
  then show "plug_forward (of_nat m) h = Some (merge m n h)"
    using g(4-10) assms(3) by (simp add: plug_forward_def Let_def next_off us_def)
  show "blocks (merge m n h) (as @ m # bs)" using b g(1,2) ff by (cases as) (auto simp: blocks_def)
qed

lemma plug_forward_keep:
  assumes b: "blocks h (as @ m # bs)" and "bs = [] \<or> us h (hd bs)"
  shows "plug_forward (of_nat m) h = Some h"
proof -
  have "us h (nx h m)" using assms blocks_next(1) [OF b] by (cases bs) (auto simp: blocks_def)
  then show ?thesis using blocks_next(4) [OF b] by (simp add: plug_forward_def Let_def next_off in_ram_off us_def)
qed

lemma plug_backward_merge:
  assumes b: "blocks h (as @ p # m # bs)" and "\<not> us h m" and "\<not> us h p"
  shows "plug_backward (of_nat m) h = Some (merge p m h)" and "blocks (merge p m h) (as @ p # bs)"
proof -
  note g = merge_fields [OF b]
  have b': "blocks h ((as @ [p]) @ m # bs)" using b by simp
  have pr: "pv h m = p" using blocks_next(2) [OF b'] by simp
  have ff: "first_free (us h) (as @ p # m # bs) = first_free (us h) (as @ p # bs)" using assms(3) by (simp add: first_free_append)
  have "first_free (us h) (as @ p # m # bs) \<in> set (as @ [p])" using assms(3) by (induction as) auto
  then have "first_free (us h) (as @ p # m # bs) < m" using blocks_next(6) [OF b] g(7) by fastforce
  then have "lfree h \<noteq> of_nat m"
    using b blocks_bound [OF b, of m] off_eq [of "first_free (us h) (as @ p # m # bs)" m] by (simp add: blocks_def)
  moreover have "in_ram (of_nat p)" using blocks_next(3) [OF b] by (simp add: in_ram_off)
  ultimately show "plug_backward (of_nat m) h = Some (merge p m h)"
    using g(4-10) assms(3) by (simp add: plug_backward_def Let_def next_off prev_off pr us_def)
  show "blocks (merge p m h) (as @ p # bs)" using b g(1,2) ff by (cases as) (auto simp: blocks_def)
qed

lemma plug_backward_keep:
  assumes b: "blocks h (as @ m # bs)" and "as = [] \<or> us h (last as)"
  shows "plug_backward (of_nat m) h = Some h"
proof -
  have pr: "pv h m = last (0 # as)" by (rule blocks_next(2) [OF b])
  show ?thesis
  proof (cases "as = []")
    case True
    then have "m = 0" using b by (simp add: blocks_def)
    then show ?thesis using True pr in_ram_off [of 0] by (simp add: plug_backward_def Let_def prev_off [of h 0, simplified])
  next
    case False
    then have "us h (pv h m)" "pv h m \<le> 1607" using assms(2) pr blocks_bound [OF b, of "last as"] by auto
    then show ?thesis by (simp add: plug_backward_def Let_def prev_off in_ram_off us_def)
  qed
qed

lemma used_merge:
  assumes b: "blocks h (as @ m # n # bs)" and "\<not> us h m" and "\<not> us h n"
  shows "used (merge m n h) (as @ m # bs) = used h (as @ m # n # bs)"
proof -
  note g = merge_fields [OF b]
  have "nx (merge m n h) x = nx h x" if "x \<in> set (as @ bs)" for x
    using that g(3) [of x] blocks_bound [OF b, of x] blocks_next(8) [OF b] by auto
  then show ?thesis unfolding used_def g(1) using assms(2,3) by auto
qed

lemma plug_holes_ok:
  assumes b: "blocks h (as @ m # bs)" and m: "\<not> us h m" and p: "plugged (us h) as" "plugged (us h) bs"
  obtains h' xs where "plug_holes (of_nat m) h = Some h'" "list_inv h' xs" "used h' xs = used h (as @ m # bs)" "rbase h' = rbase h"
proof -
  note n = blocks_next [OF b]
  have pre: "of_nat m < ram_end" "ms_used (ram h (of_nat m)) = 0" "ucast (ms_next (ram h (of_nat m))) \<le> MEM_SIZE_ALIGNED"
    using m n(3,4) by (simp_all add: us_def mem_consts word_less_nat_alt word_le_nat_alt unat_off unat_off64 next_off)
  have "\<exists>h1 cs. plug_forward (of_nat m) h = Some h1 \<and> blocks h1 (as @ m # cs) \<and> us h1 = us h \<and> rbase h1 = rbase h \<and>
    used h1 (as @ m # cs) = used h (as @ m # bs) \<and> plugged (us h) cs \<and> (cs = [] \<or> us h (hd cs))"
  proof (cases "bs = [] \<or> us h (hd bs)")
    case True
    then show ?thesis using plug_forward_keep [OF b] b p by blast
  next
    case False
    then obtain k cs where bs: "bs = k # cs" and k: "\<not> us h k" by (cases bs) auto
    then have b': "blocks h (as @ m # k # cs)" using b by simp
    show ?thesis using plug_forward_merge [OF b' m k] used_merge [OF b' m k] merge_fields(1) [OF b'] p(2) k
      by (intro exI [of _ "merge m k h"] exI [of _ cs]) (auto simp: bs plugged_Cons)
  qed
  then obtain h1 cs where h1: "plug_forward (of_nat m) h = Some h1" "blocks h1 (as @ m # cs)" "us h1 = us h" "rbase h1 = rbase h"
    "used h1 (as @ m # cs) = used h (as @ m # bs)" "plugged (us h) cs" "cs = [] \<or> us h (hd cs)" by blast
  have ph: "plug_holes (of_nat m) h = plug_backward (of_nat m) h1" using pre h1(1) by (simp add: plug_holes_def)
  show thesis
  proof (cases "as = [] \<or> us h (last as)")
    case True
    then have "plugged (us h) (as @ m # cs)" using p(1) h1(6,7) by (auto simp: plugged_append plugged_Cons)
    then show thesis using that [of h1] ph plug_backward_keep [OF h1(2)] True h1 by (simp add: list_inv_def)
  next
    case False
    then obtain ds q where as: "as = ds @ [q]" and q: "\<not> us h q" by (cases as rule: rev_cases) auto
    then have b': "blocks h1 (ds @ q # m # cs)" and q1: "\<not> us h1 q" "\<not> us h1 m" using h1(2,3) m by simp_all
    have "plugged (us h) (ds @ q # cs)" using p(1) h1(6,7) q by (auto simp: as plugged_append plugged_Cons)
    then have "list_inv (merge q m h1) (ds @ q # cs)"
      using plug_backward_merge(2) [OF b' q1(2,1)] merge_fields(1) [OF b'] h1(3) by (simp add: list_inv_def)
    then show thesis using that [of "merge q m h1"] ph plug_backward_merge(1) [OF b' q1(2,1)] used_merge [OF b' q1] h1(4,5) by (simp add: as)
  qed
qed

section \<open>Freeing a block\<close>

definition base_ok :: "lwip_heap \<Rightarrow> bool" where
  "base_ok h \<longleftrightarrow> unat (rbase h) + 1613 < 2 ^ 64"

lemma rmem_off:
  assumes "base_ok h" and "m \<le> 1582"
  shows "struct_of (rbase h + of_nat (m + 6)) h = Some (of_nat m)" and "legal_rmem (rbase h + of_nat (m + 6)) h"
    and "rbase h + of_nat (m + 6) \<noteq> 0" and "unat (rbase h + of_nat (m + 6)) = unat (rbase h) + m + 6"
proof -
  have m: "unat (of_nat (m + 6) :: u64) = m + 6"
    using assms(2) by (simp only: unsigned_of_nat take_bit_eq_mod) simp
  then show u: "unat (rbase h + of_nat (m + 6)) = unat (rbase h) + m + 6"
    using assms by (simp add: unat_word_ariths base_ok_def)
  then show "rbase h + of_nat (m + 6) \<noteq> 0" by auto
  have "rbase h + SIZEOF_STRUCT_MEM \<le> rbase h + of_nat (m + 6)"
    using assms u by (simp add: word_le_nat_alt mem_consts unat_word_ariths base_ok_def)
  then show "struct_of (rbase h + of_nat (m + 6)) h = Some (of_nat m)"
    using assms(2) by (simp add: struct_of_def mem_consts unsigned_of_nat take_bit_eq_mod)
  have "unat (rbase h + 1600) = unat (rbase h) + 1600" using assms(1) by (simp add: unat_word_ariths base_ok_def)
  then show "legal_rmem (rbase h + of_nat (m + 6)) h"
    using assms(2) u by (simp add: legal_rmem_def word_le_nat_alt word_less_nat_alt mem_consts)
qed

text \<open>The lowest free block after \<open>m\<close> has become free.\<close>

lemma first_free_release:
  assumes b: "blocks h (as @ m # bs)" and "us h m"
  shows "first_free ((us h)(m := False)) (as @ m # bs) = (if m < first_free (us h) (as @ m # bs) then m else first_free (us h) (as @ m # bs))"
proof -
  note n = blocks_next [OF b]
  have in': "first_free U ys = 1600 \<or> first_free U ys \<in> set ys" for U ys by (induction ys) auto
  have as: "first_free ((us h)(m := False)) as = first_free (us h) as" using n(8) by (intro first_free_cong) auto
  show ?thesis
  proof (cases "\<forall>x \<in> set as. us h x")
    case True
    have "m < first_free (us h) bs" using in' [of "us h" bs] n(3,5,7) by fastforce
    then show ?thesis using True assms(2) n(8) by (auto simp: first_free_append)
  next
    case False
    then have "first_free (us h) as \<in> set as" by (induction as) auto
    then show ?thesis using False n(6) [of "first_free (us h) as"] n(8) as by (auto simp: first_free_append)
  qed
qed

lemma mem_free_ok:
  assumes i: "list_inv h (as @ m # bs)" and m: "us h m" and base: "base_ok h"
  obtains h' xs where "mem_free (rbase h + of_nat (m + 6)) h = Some h'" "list_inv h' xs"
    "used h' xs = used h (as @ m # bs) - {(m, nx h m)}" "rbase h' = rbase h"
proof -
  have b: "blocks h (as @ m # bs)" and pl: "plugged (us h) as" "plugged (us h) bs"
    using i by (auto simp: list_inv_def plugged_append plugged_Cons)
  note n = blocks_next [OF b]
  let ?h1 = "upd_mem (of_nat m) (ms_used_update (\<lambda>_. 0)) h"
  define h2 where "h2 = (if of_nat m < lfree ?h1 then ?h1\<lparr>lfree := of_nat m\<rparr> else ?h1)"
  have f: "nx h2 = nx h" "pv h2 = pv h" "rbase h2 = rbase h" by (auto simp: h2_def nx_def pv_def upd_mem_def fun_eq_iff)
  have U: "us h2 x = ((us h)(m := False)) x" if "x \<le> 1607" for x using that n(3) by (simp add: h2_def upd_fields)
  have Us: "us h2 x = ((us h)(m := False)) x" if "x \<in> set (as @ m # bs)" for x using U [of x] blocks_bound [OF b that] by simp
  have Us': "us h2 x \<longleftrightarrow> x \<noteq> m \<and> us h x" if "x \<in> set (as @ m # bs)" for x using Us [OF that] by simp
  have lf: "lfree h2 = of_nat (first_free ((us h)(m := False)) (as @ m # bs))"
    using b first_free_release [OF b m] first_free_bound [OF b, of "us h"] n(3)
    by (auto simp: h2_def blocks_def word_less_nat_alt unat_off)
  have ff: "first_free (us h2) (as @ m # bs) = first_free ((us h)(m := False)) (as @ m # bs)" by (intro first_free_cong Us)
  have b2: "blocks h2 (as @ m # bs)" unfolding blocks_def f ff
    using b lf U [of 1600] n(3) by (auto simp: blocks_def)
  have "plugged (us h2) as = plugged (us h) as" by (rule plugged_cong) (use Us n(8) in auto)
  moreover have "plugged (us h2) bs = plugged (us h) bs" by (rule plugged_cong) (use Us n(8) in auto)
  moreover have "\<not> us h2 m" using U [of m] n(3) by simp
  ultimately obtain h' xs where h': "plug_holes (of_nat m) h2 = Some h'" "list_inv h' xs" "used h' xs = used h2 (as @ m # bs)" "rbase h' = rbase h2"
    using plug_holes_ok [OF b2] pl by metis
  have "used h2 (as @ m # bs) = used h (as @ m # bs) - {(m, nx h m)}" unfolding used_def f using Us' by blast
  moreover have "mem_free (rbase h + of_nat (m + 6)) h = plug_holes (of_nat m) h2"
    using rmem_off [OF base n(3)] m by (simp add: mem_free_def mem_consts us_def Let_def h2_def)
  ultimately show thesis using that [of h' xs] h' f(3) by simp
qed

end
