(* ===== verification/LwipHeap.thy ===== *)
theory LwipHeap
  imports LwipMem
begin

text \<open>
  The operations of the lwIP heap that allocate and shrink blocks, and runs of all operations:
  the properties of \<^verbatim>\<open>core/mem.c\<close>.
\<close>

section \<open>Allocating a block\<close>

definition room :: "lwip_heap \<Rightarrow> nat \<Rightarrow> nat \<Rightarrow> bool" where
  "room h sz x \<longleftrightarrow> \<not> us h x \<and> x + 6 + sz \<le> nx h x"

lemma data_size_off:
  assumes "x \<le> 1582" and "x + 18 \<le> nx h x" and "nx h x \<le> 1600"
  shows "unat (data_size (of_nat x) h) = nx h x - (x + 6)"
proof -
  have "unat (ucast (of_nat x :: u16) + SIZEOF_STRUCT_MEM) = x + 6"
    using assms(1) by (simp add: mem_consts unat_word_ariths unat_off64 unat_off)
  moreover have "unat (ucast (of_nat (nx h x) :: u16) :: u64) = nx h x" using assms(3) by (simp add: unat_off64 unat_off)
  ultimately show ?thesis unfolding data_size_def next_off using assms(2) by (subst unat_sub) (simp_all add: word_le_nat_alt)
qed

lemma path_next_bound: "path N P p xs e \<Longrightarrow> x \<in> set xs \<Longrightarrow> N x \<le> e \<and> x + 18 \<le> N x"
proof (induction xs arbitrary: p)
  case (Cons y ys)
  have "N y \<le> e" using Cons.prems(1) path_bound [of N P y ys e "hd ys"] by (cases ys) auto
  then show ?case using Cons by auto
qed simp

lemma mem_search_find:
  assumes "path (nx h) (pv h) p bs 1600" and "sz \<le> 1600"
  shows "mem_search (of_nat sz) (of_nat (hd (bs @ [1600]))) h = Some (map_option of_nat (List.find (room h sz) bs))"
  using assms(1)
proof (induction bs arbitrary: p)
  case Nil
  have "unat (MEM_SIZE_ALIGNED - ucast (of_nat sz :: u16)) = 1600 - sz"
    using assms(2) by (subst unat_sub) (simp_all add: mem_consts word_le_nat_alt unat_off64 unat_off)
  then have "\<not> ucast (1600 :: u16) < MEM_SIZE_ALIGNED - ucast (of_nat sz :: u16)" by (simp add: word_less_nat_alt)
  then show ?case by (subst mem_search.simps) simp
next
  case (Cons x xs)
  have x: "x \<le> 1582" "x + 18 \<le> nx h x" "nx h x \<le> 1600" using path_bound [OF Cons.prems, of x] path_next_bound [OF Cons.prems, of x] by auto
  have lim: "unat (MEM_SIZE_ALIGNED - ucast (of_nat sz :: u16)) = 1600 - sz"
    using assms(2) by (subst unat_sub) (simp_all add: mem_consts word_le_nat_alt unat_off64 unat_off)
  have cond: "ucast (of_nat x :: u16) < MEM_SIZE_ALIGNED - ucast (of_nat sz :: u16) \<longleftrightarrow> x < 1600 - sz"
    using x(1) by (simp add: word_less_nat_alt lim unat_off64 unat_off)
  show ?case
  proof (cases "x < 1600 - sz")
    case True
    have r: "ms_used (ram h (of_nat x)) = 0 \<and> ucast (of_nat sz :: u16) \<le> data_size (of_nat x) h \<longleftrightarrow> room h sz x"
      using data_size_off [OF x] x(2) assms(2) by (auto simp: room_def us_def word_le_nat_alt unat_off64 unat_off)
    have "mem_search (of_nat sz) (of_nat (nx h x)) h = Some (map_option of_nat (List.find (room h sz) xs))"
      using Cons.IH [of x] Cons.prems by simp
    then show ?thesis using x(1) r by (subst mem_search.simps) (simp add: cond True in_ram_off next_off)
  next
    case False
    have "\<not> room h sz y" if "y \<in> set (x # xs)" for y
      using path_bound [OF Cons.prems that] path_next_bound [OF Cons.prems that] False by (auto simp: room_def)
    then have "List.find (room h sz) (x # xs) = None" by (auto simp: find_None_iff)
    then show ?thesis by (subst mem_search.simps) (simp add: cond False del: find.simps)
  qed
qed

lemma adjust_lfree_first:
  assumes "path (nx h) (pv h) p bs 1600" and "us h 1600"
  shows "adjust_lfree (of_nat (hd (bs @ [1600]))) h = Some (of_nat (first_free (us h) bs))"
  using assms(1)
proof (induction bs arbitrary: p)
  case Nil
  have "in_ram 1600" using in_ram_off [of 1600] by simp
  then show ?case by (subst adjust_lfree.simps) (simp add: mem_consts)
next
  case (Cons x xs)
  have x: "x \<le> 1582" using path_bound [OF Cons.prems, of x] by auto
  have "of_nat x \<noteq> ram_end" using off_eq [of x 1600] x by (simp add: mem_consts)
  moreover have "adjust_lfree (of_nat (nx h x)) h = Some (of_nat (first_free (us h) xs))" using Cons.IH [of x] Cons.prems by simp
  ultimately show ?case using x by (subst adjust_lfree.simps) (simp add: in_ram_off us_def next_off)
qed

text \<open>The block at \<open>m\<close> is split: a free block at \<open>k\<close> has the rest.  \<open>f\<close> is the change of the block at \<open>m\<close>.\<close>

definition split_at :: "nat \<Rightarrow> nat \<Rightarrow> nat \<Rightarrow> (mem_struct \<Rightarrow> mem_struct) \<Rightarrow> lwip_heap \<Rightarrow> lwip_heap" where
  "split_at m k e f h =
     (let h = upd_mem (of_nat m) f (upd_mem (of_nat k) (\<lambda>_. \<lparr>ms_next = of_nat e, ms_prev = of_nat m, ms_used = 0\<rparr>) h)
      in if e \<noteq> 1600 then upd_mem (of_nat e) (ms_prev_update (\<lambda>_. of_nat k)) h else h)"

lemma split_at_fields:
  assumes "m < k" and "k < e" and "e \<le> 1600" and f: "\<And>x. ms_next (f x) = of_nat k" "\<And>x. ms_prev (f x) = ms_prev x" and x: "x \<le> 1607"
  shows "nx (split_at m k e f h) x = (if x = m then k else if x = k then e else nx h x)"
    and "x < 1600 \<Longrightarrow> pv (split_at m k e f h) x = (if x = k then m else if x = e then k else pv h x)"
    and "us (split_at m k e f h) x = (if x = m then ms_used (f (ram h (of_nat m))) \<noteq> 0 else if x = k then False else us h x)"
    and "lfree (split_at m k e f h) = lfree h" and "rbase (split_at m k e f h) = rbase h"
proof -
  have ne: "(of_nat m :: u16) \<noteq> of_nat k" "(of_nat m :: u16) \<noteq> of_nat e" "(of_nat k :: u16) \<noteq> of_nat e" using off_eq assms(1-3) by auto
  have r: "ram (upd_mem (of_nat k) g h) (of_nat m) = ram h (of_nat m)" for g using ne by (simp add: upd_mem_def)
  have u: "unat (of_nat k :: u16) = k" "unat (of_nat e :: u16) = e" "unat (of_nat m :: u16) = m" using assms(1-3) by (simp_all add: unat_off)
  show "nx (split_at m k e f h) x = (if x = m then k else if x = k then e else nx h x)"
    "us (split_at m k e f h) x = (if x = m then ms_used (f (ram h (of_nat m))) \<noteq> 0 else if x = k then False else us h x)"
    using assms(1-3) x by (auto simp: split_at_def Let_def upd_fields f r u nx_def [symmetric] us_def [symmetric])
  show "pv (split_at m k e f h) x = (if x = k then m else if x = e then k else pv h x)" if "x < 1600"
    using assms(1-3) that by (auto simp: split_at_def Let_def upd_fields f r u pv_def [symmetric])
  show "lfree (split_at m k e f h) = lfree h" "rbase (split_at m k e f h) = rbase h" by (simp_all add: split_at_def Let_def)
qed

lemma split_at_path:
  assumes b: "blocks h (as @ m # bs)" and "m + 18 \<le> k" and "k + 18 \<le> nx h m"
    and f: "\<And>x. ms_next (f x) = of_nat k" "\<And>x. ms_prev (f x) = ms_prev x"
  shows "path (nx (split_at m k (nx h m) f h)) (pv (split_at m k (nx h m) f h)) 0 (as @ m # k # bs) 1600"
proof (rule path_split)
  show "m + 18 \<le> k" "k + 18 \<le> nx h m" by (fact assms(2), fact assms(3))
  show "path (nx h) (pv h) 0 (as @ m # bs) 1600" using b by (simp add: blocks_def)
  fix x assume "x \<in> set (as @ m # k # bs)"
  then have "x < 1600" using blocks_bound [OF b, of x] blocks_next(4) [OF b] assms(3) by auto
  then show "nx (split_at m k (nx h m) f h) x = (if x = m then k else if x = k then nx h m else nx h x)"
    "pv (split_at m k (nx h m) f h) x = (if x = k then m else if x = nx h m then k else pv h x)"
    using split_at_fields(1,2) [of m k "nx h m" f x h] f assms(2,3) blocks_next(4) [OF b] by simp_all
qed

lemma off_sum:
  assumes "x + 6 + y \<le> 1600"
  shows "(ucast (ucast (of_nat x :: u16) + SIZEOF_STRUCT_MEM + ucast (of_nat y :: u16) :: u64) :: u16) = of_nat (x + 6 + y)"
proof -
  let ?w = "ucast (of_nat x :: u16) + SIZEOF_STRUCT_MEM + ucast (of_nat y :: u16) :: u64"
  have u: "unat ?w = x + 6 + y"
    using assms by (simp add: mem_consts unat_word_ariths unat_off64 unat_off)
  have "ucast ?w = (of_nat (unat ?w) :: u16)" by simp
  then show ?thesis by (simp only: u)
qed

lemma end_off: "x \<le> 1600 \<Longrightarrow> ucast (of_nat x :: u16) = MEM_SIZE_ALIGNED \<longleftrightarrow> x = 1600"
  using unat_off64 [of "of_nat x"] unat_off [of x] by (auto simp: mem_consts)

lemma mem_take_ok:
  assumes b: "blocks h (as @ m # bs)" and "12 \<le> sz" and "room h sz m"
  obtains h' cs where "mem_take (of_nat sz) (of_nat m) h = Some h'" "path (nx h') (pv h') 0 (as @ m # cs) 1600"
    "\<And>x. x \<le> 1607 \<Longrightarrow> x \<in> set as \<or> x \<in> set bs \<or> x = 1600 \<Longrightarrow> us h' x = us h x \<and> nx h' x = nx h x" "us h' m"
    "m + 6 + sz \<le> nx h' m" "lfree h' = lfree h" "rbase h' = rbase h" "cs = bs \<or> (\<exists>k. cs = k # bs \<and> \<not> us h' k)"
proof -
  note n = blocks_next [OF b]
  have r: "\<not> us h m" "m + 6 + sz \<le> nx h m" using assms(3) by (auto simp: room_def)
  have ds: "unat (data_size (of_nat m) h) = nx h m - (m + 6)" by (rule data_size_off [OF n(3,5,4)])
  have sz: "sz \<le> 1600" using r(2) n(4) by simp
  have c: "ucast (of_nat sz :: u16) + SIZEOF_STRUCT_MEM + MIN_SIZE_ALIGNED \<le> data_size (of_nat m) h \<longleftrightarrow> m + sz + 24 \<le> nx h m"
    using sz n(5) by (simp add: word_le_nat_alt mem_consts unat_word_ariths unat_off64 unat_off ds) linarith
  show thesis
  proof (cases "m + sz + 24 \<le> nx h m")
    case True
    let ?k = "m + 6 + sz" and ?f = "\<lambda>s. s\<lparr>ms_next := of_nat (m + 6 + sz), ms_used := 1\<rparr>"
    let ?h = "split_at m ?k (nx h m) ?f h"
    have k: "(ucast (ucast (of_nat m :: u16) + SIZEOF_STRUCT_MEM + ucast (of_nat sz :: u16) :: u64) :: u16) = of_nat ?k"
      using True n(4) by (intro off_sum) simp
    have e: "ucast (of_nat (nx h m) :: u16) \<noteq> MEM_SIZE_ALIGNED \<longleftrightarrow> nx h m \<noteq> 1600" using end_off n(4) by simp
    have t: "mem_take (of_nat sz) (of_nat m) h = Some ?h"
      using c True k e n(4) in_ram_off [of ?k] by (simp add: mem_take_def Let_def next_off in_ram_off split_at_def)
    have lim: "m < ?k" "?k < nx h m" using True by simp_all
    have p: "path (nx ?h) (pv ?h) 0 (as @ m # ?k # bs) 1600" by (rule split_at_path [OF b]) (use assms(2) True in simp_all)
    have F: "nx ?h x = (if x = m then ?k else if x = ?k then nx h m else nx h x)" "us ?h x = (if x = m then True else if x = ?k then False else us h x)"
      if "x \<le> 1607" for x using split_at_fields(1,3) [where m = m and k = ?k and e = "nx h m" and f = ?f and x = x and h = h] lim n(4) that by simp_all
    have "x \<noteq> m \<and> x \<noteq> ?k" if "x \<in> set as \<or> x \<in> set bs \<or> x = 1600" for x using that n(3,4) n(6,7) [of x] n(8) lim by auto
    with F have "us ?h x = us h x \<and> nx ?h x = nx h x" if "x \<le> 1607" "x \<in> set as \<or> x \<in> set bs \<or> x = 1600" for x using that by simp
    moreover have "us ?h m" "nx ?h m = ?k" "\<not> us ?h ?k" using F [of m] F [of ?k] lim n(3,4) by auto
    moreover have "lfree ?h = lfree h" "rbase ?h = rbase h" by (simp_all add: split_at_def Let_def)
    ultimately show thesis using that [of ?h "?k # bs"] t p by simp
  next
    case False
    let ?h = "upd_mem (of_nat m) (ms_used_update (\<lambda>_. 1)) h"
    have "mem_take (of_nat sz) (of_nat m) h = Some ?h" using c False by (simp add: mem_take_def)
    moreover have "nx ?h = nx h" "pv ?h = pv h" by (auto simp: nx_def pv_def upd_mem_def fun_eq_iff)
    moreover have "us ?h x = us h x" if "x \<le> 1607" "x \<in> set as \<or> x \<in> set bs \<or> x = 1600" for x
      using that n(3,8) by (auto simp: upd_fields)
    moreover have "us ?h m" using n(3) by (simp add: upd_fields)
    ultimately show thesis using that [of ?h bs] b r(2) by (simp add: blocks_def)
  qed
qed

lemma first_free_all: "\<forall>x \<in> set xs. U x \<Longrightarrow> first_free U (xs @ ys) = first_free U ys"
  by (simp add: first_free_append)

text \<open>Taking a free block with room for the request.\<close>

lemma mem_malloc_block:
  assumes i: "list_inv h (as @ m # bs)" and "12 \<le> sz" and r: "room h sz m"
  obtains h' cs where "mem_place (of_nat sz) (of_nat m) h = Some h'" "list_inv h' (as @ m # cs)" "used h' (as @ m # cs) = insert (m, nx h' m) (used h (as @ m # bs))"
    "m + 6 + sz \<le> nx h' m" "rbase h' = rbase h"
proof -
  have b: "blocks h (as @ m # bs)" and pl: "plugged (us h) (as @ m # bs)" using i by (auto simp: list_inv_def)
  note n = blocks_next [OF b]
  have fr: "\<not> us h m" using r by (simp add: room_def)
  obtain h1 cs where h1: "mem_take (of_nat sz) (of_nat m) h = Some h1" "path (nx h1) (pv h1) 0 (as @ m # cs) 1600"
    "\<And>x. x \<le> 1607 \<Longrightarrow> x \<in> set as \<or> x \<in> set bs \<or> x = 1600 \<Longrightarrow> us h1 x = us h x \<and> nx h1 x = nx h x" "us h1 m"
    "m + 6 + sz \<le> nx h1 m" "lfree h1 = lfree h" "rbase h1 = rbase h" "cs = bs \<or> (\<exists>k. cs = k # bs \<and> \<not> us h1 k)"
    using mem_take_ok [OF b assms(2) r] by metis
  have same: "us h1 x = us h x \<and> nx h1 x = nx h x" if "x \<in> set as \<or> x \<in> set bs" for x
    using h1(3) [of x] blocks_bound [OF b, of x] that by auto
  have e: "us h1 1600" using h1(3) [of 1600] b by (simp add: blocks_def)
  have pa: "plugged (us h1) as = plugged (us h) as" and pb: "plugged (us h1) bs = plugged (us h) bs"
    using same by (auto intro!: plugged_cong)
  have "bs = [] \<or> us h1 (hd bs)" using pl fr same [of "hd bs"] by (cases bs) (auto simp: plugged_append plugged_Cons)
  then have plug: "plugged (us h1) (as @ m # cs)"
    using pl h1(4,8) pa pb by (auto simp: plugged_append plugged_Cons)
  have us: "used h1 (as @ m # cs) = insert (m, nx h1 m) (used h (as @ m # bs))"
    using h1(4,8) same fr by (auto simp: used_def)
  let ?l = "first_free (us h1) (as @ m # cs)"
  have asfree: "first_free (us h1) as = first_free (us h) as" using same by (auto intro!: first_free_cong)
  have lf: "lfree h1 = of_nat (first_free (us h) (as @ m # bs))" using b h1(6) by (simp add: blocks_def)
  have final: "list_inv (h1\<lparr>lfree := of_nat ?l\<rparr>) (as @ m # cs)" 
    using h1(2) e plug b by (cases as) (simp_all add: list_inv_def blocks_def)
  show thesis
  proof (cases "\<forall>x \<in> set as. us h x")
    case True
    then have "lfree h1 = of_nat m" using lf fr by (simp add: first_free_append)
    moreover have l: "?l = first_free (us h1) (m # cs)" using True same by (simp add: first_free_append)
    moreover have "adjust_lfree (of_nat m) h1 = Some (of_nat ?l)"
      using adjust_lfree_first [of h1 "last (0 # as)" "m # cs"] h1(2) e by (simp add: path_append l)
    moreover have "of_nat ?l = ram_end \<or> ms_used (ram h1 (of_nat ?l)) = 0"
    proof -
      have "first_free U ys = 1600 \<or> \<not> U (first_free U ys)" for U and ys :: "nat list" by (induction ys) auto
      from this [of "us h1" "as @ m # cs"] show ?thesis by (auto simp: us_def mem_consts)
    qed
    ultimately show thesis using that [of "h1\<lparr>lfree := of_nat ?l\<rparr>" cs] h1(1,5,7) final us by (simp add: used_def mem_place_def)
  next
    case False
    then have l: "first_free (us h) (as @ m # bs) = first_free (us h) as" "?l = first_free (us h) as" using same asfree by (auto simp: first_free_append)
    have "first_free (us h) as \<in> set as" using False by (induction as) auto
    then have "first_free (us h) as \<noteq> m" "first_free (us h) as \<le> 1607" using n(6) n(3) by fastforce+
    then have "of_nat m \<noteq> lfree h1" using lf l off_eq [of "first_free (us h) as" m] n(3) by simp
    moreover have "h1\<lparr>lfree := of_nat ?l\<rparr> = h1" using lf l by (cases h1) simp
    ultimately show thesis using that [of h1 cs] h1(1,5,7) final us by (simp add: mem_place_def)
  qed
qed

definition req_size :: "u16 \<Rightarrow> nat" where
  "req_size w = max 12 (unat w)"

lemma adjust_size_off: "adjust_size w = of_nat (req_size w)" and req_size_u16: "unat (of_nat (req_size w) :: u16) = req_size w"
proof -
  have "unat w < 2 ^ 16" using unsigned_less [of w] by simp
  then have u: "unat (of_nat (req_size w) :: u16) = req_size w" by (simp add: unsigned_of_nat take_bit_eq_mod req_size_def)
  then show "unat (of_nat (req_size w) :: u16) = req_size w" .
  have "ucast (ucast w :: u64) = (of_nat (unat (ucast w :: u64)) :: u16)" by simp
  then have "ucast (ucast w :: u64) = w" by (simp only: unat_off64) simp
  then show "adjust_size w = of_nat (req_size w)"
    by (auto simp: adjust_size_def mem_consts req_size_def Let_def word_less_nat_alt unat_off64 max_def)
qed

lemma first_free_drop: "first_free U xs = hd (dropWhile U xs @ [1600])"
  by (induction xs) auto

lemma find_drop: "(\<And>x. U x \<Longrightarrow> \<not> P x) \<Longrightarrow> List.find P (dropWhile U xs) = List.find P xs"
  by (induction xs) auto

lemma mem_search_inv:
  assumes b: "blocks h xs" and "sz \<le> 1600"
  shows "mem_search (of_nat sz) (lfree h) h = Some (map_option of_nat (List.find (room h sz) xs))"
proof -
  have "path (nx h) (pv h) (last (0 # takeWhile (us h) xs)) (dropWhile (us h) xs) 1600"
    using b path_append [of "nx h" "pv h" 0 "takeWhile (us h) xs" "dropWhile (us h) xs" 1600] by (simp add: blocks_def)
  from mem_search_find [OF this assms(2)] show ?thesis
    using b by (simp add: blocks_def first_free_drop find_drop room_def)
qed

lemma no_room:
  assumes "blocks h xs" and "1600 < sz"
  shows "List.find (room h sz) xs = None"
proof -
  have "\<not> room h sz x" if "x \<in> set xs" for x
    using path_next_bound [of "nx h" "pv h" 0 xs 1600 x] assms that by (auto simp: blocks_def room_def)
  then show ?thesis by (auto simp: find_None_iff)
qed

text \<open>\<^verbatim>\<open>mem_malloc\<close> takes the first block with room for the request, and fails only if there is none.\<close>

lemma mem_malloc_none:
  assumes "list_inv h xs" and "List.find (room h (req_size w)) xs = None"
  shows "mem_malloc w h = Some (0, h)"
proof (cases "req_size w \<le> 1600")
  case True
  then show ?thesis using mem_search_inv [of h xs "req_size w"] assms
    by (simp add: mem_malloc_def list_inv_def adjust_size_off Let_def)
next
  case False
  then show ?thesis
    by (simp add: mem_malloc_def adjust_size_off Let_def mem_consts word_less_nat_alt unat_off64 req_size_u16)
qed

lemma mem_malloc_some:
  assumes i: "list_inv h xs" and base: "base_ok h" and "w \<noteq> 0" and f: "List.find (room h (req_size w)) xs = Some m"
  obtains h' ys where "mem_malloc w h = Some (rbase h + of_nat (m + 6), h')" "list_inv h' ys" "used h' ys = insert (m, nx h' m) (used h xs)"
    "m + 6 + req_size w \<le> nx h' m" "m \<in> set xs" "\<not> us h m" "rbase h' = rbase h"
proof -
  have m: "m \<in> set xs" "room h (req_size w) m" using f by (auto simp: find_Some_iff)
  then obtain as bs where xs: "xs = as @ m # bs" by (meson split_list)
  have b: "blocks h xs" using i by (simp add: list_inv_def)
  have sz: "12 \<le> req_size w" "req_size w \<le> 1600" using no_room [OF b, of "req_size w"] f by (auto simp: req_size_def not_less [symmetric])
  obtain h' cs where h': "mem_place (of_nat (req_size w)) (of_nat m) h = Some h'" "list_inv h' (as @ m # cs)" "used h' (as @ m # cs) = insert (m, nx h' m) (used h (as @ m # bs))"
    "m + 6 + req_size w \<le> nx h' m" "rbase h' = rbase h"
    by (rule mem_malloc_block [OF i [unfolded xs] sz(1) m(2)])
  have n: "m \<le> 1582" "nx h' m \<le> 1600" using blocks_next(3,4) [of h' as m cs] h'(2) by (simp_all add: list_inv_def)
  have "unat (rbase h + 1600) = unat (rbase h) + 1600" using base by (simp add: unat_word_ariths base_ok_def)
  moreover have "unat (rbase h + ucast (of_nat m :: u16) + 6 + ucast (of_nat (req_size w) :: u16)) = unat (rbase h) + m + 6 + req_size w"
    using base n h'(4) by (simp add: unat_word_ariths base_ok_def unat_off64 unat_off req_size_u16)
  ultimately have le: "rbase h + ucast (of_nat m :: u16) + SIZEOF_STRUCT_MEM + ucast (of_nat (req_size w) :: u16) \<le> rbase h + ucast ram_end"
    using n h'(4) by (simp add: word_le_nat_alt mem_consts)
  have p: "rbase h + ucast (of_nat m :: u16) + SIZEOF_STRUCT_MEM = rbase h + of_nat (m + 6)"
    using n by (simp add: mem_consts unsigned_of_nat take_bit_eq_mod)
  have "mem_malloc w h = Some (rbase h + of_nat (m + 6), h')"
    using assms(3) mem_search_inv [OF b sz(2)] f h'(1,5) le p sz(2)
    by (simp add: mem_malloc_def adjust_size_off Let_def mem_consts word_less_nat_alt unat_off64 unat_off)
  then show thesis using that [of h' "as @ m # cs"] h'(2-5) m xs by (simp add: room_def)
qed

section \<open>Shrinking a block\<close>

lemma trim_size_off:
  assumes "x \<le> 1582" and "x + 18 \<le> nx h x" and "nx h x \<le> 1600"
  shows "(ucast (ucast (ms_next (ram h (of_nat x))) - ucast (of_nat x :: u16) - SIZEOF_STRUCT_MEM :: u64) :: u16) = of_nat (nx h x - x - 6)"
proof -
  let ?w = "ucast (of_nat (nx h x) :: u16) - ucast (of_nat x :: u16) - SIZEOF_STRUCT_MEM :: u64"
  have "?w = data_size (of_nat x) h" by (simp add: data_size_def next_off)
  then have u: "unat ?w = nx h x - x - 6" using data_size_off [OF assms] by simp
  have "ucast ?w = (of_nat (unat ?w) :: u16)" by simp
  then show ?thesis unfolding next_off by (simp only: u)
qed

lemma first_free_in: "\<not> (\<forall>x \<in> set xs. U x) \<Longrightarrow> first_free U (xs @ ys) = first_free U xs \<and> first_free U xs \<in> set xs"
  by (induction xs) auto

lemma trimmed_inv:
  assumes p: "path (nx h') (pv h') 0 (as @ m # k # bs) 1600" and "hd (as @ [m]) = 0" and e: "us h' 1600"
    and same: "\<And>x. x \<in> set as \<or> x \<in> set bs \<Longrightarrow> us h' x = us h x" and mk: "us h' m" "\<not> us h' k"
    and pl: "plugged (us h) as" "plugged (us h) bs" "bs = [] \<or> us h (hd bs)"
    and l: "lfree h' = of_nat (if \<forall>x \<in> set as. us h x then k else first_free (us h) as)"
  shows "list_inv h' (as @ m # k # bs)"
proof -
  have "plugged (us h') as = plugged (us h) as" "plugged (us h') bs = plugged (us h) bs" using same by (auto intro!: plugged_cong)
  then have "plugged (us h') (as @ m # k # bs)" using pl mk same [of "hd bs"] by (cases bs) (auto simp: plugged_append plugged_Cons)
  moreover have "first_free (us h') as = first_free (us h) as" using same by (auto intro!: first_free_cong)
  then have ff: "first_free (us h') (as @ m # k # bs) = (if \<forall>x \<in> set as. us h x then k else first_free (us h) as)"
    using mk same by (auto simp: first_free_append)
  moreover have "hd (as @ m # k # bs) = 0" using assms(2) by (cases as) auto
  ultimately show ?thesis unfolding list_inv_def blocks_def ff using p e l by simp
qed

text \<open>The next block is free: it is moved down to the end of the shrunk one.\<close>

lemma trim_move:
  assumes b: "blocks h (as @ m # n # bs)" and m: "us h m" and "\<not> us h n" and pl: "plugged (us h) (as @ m # n # bs)"
    and k: "m + 18 \<le> k" "k < n"
  defines "h1 \<equiv> if lfree h = of_nat n then h\<lparr>lfree := of_nat k\<rparr> else h"
  defines "h' \<equiv> split_at m k (nx h n) (ms_next_update (\<lambda>_. of_nat k)) h1"
  shows "list_inv h' (as @ m # k # bs)"
    and "used h' (as @ m # k # bs) = insert (m, k) (used h (as @ m # n # bs) - {(m, nx h m)})" and "rbase h' = rbase h" and "nx h' m = k"
proof -
  have b': "blocks h ((as @ [m]) @ n # bs)" using b by simp
  note mm = blocks_next [OF b] and nn = blocks_next [OF b']
  have h1: "nx h1 = nx h" "pv h1 = pv h" "us h1 = us h" "rbase h1 = rbase h" "ram h1 = ram h" by (simp_all add: h1_def)
  have lim: "m < k" "k < nx h n" "nx h n \<le> 1600" using k nn(4,5) by auto
  note F = split_at_fields [where m = m and k = k and e = "nx h n" and f = "ms_next_update (\<lambda>_. of_nat k)" and h = h1, folded h'_def]
  have N: "nx h' x = (if x = m then k else if x = k then nx h n else nx h x)" if "x \<le> 1607" for x using F(1) lim that by (simp add: h1)
  have U: "us h' x = (if x = m then True else if x = k then False else us h x)" if "x \<le> 1607" for x
    using F(3) lim that m by (simp add: h1 us_def)
  have P: "pv h' x = (if x = k then m else if x = nx h n then k else pv h x)" if "x < 1600" for x using F(2) lim that by (simp add: h1)
  show "rbase h' = rbase h" "nx h' m = k" using F(5) [of 0] N [of m] lim by (simp_all add: h1)
  have bd: "x < 1600" if "x \<in> set (as @ m # k # bs)" for x using that blocks_bound [OF b, of x] lim by auto
  have ne: "x \<noteq> m \<and> x \<noteq> k" if "x \<in> set as \<or> x \<in> set bs" for x using that mm(6,7) [of x] nn(6,7) [of x] lim mm(8) by auto
  let ?N = "(nx h)(m := nx h n)" and ?P = "(pv h)(nx h n := m)"
  have "path ?N ?P 0 (as @ m # bs) 1600"
    by (rule path_merge [where N = "nx h" and P = "pv h" and n = n]) (use b in \<open>simp_all add: blocks_def\<close>)
  then have path: "path (nx h') (pv h') 0 (as @ m # k # bs) 1600"
  proof (rule path_split)
    show "m + 18 \<le> k" "k + 18 \<le> ?N m" using k nn(5) by auto
    fix x assume "x \<in> set (as @ m # k # bs)"
    then show "nx h' x = (if x = m then k else if x = k then ?N m else ?N x)" "pv h' x = (if x = k then m else if x = ?N m then k else ?P x)"
      using N [of x] P [of x] bd [of x] by simp_all
  qed
  have same: "us h' x = us h x" "nx h' x = nx h x" if "x \<in> set as \<or> x \<in> set bs" for x using U [of x] N [of x] ne [OF that] bd [of x] that by auto
  have Umk: "us h' m" "\<not> us h' k" using U [of m] U [of k] lim by auto
  have l: "lfree h' = of_nat (if \<forall>x \<in> set as. us h x then k else first_free (us h) as)"
  proof (cases "\<forall>x \<in> set as. us h x")
    case True
    then have "lfree h = of_nat n" using b m assms(3) by (simp add: blocks_def first_free_append)
    then show ?thesis using True F(4) [of 0] lim by (simp add: h1_def)
  next
    case False
    note ff = first_free_in [OF False]
    then have "first_free (us h) as < n" "lfree h = of_nat (first_free (us h) as)"
      using nn(6) [of "first_free (us h) as"] b by (simp_all add: blocks_def)
    then have "lfree h' = of_nat (first_free (us h) as)" using F(4) [of 0] lim off_eq [of "first_free (us h) as" n] nn(3) by (simp add: h1_def)
    then show ?thesis using False by auto
  qed
  show "list_inv h' (as @ m # k # bs)"
  proof (rule trimmed_inv [OF path _ _ same(1) Umk _ _ _ l])
    show "plugged (us h) as" "plugged (us h) bs" "bs = [] \<or> us h (hd bs)" using pl assms(3) by (auto simp: plugged_append plugged_Cons)
    show "hd (as @ [m]) = 0" "us h' 1600" using b U [of 1600] lim mm(3) by (cases as, auto simp: blocks_def)
  qed
  show "used h' (as @ m # k # bs) = insert (m, k) (used h (as @ m # n # bs) - {(m, nx h m)})"
    using same Umk N [of m] lim assms(3) ne mm(8) by (auto simp: used_def)
qed

text \<open>The next block is in use: the rest becomes a block of its own.\<close>

lemma trim_split:
  assumes b: "blocks h (as @ m # bs)" and m: "us h m" and pl: "plugged (us h) (as @ m # bs)" and bs: "bs = [] \<or> us h (hd bs)"
    and k: "m + 18 \<le> k" "k + 18 \<le> nx h m"
  defines "h1 \<equiv> if of_nat k < lfree h then h\<lparr>lfree := of_nat k\<rparr> else h"
  defines "h' \<equiv> split_at m k (nx h m) (ms_next_update (\<lambda>_. of_nat k)) h1"
  shows "list_inv h' (as @ m # k # bs)"
    and "used h' (as @ m # k # bs) = insert (m, k) (used h (as @ m # bs) - {(m, nx h m)})" and "rbase h' = rbase h" and "nx h' m = k"
proof -
  note mm = blocks_next [OF b]
  have h1: "nx h1 = nx h" "pv h1 = pv h" "us h1 = us h" "rbase h1 = rbase h" "ram h1 = ram h" by (simp_all add: h1_def)
  have lim: "m < k" "k < nx h m" "nx h m \<le> 1600" using k mm(4) by auto
  note F = split_at_fields [where m = m and k = k and e = "nx h m" and f = "ms_next_update (\<lambda>_. of_nat k)" and h = h1, folded h'_def]
  have N: "nx h' x = (if x = m then k else if x = k then nx h m else nx h x)" if "x \<le> 1607" for x using F(1) lim that by (simp add: h1)
  have U: "us h' x = (if x = m then True else if x = k then False else us h x)" if "x \<le> 1607" for x
    using F(3) lim that m by (simp add: h1 us_def)
  have P: "pv h' x = (if x = k then m else if x = nx h m then k else pv h x)" if "x < 1600" for x using F(2) lim that by (simp add: h1)
  show "rbase h' = rbase h" "nx h' m = k" using F(5) [of 0] N [of m] lim by (simp_all add: h1)
  have bd: "x < 1600" if "x \<in> set (as @ m # k # bs)" for x using that blocks_bound [OF b, of x] lim by auto
  have ne: "x \<noteq> m \<and> x \<noteq> k" if "x \<in> set as \<or> x \<in> set bs" for x using that mm(6,7) [of x] lim mm(8) by auto
  have path: "path (nx h') (pv h') 0 (as @ m # k # bs) 1600"
  proof (rule path_split)
    show "path (nx h) (pv h) 0 (as @ m # bs) 1600" "m + 18 \<le> k" "k + 18 \<le> nx h m" using b k by (auto simp: blocks_def)
    fix x assume "x \<in> set (as @ m # k # bs)"
    then show "nx h' x = (if x = m then k else if x = k then nx h m else nx h x)" "pv h' x = (if x = k then m else if x = nx h m then k else pv h x)"
      using N [of x] P [of x] bd [of x] by simp_all
  qed
  have same: "us h' x = us h x" "nx h' x = nx h x" if "x \<in> set as \<or> x \<in> set bs" for x using U [of x] N [of x] ne [OF that] bd [of x] that by auto
  have Umk: "us h' m" "\<not> us h' k" using U [of m] U [of k] lim by auto
  have l: "lfree h' = of_nat (if \<forall>x \<in> set as. us h x then k else first_free (us h) as)"
  proof (cases "\<forall>x \<in> set as. us h x")
    case True
    have "first_free (us h) bs = 1600 \<or> first_free (us h) bs \<in> set bs" by (induction bs) auto
    then have "k < first_free (us h) bs" "first_free (us h) bs \<le> 1600" using mm(7) lim by fastforce+
    moreover have "lfree h = of_nat (first_free (us h) bs)" using True b m by (simp add: blocks_def first_free_append)
    ultimately show ?thesis using True F(4) [of 0] lim by (simp add: h1_def word_less_nat_alt unat_off)
  next
    case False
    note ff = first_free_in [OF False]
    then have "first_free (us h) as < k" "lfree h = of_nat (first_free (us h) as)"
      using mm(6) [of "first_free (us h) as"] b lim by (simp_all add: blocks_def)
    then have "lfree h' = of_nat (first_free (us h) as)" using F(4) [of 0] lim by (simp add: h1_def word_less_nat_alt unat_off)
    then show ?thesis using False by auto
  qed
  show "list_inv h' (as @ m # k # bs)"
  proof (rule trimmed_inv [OF path _ _ same(1) Umk _ _ bs l])
    show "plugged (us h) as" "plugged (us h) bs" using pl by (auto simp: plugged_append plugged_Cons)
    show "hd (as @ [m]) = 0" "us h' 1600" using b U [of 1600] lim mm(3) by (cases as, auto simp: blocks_def)
  qed
  show "used h' (as @ m # k # bs) = insert (m, k) (used h (as @ m # bs) - {(m, nx h m)})"
    using same Umk N [of m] lim ne mm(8) by (auto simp: used_def)
qed

lemma mem_trim_move_ok:
  assumes b: "blocks h (as @ m # n # bs)" and k: "k = m + 6 + sz" "k < n"
  shows "mem_trim_move (of_nat m) (of_nat sz) h = Some (split_at m k (nx h n) (ms_next_update (\<lambda>_. of_nat k))
    (if lfree h = of_nat n then h\<lparr>lfree := of_nat k\<rparr> else h))"
proof -
  have b': "blocks h ((as @ [m]) @ n # bs)" using b by simp
  note m = blocks_next [OF b] and n = blocks_next [OF b']
  have "ucast (of_nat (nx h n) :: u16) = MEM_SIZE_ALIGNED \<longleftrightarrow> nx h n = 1600" by (rule end_off [OF n(4)])
  moreover have "(ucast (ucast (of_nat m :: u16) + SIZEOF_STRUCT_MEM + ucast (of_nat sz :: u16) :: u64) :: u16) = of_nat k"
    unfolding k(1) by (rule off_sum) (use k n(3) in simp)
  ultimately show ?thesis using m(1) n(3,4) k(2)
    by (simp add: mem_trim_move_def Let_def next_off split_at_def in_ram_off del: of_nat_add)
qed

lemma mem_trim_split_ok:
  assumes b: "blocks h (as @ m # bs)" and k: "k = m + 6 + sz" "k < nx h m"
  shows "mem_trim_split (of_nat m) (of_nat sz) h = Some (split_at m k (nx h m) (ms_next_update (\<lambda>_. of_nat k))
    (if of_nat k < lfree h then h\<lparr>lfree := of_nat k\<rparr> else h))"
proof -
  note m = blocks_next [OF b]
  have "ucast (of_nat (nx h m) :: u16) = MEM_SIZE_ALIGNED \<longleftrightarrow> nx h m = 1600" by (rule end_off [OF m(4)])
  moreover have "(ucast (ucast (of_nat m :: u16) + SIZEOF_STRUCT_MEM + ucast (of_nat sz :: u16) :: u64) :: u16) = of_nat k"
    unfolding k(1) by (rule off_sum) (use k m(4) in simp)
  moreover have "ms_next (ram (h\<lparr>lfree := l\<rparr>) (of_nat m)) = of_nat (nx h m)" for l by (simp add: next_off)
  ultimately show ?thesis using m(3,4) k(2)
    by (simp add: mem_trim_split_def Let_def next_off split_at_def in_ram_off)
qed

lemma mem_trim_ok:
  assumes i: "list_inv h (as @ m # bs)" and m: "us h m" and base: "base_ok h" and s: "m + 6 + req_size w \<le> nx h m"
    and p: "p = rbase h + of_nat (m + 6)"
  obtains h' ys where "mem_trim p w h = Some (p, h')" "list_inv h' ys"
    "used h' ys = insert (m, nx h' m) (used h (as @ m # bs) - {(m, nx h m)})" "m + 6 + req_size w \<le> nx h' m" "nx h' m \<le> nx h m" "rbase h' = rbase h"
proof -
  have b: "blocks h (as @ m # bs)" and pl: "plugged (us h) (as @ m # bs)" using i by (auto simp: list_inv_def)
  note n = blocks_next [OF b] and r = rmem_off [OF base n(3), folded p]
  define sz where "sz = req_size w"
  define d where "d = nx h m - m - 6"
  define k where "k = m + 6 + sz"
  have s12: "12 \<le> sz" by (simp add: sz_def req_size_def)
  have lim: "sz \<le> 1600" "d \<le> 1600" "sz \<le> d" using s n(4) by (auto simp: sz_def d_def)
  have big: "\<not> MEM_SIZE_ALIGNED < ucast (of_nat sz :: u16)" using lim(1) by (simp add: mem_consts word_less_nat_alt unat_off64 unat_off)
  have size: "(ucast (ucast (ms_next (ram h (of_nat m))) - ucast (of_nat m :: u16) - SIZEOF_STRUCT_MEM :: u64) :: u16) = of_nat d"
    unfolding d_def by (rule trim_size_off [OF n(3,5,4)])
  have le: "(of_nat sz :: u16) \<le> of_nat d" "(of_nat sz :: u16) = of_nat d \<longleftrightarrow> sz = d"
    using lim off_eq [of sz d] by (simp_all add: word_le_nat_alt unat_off)
  have rest: "ucast (of_nat sz :: u16) + SIZEOF_STRUCT_MEM + MIN_SIZE_ALIGNED \<le> ucast (of_nat d :: u16) \<longleftrightarrow> sz + 18 \<le> d"
    using lim by (simp add: mem_consts word_le_nat_alt unat_word_ariths unat_off64 unat_off) arith
  have keep: "used h (as @ m # bs) = insert (m, nx h m) (used h (as @ m # bs) - {(m, nx h m)})" using m by (auto simp: used_def)
  have e: "in_ram (ms_next (ram h (of_nat m)))" using n(4) by (simp add: next_off in_ram_off)
  have u: "us h (nx h m) \<longleftrightarrow> ms_used (ram h (ms_next (ram h (of_nat m)))) \<noteq> 0" by (simp add: us_def next_off)
  have trim: "mem_trim p w h = (if sz = d then Some (p, h) else do {
      h \<leftarrow> (if \<not> us h (nx h m) then mem_trim_move (of_nat m) (of_nat sz) h
           else if sz + 18 \<le> d then mem_trim_split (of_nat m) (of_nat sz) h else Some h);
      Some (p, h) })"
    unfolding mem_trim_def adjust_size_off sz_def [symmetric] by (simp add: Let_def u big r(1,2) size le e rest)
  show thesis
  proof (cases "sz < d \<and> (\<not> us h (nx h m) \<or> sz + 18 \<le> d)")
    case False
    then have "mem_trim p w h = Some (p, h)" using trim lim(3) by auto
    then show thesis using that [of h] i keep s by simp
  next
    case True
    have k: "m + 18 \<le> k" "k < nx h m" "m + 6 + req_size w = k" using s12 True n(5) by (auto simp: k_def d_def sz_def)
    show thesis
    proof (cases "us h (nx h m)")
      case False
      then obtain q cs where bs: "bs = q # cs" and q: "q = nx h m" using n(1) b by (cases bs) (auto simp: blocks_def)
      have nq: "\<not> us h q" "k < q" using False k(2) q by simp_all
      note t = trim_move [OF b [unfolded bs] m nq(1) pl [unfolded bs] k(1) nq(2)]
      show thesis using that [OF _ t(1)] t(2-4) k trim True False mem_trim_move_ok [OF b [unfolded bs] k_def nq(2)] by (simp add: bs)
    next
      case us: True
      have bs: "bs = [] \<or> us h (hd bs)" using n(1) us by (cases bs) auto
      have kk: "k + 18 \<le> nx h m" using True us n(5) by (auto simp: k_def d_def)
      note t = trim_split [OF b m pl bs k(1) kk]
      show thesis using that [OF _ t(1)] t(2-4) k trim True us mem_trim_split_ok [OF b k_def k(2)] by simp
    qed
  qed
qed

section \<open>Runs\<close>

text \<open>
  What the users of the heap hold: the pointers they got and have not freed, with the sizes
  they asked for.  They free and shrink only those.
\<close>

datatype lwip_op = MemMalloc u16 | MemTrim u64 u16 | MemFree u64

fun lwip_step :: "lwip_op \<Rightarrow> (u64 \<rightharpoonup> nat) \<times> lwip_heap \<Rightarrow> ((u64 \<rightharpoonup> nat) \<times> lwip_heap) option" where
  "lwip_step (MemMalloc w) (live, h) = do { (p, h) \<leftarrow> mem_malloc w h; Some (if p = 0 then live else live(p \<mapsto> unat w), h) }"
| "lwip_step (MemTrim p w) (live, h) = do { (q, h) \<leftarrow> mem_trim p w h; Some (live(p \<mapsto> unat w), h) }"
| "lwip_step (MemFree p) (live, h) = do { h \<leftarrow> mem_free p h; Some (live(p := None), h) }"

fun lwip_op_ok :: "lwip_op \<Rightarrow> (u64 \<rightharpoonup> nat) \<times> lwip_heap \<Rightarrow> bool" where
  "lwip_op_ok (MemMalloc w) (live, h) \<longleftrightarrow> True"
| "lwip_op_ok (MemTrim p w) (live, h) \<longleftrightarrow> (case live p of None \<Rightarrow> False | Some n \<Rightarrow> unat w \<le> n)"
| "lwip_op_ok (MemFree p) (live, h) \<longleftrightarrow> live p \<noteq> None"

definition ptr_of :: "lwip_heap \<Rightarrow> nat \<Rightarrow> u64" where
  "ptr_of h x = rbase h + of_nat (x + 6)"

definition held :: "(u64 \<rightharpoonup> nat) \<Rightarrow> lwip_heap \<Rightarrow> (nat \<times> nat) set \<Rightarrow> bool" where
  "held live h U \<longleftrightarrow> dom live = ptr_of h ` fst ` U \<and> (\<forall>(x, e) \<in> U. \<forall>n. live (ptr_of h x) = Some n \<longrightarrow> x + 6 + max 12 n \<le> e)"

fun lwip_inv :: "u64 \<Rightarrow> (u64 \<rightharpoonup> nat) \<times> lwip_heap \<Rightarrow> bool" where
  "lwip_inv b (live, h) \<longleftrightarrow> rbase h = b \<and> base_ok h \<and> (\<exists>xs. list_inv h xs \<and> held live h (used h xs))"

lemma ptr_of_eq: "base_ok h \<Longrightarrow> x \<le> 1582 \<Longrightarrow> y \<le> 1582 \<Longrightarrow> ptr_of h x = ptr_of h y \<longleftrightarrow> x = y"
  using rmem_off(4) [of h x] rmem_off(4) [of h y] by (metis ptr_of_def add_right_cancel add_left_cancel)

lemma used_block:
  assumes "list_inv h xs" and "(x, e) \<in> used h xs"
  obtains as bs where "xs = as @ x # bs" "us h x" "e = nx h x" "x \<le> 1582"
  using assms blocks_bound [of h xs x] by (auto simp: used_def list_inv_def dest: split_list)

lemma held_cong: "rbase h' = rbase h \<Longrightarrow> held live h' U = held live h U"
  by (simp add: held_def ptr_of_def)

lemma held_size: "held live h V \<Longrightarrow> (x, d) \<in> V \<Longrightarrow> live (ptr_of h x) = Some k \<Longrightarrow> x + 6 + max 12 k \<le> d"
  by (auto simp: held_def)

lemma held_insert:
  assumes "held live h (U - {(m, e)})" and "\<And>x e'. (x, e') \<in> U - {(m, e)} \<Longrightarrow> ptr_of h x \<noteq> ptr_of h m" and "m + 6 + max 12 n \<le> e'"
  shows "held (live(ptr_of h m \<mapsto> n)) h (insert (m, e') (U - {(m, e)}))"
proof -
  have "dom (live(ptr_of h m \<mapsto> n)) = ptr_of h ` fst ` insert (m, e') (U - {(m, e)})" using assms(1) by (simp add: held_def)
  moreover have "x + 6 + max 12 k \<le> d" if "(x, d) \<in> insert (m, e') (U - {(m, e)})" "(live(ptr_of h m \<mapsto> n)) (ptr_of h x) = Some k" for x d k
  proof (cases "(x, d) = (m, e')")
    case False
    then have "(x, d) \<in> U - {(m, e)}" using that(1) by blast
    then show ?thesis using held_size [OF assms(1)] assms(2) [of x d] that(2) by simp
  qed (use that(2) assms(3) in simp)
  ultimately show ?thesis by (auto simp: held_def)
qed

lemma held_delete:
  assumes "held live h U" and "(m, e) \<in> U" and "\<And>x e'. (x, e') \<in> U \<Longrightarrow> (x, e') \<noteq> (m, e) \<Longrightarrow> ptr_of h x \<noteq> ptr_of h m"
  shows "held (live(ptr_of h m := None)) h (U - {(m, e)})"
proof -
  have d: "dom live = ptr_of h ` fst ` U" using assms(1) by (simp add: held_def)
  let ?V = "U - {(m, e)}"
  have "insert (m, e) ?V = U" using assms(2) by auto
  then have "ptr_of h ` fst ` U = insert (ptr_of h m) (ptr_of h ` fst ` ?V)" by (metis fst_conv image_insert)
  moreover have "ptr_of h m \<notin> ptr_of h ` fst ` ?V" using assms(3) by force
  ultimately have "ptr_of h ` fst ` U - {ptr_of h m} = ptr_of h ` fst ` (U - {(m, e)})" by simp
  then have "dom (live(ptr_of h m := None)) = ptr_of h ` fst ` (U - {(m, e)})" using d by simp
  moreover have "x + 6 + max 12 k \<le> d" if "(x, d) \<in> U - {(m, e)}" "(live(ptr_of h m := None)) (ptr_of h x) = Some k" for x d k
    using that held_size [OF assms(1), of x d k] by (simp split: if_splits)
  ultimately show ?thesis by (auto simp: held_def)
qed

text \<open>Blocks in use are at different addresses.\<close>

lemma used_ptr:
  assumes "base_ok h" and i: "list_inv h xs" and u: "(x, e) \<in> used h xs" "(y, d) \<in> used h xs"
  shows "ptr_of h x = ptr_of h y \<longleftrightarrow> (x, e) = (y, d)"
proof -
  have "x \<le> 1582" "y \<le> 1582" "e = nx h x" "d = nx h y" using used_block [OF i u(1)] used_block [OF i u(2)] by metis+
  then show ?thesis using ptr_of_eq [OF assms(1), of x y] by auto
qed

lemma lwip_step_malloc:
  assumes "lwip_inv b (live, h)"
  shows "\<exists>st. lwip_step (MemMalloc w) (live, h) = Some st \<and> lwip_inv b st"
proof -
  obtain xs where I: "base_ok h" "list_inv h xs" "held live h (used h xs)" and rb: "rbase h = b" using assms by auto
  show ?thesis
  proof (cases "w = 0 \<or> List.find (room h (req_size w)) xs = None")
    case True
    then have "mem_malloc w h = Some (0, h)"
      by (cases "w = 0") (simp_all add: mem_malloc_none [OF I(2)], simp add: mem_malloc_def)
    then show ?thesis using assms by simp
  next
    case False
    then obtain m where w: "w \<noteq> 0" and m: "List.find (room h (req_size w)) xs = Some m" by auto
    obtain h' ys where h': "mem_malloc w h = Some (rbase h + of_nat (m + 6), h')" "list_inv h' ys" "used h' ys = insert (m, nx h' m) (used h xs)"
      "m + 6 + req_size w \<le> nx h' m" "m \<in> set xs" "\<not> us h m" "rbase h' = rbase h"
      by (rule mem_malloc_some [OF I(2,1) w m])
    have m: "m \<le> 1582" using h'(5) I(2) blocks_bound [of h xs m] by (simp add: list_inv_def)
    have ne: "ptr_of h x \<noteq> ptr_of h m \<and> (x, e) \<noteq> (m, nx h' m)" if "(x, e) \<in> used h xs" for x e
    proof (rule used_block [OF I(2) that])
      assume "us h x" "x \<le> 1582"
      then show ?thesis using ptr_of_eq [OF I(1) _ m, of x] h'(6) by auto
    qed
    then have U: "used h xs - {(m, nx h' m)} = used h xs" by auto
    have "held (live(ptr_of h m \<mapsto> unat w)) h (used h' ys)" unfolding h'(3)
      using held_insert [of live h "used h xs" m "nx h' m" "unat w" "nx h' m"] I(3) h'(4) ne by (simp add: U req_size_def)
    then have "lwip_inv b (live(ptr_of h m \<mapsto> unat w), h')"
      using I(1) rb h'(2,7) by (auto simp: base_ok_def held_cong [OF h'(7)])
    then show ?thesis using h'(1) rmem_off(3) [OF I(1) m] by (simp add: ptr_of_def)
  qed
qed

text \<open>The block of a pointer that is held.\<close>

lemma held_block:
  assumes "list_inv h xs" and "held live h (used h xs)" and "live p = Some n"
  obtains as m bs where "xs = as @ m # bs" "us h m" "p = ptr_of h m" "(m, nx h m) \<in> used h xs" "m + 6 + max 12 n \<le> nx h m"
proof -
  have "p \<in> ptr_of h ` fst ` used h xs" using assms(2,3) by (auto simp: held_def)
  then obtain m e where m: "(m, e) \<in> used h xs" "p = ptr_of h m" by auto
  then have "m + 6 + max 12 n \<le> e" using assms(2,3) by (auto simp: held_def)
  then show thesis using used_block [OF assms(1) m(1)] that m by metis
qed

lemma lwip_step_free:
  assumes "lwip_inv b (live, h)" and "lwip_op_ok (MemFree p) (live, h)"
  shows "\<exists>st. lwip_step (MemFree p) (live, h) = Some st \<and> lwip_inv b st"
proof -
  obtain xs n where I: "base_ok h" "list_inv h xs" "held live h (used h xs)" "live p = Some n" and rb: "rbase h = b" using assms by auto
  obtain as m bs where m: "xs = as @ m # bs" "us h m" "p = ptr_of h m" "(m, nx h m) \<in> used h xs" by (rule held_block [OF I(2-4)])
  obtain h' ys where h': "mem_free (rbase h + of_nat (m + 6)) h = Some h'" "list_inv h' ys"
    "used h' ys = used h (as @ m # bs) - {(m, nx h m)}" "rbase h' = rbase h" by (rule mem_free_ok [OF I(2) [unfolded m(1)] m(2) I(1)])
  have "held (live(p := None)) h (used h' ys)" unfolding h'(3) m(3) m(1) [symmetric]
    by (rule held_delete [OF I(3) m(4)]) (use used_ptr [OF I(1,2) _ m(4)] in auto)
  then have "lwip_inv b (live(p := None), h')" using I(1) rb h'(2,4) by (auto simp: base_ok_def held_cong [OF h'(4)])
  then show ?thesis using h'(1) by (simp add: m(3) ptr_of_def)
qed

lemma lwip_step_trim:
  assumes "lwip_inv b (live, h)" and "lwip_op_ok (MemTrim p w) (live, h)"
  shows "\<exists>st. lwip_step (MemTrim p w) (live, h) = Some st \<and> lwip_inv b st"
proof -
  obtain xs n where I: "base_ok h" "list_inv h xs" "held live h (used h xs)" "live p = Some n" and w: "unat w \<le> n" and rb: "rbase h = b"
    using assms by (auto split: option.splits)
  obtain as m bs where m: "xs = as @ m # bs" "us h m" "p = ptr_of h m" "(m, nx h m) \<in> used h xs" "m + 6 + max 12 n \<le> nx h m"
    by (rule held_block [OF I(2-4)])
  have "m + 6 + req_size w \<le> nx h m" using w m(5) by (simp add: req_size_def)
  then obtain h' ys where h': "mem_trim p w h = Some (p, h')" "list_inv h' ys"
    "used h' ys = insert (m, nx h' m) (used h (as @ m # bs) - {(m, nx h m)})" "m + 6 + req_size w \<le> nx h' m" "rbase h' = rbase h"
    using mem_trim_ok [OF I(2) [unfolded m(1)] m(2) I(1) _ m(3) [unfolded ptr_of_def]] by metis
  have ne: "ptr_of h x \<noteq> ptr_of h m" if "(x, e) \<in> used h xs - {(m, nx h m)}" for x e
    using that used_ptr [OF I(1,2) _ m(4), of x e] by auto
  have "held (live(p := None)) h (used h xs - {(m, nx h m)})" unfolding m(3)
    by (rule held_delete [OF I(3) m(4)]) (use used_ptr [OF I(1,2) _ m(4)] in auto)
  then have "held ((live(p := None))(p \<mapsto> unat w)) h (used h' ys)" unfolding h'(3) m(1) [symmetric] unfolding m(3)
    using h'(4) by (intro held_insert ne) (auto simp: req_size_def)
  then have "lwip_inv b (live(p \<mapsto> unat w), h')" using I(1) rb h'(2,5) by (auto simp: base_ok_def held_cong [OF h'(5)])
  then show ?thesis using h'(1) by simp
qed

lemma lwip_step_ok:
  assumes "lwip_inv b st" and "lwip_op_ok x st"
  obtains st' where "lwip_step x st = Some st'" "lwip_inv b st'"
proof -
  obtain live h where "st = (live, h)" by (cases st)
  then show thesis using assms that lwip_step_malloc [of b live h] lwip_step_free [of b live h] lwip_step_trim [of b live h] by (cases x) blast+
qed

interpretation lwip: step_system lwip_step lwip_op_ok "lwip_inv b" for b
proof
  fix x st
  assume a: "lwip_inv b st" "lwip_op_ok x st"
  then show "\<exists>st'. lwip_step x st = Some st'" by (rule lwip_step_ok) blast
  fix st' assume "lwip_step x st = Some st'"
  with a show "lwip_inv b st'" by (metis lwip_step_ok option.inject)
qed

lemma mem_init_inv: "list_inv (mem_init h) [0]" "used (mem_init h) [0] = {}" "rbase (mem_init h) = rbase h"
proof -
  have "(0 :: u16) \<noteq> 1600" by simp
  then have f: "nx (mem_init h) 0 = 1600" "pv (mem_init h) 0 = 0" "\<not> us (mem_init h) 0" "us (mem_init h) 1600" "lfree (mem_init h) = 0"
    by (simp_all add: mem_init_def nx_def pv_def us_def upd_mem_def mem_consts Let_def)
  then show "list_inv (mem_init h) [0]" "used (mem_init h) [0] = {}" by (auto simp: list_inv_def blocks_def used_def)
  show "rbase (mem_init h) = rbase h" by (simp add: mem_init_def Let_def)
qed

text \<open>When nothing is in use, the heap is one free block again.\<close>

lemma list_inv_empty:
  assumes "list_inv h xs" and "used h xs = {}"
  shows "xs = [0]" and "nx h 0 = 1600" and "\<not> us h 0"
proof -
  have u: "\<not> us h x" if "x \<in> set xs" for x using assms(2) that by (auto simp: used_def)
  obtain y ys where xs: "xs = y # ys" using assms(1) by (cases xs) (auto simp: list_inv_def blocks_def)
  have "ys = []" using assms(1) u by (cases ys) (auto simp: list_inv_def xs)
  then show "xs = [0]" "nx h 0 = 1600" "\<not> us h 0" using assms(1) u xs by (auto simp: list_inv_def blocks_def)
qed

lemma held_apart:
  assumes I: "base_ok h" "list_inv h xs" "held live h (used h xs)" and "live p = Some n" and "live q = Some k" and "p \<noteq> q"
  shows "unat p + n \<le> unat q - 6 \<or> unat q + k \<le> unat p - 6"
proof -
  obtain as x bs where x: "xs = as @ x # bs" "p = ptr_of h x" "(x, nx h x) \<in> used h xs" "x + 6 + max 12 n \<le> nx h x"
    by (rule held_block [OF I(2,3) assms(4)])
  obtain cs y ds where y: "xs = cs @ y # ds" "q = ptr_of h y" "(y, nx h y) \<in> used h xs" "y + 6 + max 12 k \<le> nx h y"
    by (rule held_block [OF I(2,3) assms(5)])
  have "x \<le> 1582" "y \<le> 1582" using used_block [OF I(2) x(3)] used_block [OF I(2) y(3)] by metis+
  then have u: "unat p = unat (rbase h) + x + 6" "unat q = unat (rbase h) + y + 6"
    using rmem_off(4) [OF I(1)] x(2) y(2) by (simp_all only: ptr_of_def)
  have P: "path (nx h) (pv h) 0 xs 1600" using I(2) by (simp add: list_inv_def blocks_def)
  have "x \<in> set xs" "y \<in> set xs" using x(1) y(1) by (metis in_set_conv_decomp)+
  then have "x < y \<Longrightarrow> nx h x \<le> y" "y < x \<Longrightarrow> nx h y \<le> x" using path_gap [OF P] by auto
  moreover have "x \<noteq> y" using assms(6) x(2) y(2) by auto
  ultimately show ?thesis using u x(4) y(4) by linarith
qed

lemma held_inside:
  assumes I: "base_ok h" "list_inv h xs" "held live h (used h xs)" and "live p = Some n"
  shows "unat (rbase h) + 6 \<le> unat p" and "unat p + n \<le> unat (rbase h) + 1600"
proof -
  obtain as x bs where x: "xs = as @ x # bs" "p = ptr_of h x" "(x, nx h x) \<in> used h xs" "x + 6 + max 12 n \<le> nx h x"
    by (rule held_block [OF I(2,3) assms(4)])
  have "x \<le> 1582" "nx h x \<le> 1600" using blocks_next(3,4) [of h as x bs] I(2) x(1) by (simp_all add: list_inv_def)
  then show "unat (rbase h) + 6 \<le> unat p" "unat p + n \<le> unat (rbase h) + 1600"
    using rmem_off(4) [OF I(1), of x] x(2,4) by (simp_all add: ptr_of_def del: of_nat_add)
qed

text \<open>
  C1.  The heap of lwIP: in every run of \<^verbatim>\<open>mem_malloc\<close>, \<^verbatim>\<open>mem_trim\<close> and \<^verbatim>\<open>mem_free\<close> after \<^verbatim>\<open>mem_init\<close> by
  users that free and shrink only what they hold, no assertion fails, every loop ends and no access is
  outside the array.  The blocks they hold are inside the heap, as large as asked for, and apart from each other
  and from the headers.  And when they have freed everything, all of the heap can be allocated at once again.
\<close>

theorem lwip_heap_run:
  assumes "unat (rbase h) + 1613 < 2 ^ 64" and "run_ok lwip_step lwip_op_ok ops (Map.empty, mem_init h)"
  shows "\<exists>live h'. run_steps lwip_step ops (Map.empty, mem_init h) = Some (live, h') \<and>
    (\<forall>p n. live p = Some n \<longrightarrow> unat (rbase h) + 6 \<le> unat p \<and> unat p + n \<le> unat (rbase h) + 1600 \<and>
      (\<forall>q k. live q = Some k \<and> p \<noteq> q \<longrightarrow> unat p + n \<le> unat q - 6 \<or> unat q + k \<le> unat p - 6)) \<and>
    (live = Map.empty \<longrightarrow> (\<exists>h''. mem_malloc 1594 h' = Some (rbase h + 6, h'')))"
proof -
  have base: "base_ok (mem_init h)" using assms(1) by (simp add: base_ok_def mem_init_inv(3))
  have "held Map.empty (mem_init h) {}" by (simp add: held_def)
  then have "lwip_inv (rbase h) (Map.empty, mem_init h)" using base mem_init_inv [of h] by (auto intro!: exI [of _ "[0]"])
  then obtain live h' where r: "run_steps lwip_step ops (Map.empty, mem_init h) = Some (live, h')" and "lwip_inv (rbase h) (live, h')"
    using lwip.run_inv [OF _ assms(2)] by auto
  then obtain xs where I: "base_ok h'" "list_inv h' xs" "held live h' (used h' xs)" and same: "rbase h' = rbase h" by auto
  have "\<exists>h''. mem_malloc 1594 h' = Some (rbase h + 6, h'')" if "live = Map.empty"
  proof -
    have "used h' xs = {}" using I(3) that by (simp add: held_def)
    note e = list_inv_empty [OF I(2) this]
    have "List.find (room h' (req_size 1594)) xs = Some 0" using e by (simp add: room_def req_size_def)
    then show ?thesis by (rule mem_malloc_some [OF I(2,1), rotated]) (auto simp: same)
  qed
  then show ?thesis using r held_inside [OF I] held_apart [OF I] by (auto simp: same)
qed

definition lwip_example :: lwip_heap where
  "lwip_example = \<lparr>rbase = 0x10000, ram = (\<lambda>_. \<lparr>ms_next = 0, ms_prev = 0, ms_used = 0\<rparr>), lfree = 0, rbytes = (\<lambda>_. 0xFF)\<rparr>"

lemma lwip_fresh_malloc:
  assumes "unat (rbase h) + 1613 < 2 ^ 64" and "w \<noteq> 0" and "unat w \<le> 1594"
  shows "\<exists>h'. mem_malloc w (mem_init h) = Some (rbase h + 6, h')"
proof -
  have base: "base_ok (mem_init h)" using assms(1) by (simp add: base_ok_def mem_init_inv(3))
  note e = list_inv_empty [OF mem_init_inv(1) [of h] mem_init_inv(2) [of h]]
  have "List.find (room (mem_init h) (req_size w)) [0] = Some 0" using e assms(3) by (simp add: room_def req_size_def)
  then show ?thesis by (rule mem_malloc_some [OF mem_init_inv(1) base assms(2)]) (auto simp: mem_init_inv(3))
qed

theorem lwip_heap_run_witness:
  "\<exists>live h'. run_steps lwip_step [MemMalloc 100, MemTrim 0x10006 50, MemFree 0x10006] (Map.empty, mem_init lwip_example) = Some (live, h')"
proof -
  obtain h1 where 1: "mem_malloc 100 (mem_init lwip_example) = Some (0x10006, h1)"
    using lwip_fresh_malloc [of lwip_example 100] by (auto simp: lwip_example_def)
  have "run_ok lwip_step lwip_op_ok [MemMalloc 100, MemTrim 0x10006 50, MemFree 0x10006] (Map.empty, mem_init lwip_example)"
    by (auto simp: 1 split: option.split bind_split)
  from lwip_heap_run [OF _ this] show ?thesis by (auto simp: lwip_example_def)
qed

text \<open>
  C1.  \<^verbatim>\<open>mem_malloc\<close> is first fit: it returns the lowest free block that is large enough, and NULL only if there
  is none.
\<close>

theorem lwip_malloc_first_fit:
  assumes "list_inv h xs" and "base_ok h" and "w \<noteq> 0"
  shows "case List.find (\<lambda>x. \<not> us h x \<and> x + 6 + max 12 (unat w) \<le> nx h x) xs of
      None \<Rightarrow> mem_malloc w h = Some (0, h)
    | Some x \<Rightarrow> (\<exists>h' ys. mem_malloc w h = Some (rbase h + of_nat (x + 6), h') \<and> list_inv h' ys \<and> used h' ys = insert (x, nx h' x) (used h xs))"
proof -
  have eq: "room h (req_size w) = (\<lambda>x. \<not> us h x \<and> x + 6 + max 12 (unat w) \<le> nx h x)" by (simp add: room_def req_size_def fun_eq_iff)
  show ?thesis
  proof (cases "List.find (room h (req_size w)) xs")
    case None
    then show ?thesis using mem_malloc_none [OF assms(1) None] by (simp add: eq)
  next
    case (Some m)
    show ?thesis by (rule mem_malloc_some [OF assms Some]) (use Some in \<open>auto simp: eq\<close>)
  qed
qed

theorem lwip_malloc_first_fit_witness: "\<exists>h' ys. mem_malloc 100 (mem_init lwip_example) = Some (rbase lwip_example + of_nat (0 + 6), h') \<and>
    list_inv h' ys \<and> used h' ys = {(0, nx h' 0)}"
proof -
  have base: "base_ok (mem_init lwip_example)" by (simp add: base_ok_def mem_init_inv(3) lwip_example_def)
  from lwip_malloc_first_fit [OF mem_init_inv(1) base, of 100] list_inv_empty [OF mem_init_inv(1) [of lwip_example] mem_init_inv(2) [of lwip_example]] show ?thesis
    by (simp add: mem_init_inv(2,3))
qed

text \<open>
  C1.  \<^verbatim>\<open>mem_calloc\<close> multiplies its arguments without a check: for 256 objects of 257 bytes it allocates 256 bytes,
  the product modulo 65536, and then clears 65792 bytes, far beyond the block and the heap.
\<close>

theorem lwip_calloc_overflow:
  assumes "unat (rbase h) + 1613 < 2 ^ 64"
  shows "\<exists>h'. mem_calloc 256 257 (mem_init h) = Some (rbase h + 6, h') \<and> rbytes h' (rbase h + 65797) = 0"
proof -
  have "\<exists>h'. mem_malloc 65792 (mem_init h) = Some (rbase h + 6, h')" by (rule lwip_fresh_malloc [OF assms]) simp_all
  then obtain h' where h': "mem_malloc 65792 (mem_init h) = Some (rbase h + 6, h')" ..
  have nz: "rbase h + 6 \<noteq> 0"
    using rmem_off(3) [of h 0] assms by (simp add: base_ok_def)
  have "memset (rbase h + 6) 0 65792 (rbytes h') (rbase h + 65797) = 0"
    by (simp add: memset_apply)
  then show ?thesis using h' nz by (simp add: mem_calloc_def cint_mul_def)
qed

theorem lwip_calloc_overflow_witness: "\<exists>h'. mem_calloc 256 257 (mem_init lwip_example) = Some (0x10006, h') \<and> rbytes h' 0x20105 = 0"
  using lwip_calloc_overflow [of lwip_example] by (simp add: lwip_example_def)

end
