(* ===== verification/LwipChksum.thy ===== *)
theory LwipChksum
  imports CString
begin

text \<open>
  The byte order functions (\<^verbatim>\<open>lib/liblwip/src/core/def.c\<close>) and the Internet checksum
  (\<^verbatim>\<open>core/ipv4/inet_chksum.c\<close>) of lwIP, in the configuration of \<^verbatim>\<open>arch/cc.h\<close>: little endian, algorithm 2.
  A chain of \<^verbatim>\<open>pbuf\<close>s is the list of the addresses and lengths of their payloads.
\<close>

section \<open>Definitions\<close>

definition lwip_htons :: "u16 \<Rightarrow> u16" where
  "lwip_htons n = push_bit 8 (n AND 0xff) OR drop_bit 8 (n AND 0xff00)"

definition lwip_ntohs :: "u16 \<Rightarrow> u16" where
  "lwip_ntohs n = lwip_htons n"

definition lwip_htonl :: "u32 \<Rightarrow> u32" where
  "lwip_htonl n = push_bit 24 (n AND 0xff) OR push_bit 8 (n AND 0xff00) OR drop_bit 8 (n AND 0xff0000) OR drop_bit 24 (n AND 0xff000000)"

definition lwip_ntohl :: "u32 \<Rightarrow> u32" where
  "lwip_ntohl n = lwip_htonl n"

definition SWAP_BYTES_IN_WORD :: "u32 \<Rightarrow> u32" where
  "SWAP_BYTES_IN_WORD w = push_bit 8 (w AND 0xff) OR drop_bit 8 (w AND 0xff00)"

definition FOLD_U32T :: "u32 \<Rightarrow> u32" where
  "FOLD_U32T u = drop_bit 16 u + (u AND 0xffff)"

text \<open>A 16 bit value of memory.\<close>

definition load16 :: "bytes \<Rightarrow> u64 \<Rightarrow> u16" where
  "load16 m p = ucast (m p) OR push_bit 8 (ucast (m (p + 1)))"

text \<open>
  The loop over the bulk of the data: the pointer, the length and the sum after it.  The length is
  an \<^verbatim>\<open>int\<close> that the callers get from a \<^verbatim>\<open>u16_t\<close>.
\<close>

fun chksum_loop :: "bytes \<Rightarrow> u64 \<Rightarrow> nat \<Rightarrow> u32 \<Rightarrow> u64 \<times> nat \<times> u32" where
  "chksum_loop m ps len acc =
     (if 1 < len then chksum_loop m (ps + 2) (len - 2) (acc + ucast (load16 m ps)) else (ps, len, acc))"

declare chksum_loop.simps [simp del]

definition lwip_standard_chksum :: "bytes \<Rightarrow> u64 \<Rightarrow> nat \<Rightarrow> u16" where
  "lwip_standard_chksum m dataptr len =
     (let odd = dataptr AND 1 = 1;
          (t, pb, len) = (if odd \<and> 0 < len then (push_bit 8 (ucast (m dataptr)) :: u16, dataptr + 1, len - 1) else (0, dataptr, len));
          (ps, len, acc) = chksum_loop m pb len 0;
          t = (if 0 < len then (t AND 0xff00) OR ucast (m ps) else t);
          acc = acc + ucast t;
          acc = FOLD_U32T acc;
          acc = FOLD_U32T acc;
          acc = (if odd then SWAP_BYTES_IN_WORD acc else acc)
      in ucast acc)"

definition inet_chksum :: "bytes \<Rightarrow> u64 \<Rightarrow> u16 \<Rightarrow> u16" where
  "inet_chksum m dataptr len = NOT (lwip_standard_chksum m dataptr (unat len))"

text \<open>The step of the loops over a chain.\<close>

type_synonym chain = "(u64 \<times> u16) list"

definition chksum_pbuf :: "bytes \<Rightarrow> u64 \<Rightarrow> u16 \<Rightarrow> u16 \<Rightarrow> u32 \<times> bool \<Rightarrow> u32 \<times> bool" where
  "chksum_pbuf m payload len qlen st =
     (let (acc, swapped) = st;
          acc = FOLD_U32T (acc + ucast (lwip_standard_chksum m payload (unat len)))
      in if unat qlen mod 2 \<noteq> 0 then (SWAP_BYTES_IN_WORD acc, \<not> swapped) else (acc, swapped))"

definition chksum_chain :: "bytes \<Rightarrow> chain \<Rightarrow> u32" where
  "chksum_chain m p =
     (let (acc, swapped) = fold (\<lambda>(payload, len). chksum_pbuf m payload len len) p (0, False)
      in if swapped then SWAP_BYTES_IN_WORD acc else acc)"

definition inet_chksum_pbuf :: "bytes \<Rightarrow> chain \<Rightarrow> u16" where
  "inet_chksum_pbuf m p = ucast (NOT (chksum_chain m p AND 0xffff))"

text \<open>The end of the two functions with a pseudo header.\<close>

definition add_pseudo :: "u32 \<Rightarrow> u32 \<Rightarrow> u32 \<Rightarrow> u8 \<Rightarrow> u16 \<Rightarrow> u16" where
  "add_pseudo acc src dest proto proto_len =
     (let acc = acc + (src AND 0xffff);
          acc = acc + (drop_bit 16 src AND 0xffff);
          acc = acc + (dest AND 0xffff);
          acc = acc + (drop_bit 16 dest AND 0xffff);
          acc = acc + ucast (lwip_htons (ucast proto));
          acc = acc + ucast (lwip_htons proto_len);
          acc = FOLD_U32T acc;
          acc = FOLD_U32T acc
      in ucast (NOT (acc AND 0xffff)))"

definition inet_chksum_pseudo :: "bytes \<Rightarrow> chain \<Rightarrow> u32 \<Rightarrow> u32 \<Rightarrow> u8 \<Rightarrow> u16 \<Rightarrow> u16" where
  "inet_chksum_pseudo m p src dest proto proto_len = add_pseudo (chksum_chain m p) src dest proto proto_len"

text \<open>The loop of \<^verbatim>\<open>inet_chksum_pseudo_partial\<close>, which stops after \<^verbatim>\<open>chksum_len\<close> bytes.\<close>

fun chksum_partial :: "bytes \<Rightarrow> chain \<Rightarrow> u16 \<Rightarrow> u32 \<times> bool \<Rightarrow> (u32 \<times> bool) option" where
  "chksum_partial m [] chksum_len st = Some st"
| "chksum_partial m ((payload, len) # q) chksum_len st =
     (if chksum_len = 0 then Some st
      else do {
        let chklen = (if chksum_len < len then chksum_len else len);
        let chksum_len = chksum_len - chklen;
        kassert (chksum_len < 0x7fff);
        chksum_partial m q chksum_len (chksum_pbuf m payload chklen len st)
      })"

definition inet_chksum_pseudo_partial :: "bytes \<Rightarrow> chain \<Rightarrow> u32 \<Rightarrow> u32 \<Rightarrow> u8 \<Rightarrow> u16 \<Rightarrow> u16 \<Rightarrow> u16 option" where
  "inet_chksum_pseudo_partial m p src dest proto proto_len chksum_len = do {
     (acc, swapped) \<leftarrow> chksum_partial m p chksum_len (0, False);
     Some (add_pseudo (if swapped then SWAP_BYTES_IN_WORD acc else acc) src dest proto proto_len)
   }"

section \<open>Sums modulo 65535\<close>

text \<open>
  The reference: the one's complement sum of 16 bit words, where the byte at an even position
  is the low one.  \<open>ones n\<close> is the representative of the sum \<open>n\<close>: zero only for zero.
\<close>

fun wsum :: "u8 list \<Rightarrow> nat" where
  "wsum [] = 0"
| "wsum [x] = unat x"
| "wsum (x # y # xs) = unat x + 256 * unat y + wsum xs"

definition ones :: "nat \<Rightarrow> nat" where
  "ones n = (if n = 0 then 0 else if n mod 65535 = 0 then 65535 else n mod 65535)"

lemma ones_le: "ones n \<le> 65535"
  by (simp add: ones_def less_imp_le)

lemma ones_unique:
  assumes "k \<le> 65535" and "k mod 65535 = n mod 65535" and "k = 0 \<longleftrightarrow> n = 0"
  shows "k = ones n"
proof (cases "k = 65535")
  case True
  then show ?thesis using assms by (auto simp: ones_def)
next
  case False
  then have "k mod 65535 = k" using assms(1) by simp
  then show ?thesis using assms by (auto simp: ones_def)
qed

lemma nat_and_masks: "n AND 255 = n mod 256" "n AND 65535 = n mod 65536" for n :: nat
  using take_bit_eq_mask [of 8 n] take_bit_eq_mod [of 8 n] take_bit_eq_mask [of 16 n] take_bit_eq_mod [of 16 n]
  by (simp_all add: mask_eq_exp_minus_1)

lemma fold_value: "unat (FOLD_U32T u) = unat u div 65536 + unat u mod 65536"
proof -
  have "unat u < 2 ^ 32" using unsigned_less [of u] by simp
  then show ?thesis
    by (simp add: FOLD_U32T_def unat_word_ariths unsigned_and_eq nat_and_masks unsigned_drop_bit_eq drop_bit_eq_div take_bit_eq_mod)
qed

lemma fold_mod: "unat (FOLD_U32T u) mod 65535 = unat u mod 65535" and fold_zero: "FOLD_U32T u = 0 \<longleftrightarrow> u = 0"
proof -
  have "unat u = 65535 * (unat u div 65536) + unat (FOLD_U32T u)"
    using div_mult_mod_eq [of "unat u" 65536] by (simp add: fold_value)
  then show "unat (FOLD_U32T u) mod 65535 = unat u mod 65535" by (metis mod_mult_self4)
  have "unat (FOLD_U32T u) = 0 \<longleftrightarrow> unat u = 0" using div_mult_mod_eq [of "unat u" 65536] by (auto simp: fold_value)
  then show "FOLD_U32T u = 0 \<longleftrightarrow> u = 0" by (simp add: unat_eq_0)
qed

lemma fold_small: "unat u \<le> 0x1FFFE \<Longrightarrow> unat (FOLD_U32T u) \<le> 65535"
proof -
  assume u: "unat u \<le> 0x1FFFE"
  show ?thesis
  proof (cases "unat u < 65536")
    case False
    then have "unat u div 65536 = 1" "unat u mod 65536 = unat u - 65536" using u by (auto simp: le_mod_geq div_if)
    then show ?thesis using u by (simp add: fold_value)
  qed (simp add: fold_value)
qed

lemma fold_twice: "unat (FOLD_U32T (FOLD_U32T u)) = ones (unat u)"
proof (rule ones_unique)
  have "unat u < 2 ^ 32" using unsigned_less [of u] by simp
  then have "unat u div 65536 < 65536" by (simp add: less_mult_imp_div_less)
  moreover have "unat u mod 65536 < 65536" by simp
  ultimately have "unat (FOLD_U32T u) \<le> 0x1FFFE" unfolding fold_value by linarith
  then show "unat (FOLD_U32T (FOLD_U32T u)) \<le> 65535" by (rule fold_small)
qed (simp_all add: fold_mod fold_zero unat_eq_0)

lemma or_bytes: "x < 256 \<Longrightarrow> x OR push_bit 8 y = x + 256 * y" for x y :: nat
proof -
  assume "x < 256"
  then have "take_bit 8 x = x" by (simp add: take_bit_nat_eq_self)
  then have "\<not> bit x n" if "8 \<le> n" for n using that by (metis bit_take_bit_iff not_less)
  then have "x AND push_bit 8 y = 0" by (intro bit_eqI) (auto simp: bit_and_iff bit_push_bit_iff)
  then show ?thesis using disjunctive_add_eq_or [of x "push_bit 8 y"] by (simp add: push_bit_eq_mult mult.commute)
qed

lemma unat_u8: "unat (x :: u8) < 256"
  using unsigned_less [of x] by simp

lemma load16_value: "unat (load16 m p) = unat (m p) + 256 * unat (m (p + 1))"
proof -
  have "unat (m (p + 1)) * 256 < 65536" using unat_u8 [of "m (p + 1)"] by simp
  then have "unat (push_bit 8 (ucast (m (p + 1))) :: u16) = push_bit 8 (unat (m (p + 1)))"
    using unat_u8 [of "m (p + 1)"] by (simp add: unat_word_ariths unsigned_ucast_eq take_bit_eq_mod push_bit_eq_mult)
  moreover have "unat (ucast (m p) :: u16) = unat (m p)" using unat_u8 [of "m p"] by (simp add: unsigned_ucast_eq take_bit_eq_mod)
  ultimately show ?thesis using or_bytes unat_u8 by (simp add: load16_def unsigned_or_eq)
qed

lemma swap_value: "unat u \<le> 65535 \<Longrightarrow> unat (SWAP_BYTES_IN_WORD u) = unat u div 256 + 256 * (unat u mod 256)"
proof -
  assume u: "unat u \<le> 65535"
  then have d: "unat u div 256 < 256" by (simp add: less_mult_imp_div_less)
  have "drop_bit 8 (u AND 0xff00) = drop_bit 8 u AND 0xff" by (simp add: drop_bit_and)
  then have hi: "unat (drop_bit 8 (u AND 0xff00)) = unat u div 256"
    using d by (simp add: unsigned_and_eq unsigned_drop_bit_eq nat_and_masks drop_bit_eq_div unat_div)
  have "unat u mod 256 < 256" by simp
  then have "(unat u mod 256) * 256 < 65536" by linarith
  then have lo: "unat (push_bit 8 (u AND 0xff)) = push_bit 8 (unat u mod 256)"
    by (simp add: unat_word_ariths unsigned_and_eq nat_and_masks push_bit_eq_mult)
  show ?thesis using or_bytes [OF d, of "unat u mod 256"] unfolding SWAP_BYTES_IN_WORD_def unsigned_or_eq hi lo by (simp only: or.commute)
qed

text \<open>Swapping the bytes is multiplication by 256.\<close>

lemma swap_mod: "unat u \<le> 65535 \<Longrightarrow> unat (SWAP_BYTES_IN_WORD u) mod 65535 = 256 * unat u mod 65535"
  and swap_zero: "unat u \<le> 65535 \<Longrightarrow> SWAP_BYTES_IN_WORD u = 0 \<longleftrightarrow> u = 0"
  and swap_le: "unat u \<le> 65535 \<Longrightarrow> unat (SWAP_BYTES_IN_WORD u) \<le> 65535"
proof -
  assume u: "unat u \<le> 65535"
  note v = swap_value [OF u]
  have d: "unat u = 256 * (unat u div 256) + unat u mod 256" by simp
  have "256 * unat u = 65535 * (unat u div 256) + unat (SWAP_BYTES_IN_WORD u)" unfolding v using d by linarith
  then show "unat (SWAP_BYTES_IN_WORD u) mod 65535 = 256 * unat u mod 65535" by (metis mod_mult_self4)
  have "unat (SWAP_BYTES_IN_WORD u) = 0 \<longleftrightarrow> unat u = 0" unfolding v using d by auto
  then show "SWAP_BYTES_IN_WORD u = 0 \<longleftrightarrow> u = 0" by (simp add: unat_eq_0)
  have "unat u div 256 < 256" "unat u mod 256 < 256" using u by (simp_all add: less_mult_imp_div_less)
  then show "unat (SWAP_BYTES_IN_WORD u) \<le> 65535" unfolding v by linarith
qed

section \<open>The checksum of memory\<close>

definition octets :: "bytes \<Rightarrow> u64 \<Rightarrow> nat \<Rightarrow> u8 list" where
  "octets m p n = map (\<lambda>i. m (p + of_nat i)) [0..<n]"

lemma octets_Suc: "octets m p (Suc n) = m p # octets m (p + 1) n"
  by (simp add: octets_def upt_conv_Cons map_Suc_upt [symmetric] del: upt_Suc) (simp add: algebra_simps)

lemma octets_0 [simp]: "octets m p 0 = []"
  by (simp add: octets_def)

lemma octets_length [simp]: "length (octets m p n) = n"
  by (simp add: octets_def)

lemma ones_cong: "x mod 65535 = y mod 65535 \<Longrightarrow> x = 0 \<longleftrightarrow> y = 0 \<Longrightarrow> ones x = ones y"
  by (simp add: ones_def)

lemma wsum_Cons: "wsum (x # xs) mod 65535 = (unat x + 256 * wsum xs) mod 65535" and wsum_Cons_0: "wsum (x # xs) = 0 \<longleftrightarrow> x = 0 \<and> wsum xs = 0"
proof (induction xs arbitrary: x rule: wsum.induct)
  case 1
  { case 1 show ?case by simp }
  { case 2 show ?case by (simp add: unat_eq_0) }
next
  case (2 y)
  { case 1 show ?case by simp }
  { case 2 show ?case by (simp add: unat_eq_0) }
next
  case (3 y z xs)
  { case 1
    have "wsum (x # y # z # xs) mod 65535 = (unat x + 256 * unat y + wsum (z # xs)) mod 65535" by simp
    also have "\<dots> = (unat x + 256 * unat y + (unat z + 256 * wsum xs)) mod 65535" using 3(1) [of z] by (metis mod_add_right_eq)
    also have "\<dots> = (unat x + 256 * unat y + (unat z + 256 * wsum xs) + 65535 * unat z) mod 65535" by (simp only: mod_mult_self2)
    also have "\<dots> = (unat x + 256 * wsum (y # z # xs)) mod 65535" by (simp add: algebra_simps)
    finally show ?case . }
  { case 2
    show ?case using 3(2) [of z] by (auto simp: unat_eq_0) }
qed

lemma wsum_bound: "wsum xs \<le> 65535 * (length xs div 2) + 255 * (length xs mod 2)"
proof (induction xs rule: wsum.induct)
  case (2 x)
  then show ?case using unat_u8 [of x] by simp
next
  case (3 x y xs)
  have "unat x + 256 * unat y \<le> 65535" using unat_u8 [of x] unat_u8 [of y] by linarith
  then show ?case using 3 by simp
qed simp

text \<open>The loop adds up all but the last byte of an odd number of bytes.\<close>

lemma loop_value:
  assumes "unat acc + wsum (octets m ps len) < 2 ^ 32"
  shows "\<exists>ps' acc'. chksum_loop m ps len acc = (ps', len mod 2, acc') \<and>
    unat acc' + (if odd len then unat (m ps') else 0) = unat acc + wsum (octets m ps len)"
  using assms
proof (induction len arbitrary: ps acc rule: nat_less_induct)
  case (1 len)
  consider "len = 0" | "len = 1" | n where "len = Suc (Suc n)" by (metis One_nat_def not0_implies_Suc)
  then show ?case
  proof cases
    case 3
    let ?acc = "acc + ucast (load16 m ps)"
    have d: "octets m ps len = m ps # m (ps + 1) # octets m (ps + 2) n" by (simp add: 3 octets_Suc algebra_simps)
    have l: "unat (ucast (load16 m ps) :: u32) = unat (m ps) + 256 * unat (m (ps + 1))"
      using unat_u8 [of "m ps"] unat_u8 [of "m (ps + 1)"] by (simp add: unsigned_ucast_eq take_bit_eq_mod load16_value)
    have a: "unat ?acc = unat acc + (unat (m ps) + 256 * unat (m (ps + 1)))"
      using "1.prems" by (simp add: unat_word_ariths l d)
    have "chksum_loop m ps len acc = chksum_loop m (ps + 2) n ?acc" by (subst chksum_loop.simps) (simp add: 3)
    moreover have "unat ?acc + wsum (octets m (ps + 2) n) < 2 ^ 32" using "1.prems" by (simp add: a d)
    ultimately obtain ps' acc' where "chksum_loop m ps len acc = (ps', n mod 2, acc')"
      "unat acc' + (if odd n then unat (m ps') else 0) = unat ?acc + wsum (octets m (ps + 2) n)"
      using "1.IH" [rule_format, of n ?acc "ps + 2"] 3 by auto
    moreover have "len mod 2 = n mod 2" "odd len = odd n" by (simp_all add: 3)
    ultimately show ?thesis by (intro exI [of _ ps'] exI [of _ acc']) (simp add: a d)
  qed (simp_all add: chksum_loop.simps octets_Suc)
qed

lemma high_byte: "unat (push_bit 8 (ucast (b :: u8)) :: u16) = 256 * unat b"
  using unat_u8 [of b] by (simp add: unat_word_ariths unsigned_ucast_eq take_bit_eq_mod push_bit_eq_mult)

lemma tail_byte: "unat ((push_bit 8 (ucast (b :: u8)) AND 0xff00) OR ucast (c :: u8) :: u16) = unat c + 256 * unat b"
proof -
  have m: "push_bit 8 (ucast b) AND 0xff00 = (push_bit 8 (ucast b) :: u16)"
  proof (rule bit_word_eqI)
    fix n
    assume "n < LENGTH(16)"
    moreover have "(0xff00 :: u16) = push_bit 8 (mask 8)" by (simp add: mask_eq_exp_minus_1)
    ultimately show "bit (push_bit 8 (ucast b) AND 0xff00 :: u16) n \<longleftrightarrow> bit (push_bit 8 (ucast b) :: u16) n"
      by (auto simp only: bit_and_iff bit_push_bit_iff bit_mask_iff bit_ucast_iff) (auto dest: bit_imp_le_length)
  qed
  have c: "unat (ucast c :: u16) = unat c" using unat_u8 [of c] by (simp add: unsigned_ucast_eq take_bit_eq_mod)
  have b: "unat (push_bit 8 (ucast b) :: u16) = push_bit 8 (unat b)" using high_byte [of b] by (simp only: push_bit_eq_mult mult.commute) simp
  show ?thesis unfolding m unsigned_or_eq b c using or_bytes [OF unat_u8 [of c], of "unat b"] by (simp add: or.commute)
qed

lemma chksum_sum:
  assumes "chksum_loop m pb n 0 = (ps, l, acc)" "wsum (octets m pb n) + 256 * unat b < 2 ^ 32"
  shows "unat (acc + ucast (if 0 < l then (push_bit 8 (ucast b) AND 0xff00) OR ucast (m ps) else push_bit 8 (ucast (b :: u8)) :: u16)) =
    wsum (octets m pb n) + 256 * unat b"
proof -
  have "unat (0 :: u32) + wsum (octets m pb n) < 2 ^ 32" using assms(2) by simp
  from loop_value [OF this] assms(1) have l: "l = n mod 2" and
    a: "unat acc + (if odd n then unat (m ps) else 0) = wsum (octets m pb n)" by auto
  define t where "t = (if 0 < l then (push_bit 8 (ucast b) AND 0xff00) OR ucast (m ps) else push_bit 8 (ucast b) :: u16)"
  have "unat t = (if odd n then unat (m ps) else 0) + 256 * unat b"
    by (auto simp: t_def l tail_byte high_byte odd_iff_mod_2_eq_one)
  moreover have "unat (ucast t :: u32) = unat t" using unsigned_less [of t, where 'a = nat] by (simp add: unsigned_ucast_eq take_bit_eq_mod)
  ultimately have "unat (acc + ucast t) = wsum (octets m pb n) + 256 * unat b"
    using a assms(2) by (simp add: unat_word_ariths)
  then show ?thesis by (simp only: t_def)
qed

text \<open>The sum of memory: the alignment of the address does not matter.\<close>

lemma octets_bound: "n \<le> 0x1ffff \<Longrightarrow> wsum (octets m p n) \<le> 65535 * 65535 + 255"
proof -
  assume "n \<le> 0x1ffff"
  then have "n div 2 \<le> 65535" "n mod 2 \<le> 1" by simp_all
  then have "65535 * (n div 2) + 255 * (n mod 2) \<le> 65535 * 65535 + 255" by (intro add_mono mult_le_mono) simp_all
  then show ?thesis using wsum_bound [of "octets m p n"] by simp
qed

lemma ucast_small: "unat (u :: u32) \<le> 65535 \<Longrightarrow> unat (ucast u :: u16) = unat u"
  by (simp add: unsigned_ucast_eq take_bit_eq_mod)

lemma ones_swap: "unat (SWAP_BYTES_IN_WORD u) = ones (256 * n)" if "unat u = ones n"
proof (rule ones_unique)
  have u: "unat u \<le> 65535" using that ones_le [of n] by simp
  show "unat (SWAP_BYTES_IN_WORD u) \<le> 65535" by (rule swap_le [OF u])
  have "ones n mod 65535 = n mod 65535" by (simp add: ones_def)
  then show "unat (SWAP_BYTES_IN_WORD u) mod 65535 = 256 * n mod 65535" unfolding swap_mod [OF u] that by (metis mod_mult_right_eq)
  show "unat (SWAP_BYTES_IN_WORD u) = 0 \<longleftrightarrow> 256 * n = 0" using swap_zero [OF u] that by (auto simp: unat_eq_0 [symmetric] ones_def)
qed

lemma chksum_value: "unat (lwip_standard_chksum m p n) = ones (wsum (octets m p n))" if "n \<le> 0x1ffff"
proof -
  have eo: "lwip_standard_chksum m p n = ucast (if p AND 1 = 1 then SWAP_BYTES_IN_WORD (FOLD_U32T (FOLD_U32T s)) else FOLD_U32T (FOLD_U32T s))"
    if "chksum_loop m (if p AND 1 = 1 \<and> 0 < n then p + 1 else p) (if p AND 1 = 1 \<and> 0 < n then n - 1 else n) 0 = (ps, l, acc)"
      "s = acc + ucast (if 0 < l then (push_bit 8 (ucast (if p AND 1 = 1 \<and> 0 < n then m p else 0)) AND 0xff00) OR ucast (m ps)
        else push_bit 8 (ucast (if p AND 1 = 1 \<and> 0 < n then m p else 0)) :: u16)" for s ps l acc
    using that by (auto simp: lwip_standard_chksum_def Let_def)
  let ?o = "p AND 1 = 1 \<and> 0 < n"
  define pb k b where "pb = (if ?o then p + 1 else p)" and "k = (if ?o then n - 1 else n)" and "b = (if ?o then m p else 0)"
  obtain ps l acc where lp: "chksum_loop m pb k 0 = (ps, l, acc)" by (cases "chksum_loop m pb k 0")
  define s where "s = acc + ucast (if 0 < l then (push_bit 8 (ucast b) AND 0xff00) OR ucast (m ps) else push_bit 8 (ucast b) :: u16)"
  have "k \<le> 0x1ffff" using that by (simp add: k_def le_diff_conv)
  then have "wsum (octets m pb k) + 256 * unat b < 2 ^ 32" using octets_bound [of k m pb] unat_u8 [of b] by simp
  from chksum_sum [OF lp this] have s: "unat s = wsum (octets m pb k) + 256 * unat b" by (simp only: s_def)
  have r: "lwip_standard_chksum m p n = ucast (if p AND 1 = 1 then SWAP_BYTES_IN_WORD (FOLD_U32T (FOLD_U32T s)) else FOLD_U32T (FOLD_U32T s))"
    by (rule eo [OF lp [unfolded pb_def k_def] s_def [unfolded b_def]])
  note f = fold_twice [of s, unfolded s]
  show ?thesis
  proof (cases ?o)
    case True
    then obtain j where n: "n = Suc j" by (cases n) auto
    let ?w = "wsum (octets m (p + 1) j)"
    have "256 * (?w + 256 * unat (m p)) mod 65535 = (unat (m p) + 256 * ?w + 65535 * unat (m p)) mod 65535" by (simp add: algebra_simps)
    also have "\<dots> = wsum (octets m p n) mod 65535" by (simp only: mod_mult_self2 n octets_Suc wsum_Cons)
    finally have "ones (256 * (?w + 256 * unat (m p))) = ones (wsum (octets m p n))"
      by (rule ones_cong) (auto simp: n octets_Suc wsum_Cons_0 unat_eq_0)
    moreover have "unat (SWAP_BYTES_IN_WORD (FOLD_U32T (FOLD_U32T s))) = ones (256 * (?w + 256 * unat (m p)))"
      using ones_swap [OF f] True by (simp add: pb_def k_def b_def n)
    ultimately show ?thesis unfolding r using True ones_le by (simp add: ucast_small)
  next
    case False
    have "unat (FOLD_U32T (FOLD_U32T s)) = ones (wsum (octets m p n))"
      using f False by (simp add: pb_def k_def b_def split: if_splits)
    moreover have "SWAP_BYTES_IN_WORD (FOLD_U32T (FOLD_U32T s)) = FOLD_U32T (FOLD_U32T s)" if "p AND 1 = 1"
      using False that f by (simp add: ones_def pb_def k_def b_def unat_eq_0 SWAP_BYTES_IN_WORD_def)
    ultimately show ?thesis unfolding r using ones_le by (auto simp: ucast_small)
  qed
qed

section \<open>Chains of buffers\<close>

definition chain_data :: "bytes \<Rightarrow> chain \<Rightarrow> u8 list" where
  "chain_data m p = concat (map (\<lambda>(payload, len). octets m payload (unat len)) p)"

lemma chain_data_simps [simp]: "chain_data m [] = []" "chain_data m ((payload, len) # q) = octets m payload (unat len) @ chain_data m q"
  by (simp_all add: chain_data_def)

definition weight :: "bool \<Rightarrow> nat" where
  "weight sw = (if sw then 256 else 1)"

lemma wsum_0: "wsum xs = 0 \<longleftrightarrow> (\<forall>x\<in>set xs. x = 0)"
  by (induction xs) (simp_all add: wsum_Cons_0)

lemma wsum_append: "wsum (xs @ ys) mod 65535 = (wsum xs + weight (odd (length xs)) * wsum ys) mod 65535"
proof (induction xs)
  case (Cons x xs)
  let ?w = "weight (odd (length xs)) * wsum ys"
  have w: "256 * ?w mod 65535 = weight (odd (length (x # xs))) * wsum ys mod 65535"
    using mod_mult_self2 [of "wsum ys" 65535 "wsum ys"] by (auto simp: weight_def)
  have "wsum ((x # xs) @ ys) mod 65535 = (unat x + 256 * (wsum xs + ?w)) mod 65535"
    unfolding append_Cons wsum_Cons by (intro mod_add_cong mod_mult_cong Cons refl)
  also have "\<dots> = (unat x + 256 * wsum xs + 256 * ?w) mod 65535" by (simp add: algebra_simps)
  also have "\<dots> = (wsum (x # xs) + weight (odd (length (x # xs))) * wsum ys) mod 65535"
    by (intro mod_add_cong w) (simp only: wsum_Cons)
  finally show ?case .
qed (simp add: weight_def)

lemma ones_mod [simp]: "ones n mod 65535 = n mod 65535"
  by (simp add: ones_def)

lemma ones_zero [simp]: "ones n = 0 \<longleftrightarrow> n = 0"
  by (simp add: ones_def)

lemma fold_once: "unat (FOLD_U32T (acc + s)) = ones (a + b)" if "unat acc = ones a" "unat s = ones b"
proof -
  have le: "unat acc + unat s \<le> 0x1fffe" using that ones_le [of a] ones_le [of b] by simp
  then have u: "unat (acc + s) = ones a + ones b" using that by (simp add: unat_word_ariths)
  show ?thesis
  proof (rule ones_unique)
    show "unat (FOLD_U32T (acc + s)) \<le> 65535" using le that u by (intro fold_small) simp
    show "unat (FOLD_U32T (acc + s)) mod 65535 = (a + b) mod 65535" unfolding fold_mod u by (intro mod_add_cong ones_mod)
    show "unat (FOLD_U32T (acc + s)) = 0 \<longleftrightarrow> a + b = 0" by (simp add: unat_eq_0 fold_zero) (simp add: unat_eq_0 [symmetric] u)
  qed
qed

definition chain_sum :: "u8 list \<Rightarrow> u32 \<times> bool \<Rightarrow> bool" where
  "chain_sum xs st \<longleftrightarrow> (case st of (acc, sw) \<Rightarrow> unat acc = ones (weight sw * wsum xs))"

lemma chain_sum_append:
  "(a * wsum xs + b * wsum ys) mod 65535 = c * wsum (xs @ ys) mod 65535" if
  "a * 1 mod 65535 = c mod 65535" "b mod 65535 = c * weight (odd (length xs)) mod 65535"
proof -
  have "c * wsum (xs @ ys) mod 65535 = c * (wsum xs + weight (odd (length xs)) * wsum ys) mod 65535"
    by (intro mod_mult_cong refl wsum_append)
  also have "\<dots> = (c * wsum xs + c * weight (odd (length xs)) * wsum ys) mod 65535" by (simp add: algebra_simps)
  also have "\<dots> = (a * wsum xs + b * wsum ys) mod 65535" using that by (intro mod_add_cong mod_mult_cong) simp_all
  finally show ?thesis by simp
qed

lemma chksum_pbuf_sum:
  assumes s: "chain_sum xs (acc, sw)" and o: "sw = odd (length xs)"
  shows "chain_sum (xs @ octets m payload (unat len)) (chksum_pbuf m payload len qlen (acc, sw))"
    "snd (chksum_pbuf m payload len qlen (acc, sw)) = (sw \<noteq> odd (unat qlen))"
proof -
  let ?ys = "octets m payload (unat len)"
  define f where "f = FOLD_U32T (acc + ucast (lwip_standard_chksum m payload (unat len)))"
  have "unat len \<le> 0x1ffff" using unsigned_less [of len, where 'a = nat] by simp
  then have "unat (ucast (lwip_standard_chksum m payload (unat len)) :: u32) = ones (wsum ?ys)"
    using chksum_value [of "unat len" m payload] ones_le [of "wsum ?ys"] by (simp add: unsigned_ucast_eq take_bit_eq_mod)
  with s have f: "unat f = ones (weight sw * wsum xs + wsum ?ys)" unfolding f_def chain_sum_def by (intro fold_once) simp_all
  have z: "weight sw * wsum xs + wsum ?ys = 0 \<longleftrightarrow> weight t * wsum (xs @ ?ys) = 0" for t by (auto simp: weight_def wsum_0)
  have "(weight sw * wsum xs + 1 * wsum ?ys) mod 65535 = weight sw * wsum (xs @ ?ys) mod 65535"
    by (rule chain_sum_append) (auto simp: weight_def o)
  then have g: "unat f = ones (weight sw * wsum (xs @ ?ys))" unfolding f using z by (intro ones_cong) simp_all
  have "256 * (weight sw * wsum (xs @ ?ys)) mod 65535 = weight (\<not> sw) * wsum (xs @ ?ys) mod 65535"
    using mod_mult_self2 [of "wsum (xs @ ?ys)" 65535 "wsum (xs @ ?ys)"] by (cases sw) (simp_all add: weight_def)
  then have "ones (256 * (weight sw * wsum (xs @ ?ys))) = ones (weight (\<not> sw) * wsum (xs @ ?ys))"
    by (rule ones_cong) (auto simp: weight_def)
  with ones_swap [OF g] have "unat (SWAP_BYTES_IN_WORD f) = ones (weight (\<not> sw) * wsum (xs @ ?ys))" by simp
  with g show "chain_sum (xs @ octets m payload (unat len)) (chksum_pbuf m payload len qlen (acc, sw))"
    by (simp add: chksum_pbuf_def chain_sum_def Let_def f_def [symmetric])
  show "snd (chksum_pbuf m payload len qlen (acc, sw)) = (sw \<noteq> odd (unat qlen))"
    by (simp add: chksum_pbuf_def Let_def odd_iff_mod_2_eq_one)
qed

lemma chain_fold:
  "chain_sum xs st \<Longrightarrow> snd st = odd (length xs) \<Longrightarrow>
   chain_sum (xs @ chain_data m p) (fold (\<lambda>(payload, len). chksum_pbuf m payload len len) p st)"
proof (induction p arbitrary: xs st)
  case (Cons q p)
  obtain payload len acc sw where [simp]: "q = (payload, len)" "st = (acc, sw)" by (cases q; cases st)
  from Cons.prems have s: "chain_sum xs (acc, sw)" "sw = odd (length xs)" by simp_all
  note c = chksum_pbuf_sum [OF this, of m payload len len]
  have "snd (chksum_pbuf m payload len len (acc, sw)) = odd (length (xs @ octets m payload (unat len)))"
    unfolding c(2) using s(2) by auto
  from Cons.IH [OF c(1) this] show ?case by simp
qed simp

lemma unswap: "chain_sum xs (acc, sw) \<Longrightarrow> unat (if sw then SWAP_BYTES_IN_WORD acc else acc) = ones (wsum xs)"
proof (cases sw)
  case True
  assume "chain_sum xs (acc, sw)"
  with True have "unat (SWAP_BYTES_IN_WORD acc) = ones (256 * (256 * wsum xs))" by (intro ones_swap) (simp add: chain_sum_def weight_def)
  also have "\<dots> = ones (wsum xs)"
    using mod_mult_self2 [of "wsum xs" 65535 "wsum xs"] by (intro ones_cong) simp_all
  finally show ?thesis using True by simp
qed (simp add: chain_sum_def weight_def)

lemma chksum_chain_value: "unat (chksum_chain m p) = ones (wsum (chain_data m p))"
proof -
  obtain acc sw where f: "fold (\<lambda>(payload, len). chksum_pbuf m payload len len) p (0, False) = (acc, sw)" by fastforce
  have "chain_sum [] (0, False)" by (simp add: chain_sum_def ones_def)
  from chain_fold [OF this, of m p] have "chain_sum (chain_data m p) (acc, sw)" by (simp add: f)
  from unswap [OF this] show ?thesis by (simp add: chksum_chain_def f)
qed

section \<open>The reference checksum\<close>

definition rfc1071 :: "u8 list \<Rightarrow> u16" where
  "rfc1071 xs = NOT (word_of_nat (ones (wsum xs)))"

definition le16 :: "u16 \<Rightarrow> u8 list" where
  "le16 v = [ucast v, ucast (drop_bit 8 v)]"

definition le32 :: "u32 \<Rightarrow> u8 list" where
  "le32 v = le16 (ucast v) @ le16 (ucast (drop_bit 16 v))"

text \<open>The pseudo header in network byte order; the addresses are kept in that order.\<close>

definition pseudo_header :: "u32 \<Rightarrow> u32 \<Rightarrow> u8 \<Rightarrow> u16 \<Rightarrow> u8 list" where
  "pseudo_header src dest proto proto_len = le32 src @ le32 dest @ [0, proto] @ le16 (lwip_htons proto_len)"

lemma u16_value: "unat v mod 256 + 256 * (unat v div 256 mod 256) = unat (v :: u16)"
proof -
  have "unat v < 65536" using unsigned_less [of v, where 'a = nat] by simp
  then have "unat v div 256 mod 256 = unat v div 256" by (simp add: less_mult_imp_div_less)
  then show ?thesis by simp
qed

lemma wsum_le16: "wsum (le16 v @ xs) = unat v + wsum xs"
  using u16_value [of v] by (simp add: le16_def unsigned_ucast_eq take_bit_eq_mod unsigned_drop_bit_eq drop_bit_eq_div unat_div)

lemma wsum_le32: "wsum (le32 v @ xs) = unat (ucast v :: u16) + unat (ucast (drop_bit 16 v) :: u16) + wsum xs"
  by (simp add: le32_def wsum_le16)

lemma mask16: "unat (v AND 0xffff) = unat (ucast v :: u16)" for v :: u32
proof -
  have "v AND 0xffff = take_bit 16 v" by (simp add: take_bit_eq_mask mask_eq_exp_minus_1)
  then show ?thesis by (simp add: unsigned_ucast_eq unsigned_take_bit_eq)
qed

lemma htons_value: "unat (lwip_htons v) = unat v div 256 + 256 * (unat v mod 256)"
proof -
  have "unat v < 65536" using unsigned_less [of v, where 'a = nat] by simp
  then have d: "unat v div 256 < 256" by (simp add: less_mult_imp_div_less)
  have "drop_bit 8 (v AND 0xff00) = drop_bit 8 v AND 0xff" by (simp add: drop_bit_and)
  then have hi: "unat (drop_bit 8 (v AND 0xff00)) = unat v div 256"
    using d by (simp add: unsigned_and_eq unsigned_drop_bit_eq nat_and_masks drop_bit_eq_div unat_div)
  have "unat v mod 256 < 256" by simp
  then have "(unat v mod 256) * 256 < 65536" by linarith
  then have lo: "unat (push_bit 8 (v AND 0xff)) = push_bit 8 (unat v mod 256)"
    by (simp add: unat_word_ariths unsigned_and_eq nat_and_masks push_bit_eq_mult)
  show ?thesis using or_bytes [OF d, of "unat v mod 256"] unfolding lwip_htons_def unsigned_or_eq hi lo by (simp only: or.commute)
qed

lemma htons_proto: "unat (lwip_htons (ucast (proto :: u8))) = 256 * unat proto"
  using unat_u8 [of proto] by (simp add: htons_value unsigned_ucast_eq take_bit_eq_mod)

lemma pseudo_sum:
  "wsum (pseudo_header src dest proto proto_len @ xs) =
   unat (src AND 0xffff) + unat (drop_bit 16 src AND 0xffff) + unat (dest AND 0xffff) + unat (drop_bit 16 dest AND 0xffff) +
   unat (lwip_htons (ucast proto)) + unat (lwip_htons proto_len) + wsum xs"
  unfolding pseudo_header_def append_assoc wsum_le32 mask16 htons_proto by (simp add: wsum_le16)

lemma not_mask: "ucast (NOT (x AND 0xffff) :: u32) = (NOT (ucast x) :: u16)"
proof -
  have "x AND 0xffff = take_bit 16 x" by (simp add: take_bit_eq_mask mask_eq_exp_minus_1)
  then show ?thesis by (auto intro!: bit_word_eqI simp: bit_simps)
qed

lemma chksum_word: "unat (x :: u32) = ones n \<Longrightarrow> (ucast x :: u16) = word_of_nat (ones n)"
proof -
  assume x: "unat x = ones n"
  then have "unat (ucast x :: u16) = ones n" using ones_le [of n] by (simp add: ucast_small)
  then show ?thesis using ones_le [of n] by (intro unsigned_word_eqI [where 'a = nat]) (simp add: unat_of_nat)
qed

lemma add_pseudo_value:
  assumes "unat acc = ones (wsum xs)"
  shows "add_pseudo acc src dest proto proto_len = rfc1071 (pseudo_header src dest proto proto_len @ xs)"
proof -
  have u: "unat (ucast v :: u32) = unat v" "unat v \<le> 65535" for v :: u16
    using unsigned_less [of v, where 'a = nat] by (simp_all add: unsigned_ucast_eq take_bit_eq_mod)
  define s where "s = acc + (src AND 0xffff) + (drop_bit 16 src AND 0xffff) + (dest AND 0xffff) + (drop_bit 16 dest AND 0xffff) +
    ucast (lwip_htons (ucast proto)) + ucast (lwip_htons proto_len)"
  define k where "k = unat (src AND 0xffff) + unat (drop_bit 16 src AND 0xffff) + unat (dest AND 0xffff) + unat (drop_bit 16 dest AND 0xffff) +
    unat (lwip_htons (ucast proto)) + unat (lwip_htons proto_len)"
  have le: "unat (v AND 0xffff) \<le> 65535" for v :: u32 unfolding mask16 by (rule u(2))
  have k: "k \<le> 6 * 65535" unfolding k_def
    using le [of src] le [of "drop_bit 16 src"] le [of dest] le [of "drop_bit 16 dest"] u(2) [of "lwip_htons (ucast proto)"] u(2) [of "lwip_htons proto_len"]
    by linarith
  have "s = word_of_nat (unat acc + k)" by (simp add: s_def k_def)
  moreover have "unat acc + k < 2 ^ 32" using k assms ones_le [of "wsum xs"] by simp
  ultimately have s: "unat s = ones (wsum xs) + k" using assms by (simp del: of_nat_add add: unat_of_nat)
  have "unat (FOLD_U32T (FOLD_U32T s)) = ones (wsum (pseudo_header src dest proto proto_len @ xs))"
    unfolding fold_twice s pseudo_sum k_def [symmetric] by (rule ones_cong) (auto intro: mod_add_cong simp: add.commute [of _ k])
  from chksum_word [OF this] show ?thesis unfolding add_pseudo_def Let_def not_mask rfc1071_def s_def by simp
qed

lemma partial_sum:
  "chain_sum xs st \<Longrightarrow> snd st = odd (length xs) \<Longrightarrow> l < 0x7fff \<Longrightarrow>
   \<exists>st'. chksum_partial m p l st = Some st' \<and> chain_sum (xs @ take (unat l) (chain_data m p)) st'"
proof (induction p arbitrary: xs st l)
  case (Cons q p)
  obtain payload len acc sw where [simp]: "q = (payload, len)" "st = (acc, sw)" by (cases q; cases st)
  from Cons.prems have s: "chain_sum xs (acc, sw)" "sw = odd (length xs)" by simp_all
  consider "l = 0" | "l < len" "l \<noteq> 0" | "len \<le> l" "l \<noteq> 0" by fastforce
  then show ?case
  proof cases
    case 2
    have "chksum_partial m p 0 (chksum_pbuf m payload l len (acc, sw)) = Some (chksum_pbuf m payload l len (acc, sw))"
      by (cases p) auto
    moreover have "take (unat l) (chain_data m (q # p)) = octets m payload (unat l)"
      using 2 by (simp add: word_less_nat_alt octets_def take_map)
    ultimately show ?thesis using chksum_pbuf_sum(1) [OF s, of m payload l len] 2 by (simp add: kassert_def)
  next
    case 3
    note c = chksum_pbuf_sum [OF s, of m payload len len]
    have o: "snd (chksum_pbuf m payload len len (acc, sw)) = odd (length (xs @ octets m payload (unat len)))"
      unfolding c(2) using s(2) by auto
    have u: "unat (l - len) = unat l - unat len" using 3 by (simp add: unat_sub_if' word_le_nat_alt)
    have lt: "l - len < 0x7fff" using Cons.prems(3) by (simp add: word_less_nat_alt u)
    show ?thesis using Cons.IH [OF c(1) o lt] 3 lt by (simp add: u kassert_def word_le_nat_alt word_less_nat_alt)
  qed (use s in simp)
qed simp

lemma inet_chksum_value: "inet_chksum m p len = rfc1071 (octets m p (unat len))"
proof -
  have "unat len \<le> 0x1ffff" using unsigned_less [of len, where 'a = nat] by simp
  from chksum_value [OF this] have "lwip_standard_chksum m p (unat len) = word_of_nat (ones (wsum (octets m p (unat len))))"
    using ones_le [of "wsum (octets m p (unat len))"] by (intro unsigned_word_eqI [where 'a = nat]) (simp add: unat_of_nat)
  then show ?thesis by (simp add: inet_chksum_def rfc1071_def)
qed

lemma inet_chksum_pbuf_value: "inet_chksum_pbuf m p = rfc1071 (chain_data m p)"
  unfolding inet_chksum_pbuf_def not_mask rfc1071_def chksum_word [OF chksum_chain_value] ..

lemma inet_chksum_pseudo_value:
  "inet_chksum_pseudo m p src dest proto proto_len = rfc1071 (pseudo_header src dest proto proto_len @ chain_data m p)"
  unfolding inet_chksum_pseudo_def by (rule add_pseudo_value [OF chksum_chain_value])

text \<open>
  C1.  The checksum of a packet does not depend on how the packet is cut into buffers, nor on the
  alignment of the buffers.  For every chain of buffers, \<^verbatim>\<open>inet_chksum_pbuf\<close> is the one's complement
  checksum of the concatenated data, \<^verbatim>\<open>inet_chksum_pseudo\<close> that of the pseudo header followed by
  the data, and \<^verbatim>\<open>inet_chksum_pseudo_partial\<close> with a length below \<^verbatim>\<open>0x7fff\<close> returns that of the
  pseudo header followed by the first \<^verbatim>\<open>chksum_len\<close> bytes, although it decides about the swap of
  the last buffer by the buffer's whole length.
\<close>

theorem inet_chksum_chains:
  "inet_chksum_pbuf m p = rfc1071 (chain_data m p) \<and>
   inet_chksum_pseudo m p src dest proto proto_len = rfc1071 (pseudo_header src dest proto proto_len @ chain_data m p) \<and>
   (chksum_len < 0x7fff \<longrightarrow>
    inet_chksum_pseudo_partial m p src dest proto proto_len chksum_len =
    Some (rfc1071 (pseudo_header src dest proto proto_len @ take (unat chksum_len) (chain_data m p))))"
proof (intro conjI impI inet_chksum_pbuf_value inet_chksum_pseudo_value)
  assume l: "chksum_len < 0x7fff"
  have "chain_sum [] (0, False)" by (simp add: chain_sum_def ones_def)
  from partial_sum [OF this _ l, of m p] obtain acc sw where
    c: "chksum_partial m p chksum_len (0, False) = Some (acc, sw)" "chain_sum (take (unat chksum_len) (chain_data m p)) (acc, sw)"
    by auto
  from add_pseudo_value [OF unswap [OF c(2)]] show "inet_chksum_pseudo_partial m p src dest proto proto_len chksum_len =
    Some (rfc1071 (pseudo_header src dest proto proto_len @ take (unat chksum_len) (chain_data m p)))"
    by (simp add: inet_chksum_pseudo_partial_def c(1))
qed

theorem inet_chksum_chains_witness:
  "inet_chksum_pseudo_partial (\<lambda>a. ucast a) [(0x1001, 3), (0x2000, 5)] 0x0100007f 0x0200007f 17 7 6 =
   Some (rfc1071 (pseudo_header 0x0100007f 0x0200007f 17 7 @ [1, 2, 3, 0, 1, 2]))"
proof -
  have "take 6 (chain_data (\<lambda>a. ucast a) [(0x1001, 3), (0x2000, 5)]) = [1, 2, 3, 0, 1, 2]"
    by (simp add: octets_def upt_rec)
  with inet_chksum_chains [where m = "\<lambda>a. ucast a" and p = "[(0x1001, 3), (0x2000, 5)]" and chksum_len = 6 and src = "0x0100007f"
      and dest = "0x0200007f" and proto = 17 and proto_len = 7]
  show ?thesis by simp
qed

lemma not_word_of_nat: "k \<le> 65535 \<Longrightarrow> NOT (word_of_nat k :: u16) = word_of_nat (65535 - k)"
  by (simp add: of_nat_diff not_eq_complement)

text \<open>The senders clear the field, sum and store the result.\<close>

definition store16 :: "bytes \<Rightarrow> u64 \<Rightarrow> u16 \<Rightarrow> bytes" where
  "store16 m p v = m(p := ucast v, p + 1 := ucast (drop_bit 8 v))"

lemma octets_store:
  assumes "i + 1 < n" "n \<le> 65535"
  shows "octets (store16 m (p + of_nat i) v) p n = take i (octets m p n) @ le16 v @ drop (i + 2) (octets m p n)"
proof (rule nth_equalityI)
  fix j
  assume "j < length (octets (store16 m (p + of_nat i) v) p n)"
  then have j: "j < n" by simp
  have e: "p + of_nat j = p + of_nat i \<longleftrightarrow> j = i" "p + of_nat j = p + of_nat i + 1 \<longleftrightarrow> j = i + 1"
  proof -
    have q: "(of_nat j :: u64) = of_nat k \<longleftrightarrow> j = k" if "k < n" for k
    proof -
      have "unat (of_nat j :: u64) = j" "unat (of_nat k :: u64) = k" using that j assms(2) by (simp_all add: unat_of_nat)
      then show ?thesis by metis
    qed
    show "p + of_nat j = p + of_nat i \<longleftrightarrow> j = i" using q [of i] assms(1) by simp
    show "p + of_nat j = p + of_nat i + 1 \<longleftrightarrow> j = i + 1" using q [of "i + 1"] assms(1) by (simp add: algebra_simps)
  qed
  consider "j < i" | "j = i" | "j = i + 1" | "i + 2 \<le> j" by linarith
  then show "octets (store16 m (p + of_nat i) v) p n ! j = (take i (octets m p n) @ le16 v @ drop (i + 2) (octets m p n)) ! j"
    using j e assms by cases (auto simp: octets_def store16_def le16_def nth_append)
qed (use assms in \<open>simp add: le16_def\<close>)

lemma wsum_even: "even (length xs) \<Longrightarrow> wsum (xs @ ys) = wsum xs + wsum ys"
  by (induction xs rule: wsum.induct) simp_all

text \<open>
  C1.  A header that carries its checksum verifies.  When the two bytes of the checksum field, at
  an even offset inside the header, are zero while \<^verbatim>\<open>inet_chksum\<close> computes the checksum and the
  result is then stored there, the receiver's \<^verbatim>\<open>inet_chksum\<close> over the header is 0, whatever the
  other bytes and the alignment are.
\<close>

theorem inet_chksum_verifies:
  assumes "even i" "i + 1 < unat len" "m (p + of_nat i) = 0" "m (p + of_nat i + 1) = 0"
  shows "inet_chksum (store16 m (p + of_nat i) (inet_chksum m p len)) p len = 0"
proof -
  let ?c = "inet_chksum m p len" and ?n = "unat len"
  let ?xs = "take i (octets m p ?n)" and ?ys = "drop (i + 2) (octets m p ?n)"
  define k where "k = ones (wsum (octets m p ?n))"
  have n: "?n \<le> 65535" using unsigned_less [of len, where 'a = nat] by simp
  have l: "even (length ?xs)" using assms by simp
  have "octets m p ?n = octets (store16 m (p + of_nat i) 0) p ?n"
    using assms by (intro arg_cong [where f = "\<lambda>m. octets m p ?n"]) (auto simp: store16_def)
  also have "\<dots> = ?xs @ le16 0 @ ?ys" by (rule octets_store [OF assms(2) n])
  finally have s: "wsum (octets m p ?n) = wsum ?xs + wsum ?ys" by (metis wsum_even [OF l] wsum_le16 add_0 unsigned_0)
  have c: "unat ?c = 65535 - k" using ones_le [of "wsum (octets m p ?n)"] not_word_of_nat [of k]
    by (simp add: inet_chksum_value rfc1071_def k_def unat_of_nat del: of_nat_diff)
  have "wsum (octets (store16 m (p + of_nat i) ?c) p ?n) = wsum (octets m p ?n) + (65535 - k)"
    unfolding octets_store [OF assms(2) n] wsum_even [OF l] wsum_le16 c s by simp
  moreover have "ones (w + (65535 - ones w)) = 65535" for w
  proof -
    have "(w + (65535 - ones w)) mod 65535 = (ones w + (65535 - ones w)) mod 65535" by (intro mod_add_cong) simp_all
    then have "(w + (65535 - ones w)) mod 65535 = 0" using ones_le [of w] by simp
    moreover have "w + (65535 - ones w) \<noteq> 0" using ones_zero [of w] by arith
    ultimately show ?thesis unfolding ones_def by presburger
  qed
  ultimately have "ones (wsum (octets (store16 m (p + of_nat i) ?c) p ?n)) = 65535" by (simp add: k_def)
  then show ?thesis by (simp add: inet_chksum_value [of _ p] rfc1071_def)
qed

theorem inet_chksum_verifies_witness:
  "inet_chksum (store16 ((\<lambda>a. ucast a)(0x100a := 0, 0x100b := 0)) 0x100a (inet_chksum ((\<lambda>a. ucast a)(0x100a := 0, 0x100b := 0)) 0x1000 20)) 0x1000 20 = 0"
  using inet_chksum_verifies [where i = 10 and len = 20 and p = "0x1000" and m = "(\<lambda>a. ucast a)(0x100a := 0, 0x100b := 0)"] by simp

end
