(* ===== verification/LwipAddr.thy ===== *)
theory LwipAddr
  imports LwipChksum
begin

text \<open>
  The IPv4 address tools of lwIP (\<^verbatim>\<open>lib/liblwip/src/core/ipv4/ip_addr.c\<close>).  Addresses are kept in
  network byte order.  A string that is not terminated keeps the parser running (\<open>None\<close>); the
  parser's result 0 is the inner \<open>None\<close>.
\<close>

section \<open>Definitions\<close>

definition IPADDR_ANY :: u32 where "IPADDR_ANY = 0"
definition IPADDR_BROADCAST :: u32 where "IPADDR_BROADCAST = 0xffffffff"
definition IPADDR_NONE :: u32 where "IPADDR_NONE = 0xffffffff"
definition NETIF_FLAG_BROADCAST :: u8 where "NETIF_FLAG_BROADCAST = 2"

text \<open>The fields of \<^verbatim>\<open>struct netif\<close> that the address tools read.\<close>

record netif =
  ip_addr :: u32
  netmask :: u32
  netif_flags :: u8

definition ip4_addr_isbroadcast :: "u32 \<Rightarrow> netif \<Rightarrow> bool" where
  "ip4_addr_isbroadcast addr n =
     (if NOT addr = IPADDR_ANY \<or> addr = IPADDR_ANY then True
      else if netif_flags n AND NETIF_FLAG_BROADCAST = 0 then False
      else if addr = ip_addr n then False
      else if addr AND netmask n = ip_addr n AND netmask n \<and> addr AND NOT (netmask n) = IPADDR_BROADCAST AND NOT (netmask n) then True
      else False)"

text \<open>The two loops of \<^verbatim>\<open>ip4_addr_netmask_valid\<close>: the mask at the first zero, and whether only zeros follow.\<close>

function first_zero :: "u32 \<Rightarrow> u32 \<Rightarrow> u32" where
  "first_zero nm msk = (if msk \<noteq> 0 \<and> nm AND msk \<noteq> 0 then first_zero nm (drop_bit 1 msk) else msk)"
  by pat_completeness auto

function no_ones :: "u32 \<Rightarrow> u32 \<Rightarrow> bool" where
  "no_ones nm msk = (if msk = 0 then True else if nm AND msk \<noteq> 0 then False else no_ones nm (drop_bit 1 msk))"
  by pat_completeness auto

lemma half_less: "w \<noteq> 0 \<Longrightarrow> unat (drop_bit 1 w :: u32) < unat w"
  by (simp add: unsigned_drop_bit_eq drop_bit_eq_div unat_div unat_gt_0)

termination first_zero by (relation "measure (\<lambda>(nm, msk). unat msk)") (rule wf_measure, simp only: in_measure case_prod_conv, blast intro: half_less)
termination no_ones by (relation "measure (\<lambda>(nm, msk). unat msk)") (rule wf_measure, simp only: in_measure case_prod_conv, blast intro: half_less)

declare first_zero.simps [simp del] no_ones.simps [simp del]

definition ip4_addr_netmask_valid :: "u32 \<Rightarrow> bool" where
  "ip4_addr_netmask_valid nm = (let nm_hostorder = lwip_htonl nm in no_ones nm_hostorder (first_zero nm_hostorder 0x80000000))"

definition in_range :: "u8 \<Rightarrow> u8 \<Rightarrow> u8 \<Rightarrow> bool" where
  "in_range c lo up \<longleftrightarrow> lo \<le> c \<and> c \<le> up"

definition lwip_isdigit :: "u8 \<Rightarrow> bool" where
  "lwip_isdigit c = in_range c 0x30 0x39"

definition lwip_isxdigit :: "u8 \<Rightarrow> bool" where
  "lwip_isxdigit c = (lwip_isdigit c \<or> in_range c 0x61 0x66 \<or> in_range c 0x41 0x46)"

definition lwip_islower :: "u8 \<Rightarrow> bool" where
  "lwip_islower c = in_range c 0x61 0x7a"

definition lwip_isspace :: "u8 \<Rightarrow> bool" where
  "lwip_isspace c = (c \<in> {0x20, 0x0c, 0x0a, 0x0d, 0x09, 0x0b})"

text \<open>The loop over the digits of a part: the address of the first other character and the value.\<close>

partial_function (option) aton_digits :: "bytes \<Rightarrow> u32 \<Rightarrow> u64 \<Rightarrow> u32 \<Rightarrow> (u64 \<times> u32) option" where
  "aton_digits m base cp val =
     (if lwip_isdigit (m cp) then aton_digits m base (cp + 1) (val * base + ucast (m cp - 0x30))
      else if base = 16 \<and> lwip_isxdigit (m cp) then
        aton_digits m base (cp + 1) (push_bit 4 val OR ucast (m cp + 10 - (if lwip_islower (m cp) then 0x61 else 0x41)))
      else Some (cp, val))"

definition aton_number :: "bytes \<Rightarrow> u64 \<Rightarrow> (u64 \<times> u32) option" where
  "aton_number m cp =
     (if m cp = 0x30 then
        (if m (cp + 1) = 0x78 \<or> m (cp + 1) = 0x58 then aton_digits m 16 (cp + 2) 0 else aton_digits m 8 (cp + 1) 0)
      else aton_digits m 10 cp 0)"

text \<open>The outer loop: the address of the character after the last part, the stored parts and the last one.\<close>

partial_function (option) aton_parts :: "bytes \<Rightarrow> u64 \<Rightarrow> u32 list \<Rightarrow> (u64 \<times> u32 list \<times> u32) option option" where
  "aton_parts m cp parts =
     (if \<not> lwip_isdigit (m cp) then Some None
      else Option.bind (aton_number m cp)
        (\<lambda>(cp, val).
          if m cp = 0x2e then (if 3 \<le> length parts then Some None else aton_parts m (cp + 1) (parts @ [val]))
          else Some (Some (cp, parts, val))))"

definition aton_combine :: "u32 list \<Rightarrow> u32 \<Rightarrow> u32 option" where
  "aton_combine parts val =
     (case parts of
        [] \<Rightarrow> Some val
      | [a] \<Rightarrow> if 0xffffff < val then None else Some (val OR push_bit 24 a)
      | [a, b] \<Rightarrow> if 0xffff < val then None else Some (val OR (push_bit 24 a OR push_bit 16 b))
      | a # b # c # _ \<Rightarrow> if 0xff < val then None else Some (val OR (push_bit 24 a OR push_bit 16 b OR push_bit 8 c)))"

definition ipaddr_aton :: "bytes \<Rightarrow> u64 \<Rightarrow> u32 option option" where
  "ipaddr_aton m cp = do {
     r \<leftarrow> aton_parts m cp [];
     Some (do {
       (cp, parts, val) \<leftarrow> r;
       if m cp \<noteq> 0 \<and> \<not> lwip_isspace (m cp) then None
       else do { val \<leftarrow> aton_combine parts val; Some (lwip_htonl val) }
     })
   }"

definition ipaddr_addr :: "bytes \<Rightarrow> u64 \<Rightarrow> u32 option" where
  "ipaddr_addr m cp = map_option (\<lambda>r. case r of Some val \<Rightarrow> val | None \<Rightarrow> IPADDR_NONE) (ipaddr_aton m cp)"

text \<open>The digits of a byte, the last one first, as the \<^verbatim>\<open>do\<close> loop of \<^verbatim>\<open>ipaddr_ntoa_r\<close> collects them in \<^verbatim>\<open>inv\<close>.\<close>

function ntoa_inv :: "u8 \<Rightarrow> u8 list \<Rightarrow> u8 list" where
  "ntoa_inv ap ds =
     (let ds = ds @ [0x30 + ap mod 10] in if ap div 10 \<noteq> 0 then ntoa_inv (ap div 10) ds else ds)"
  by pat_completeness auto

lemma tenth_less: "w div 10 \<noteq> 0 \<Longrightarrow> unat (w div 10 :: u8) < unat w"
proof -
  assume "w div 10 \<noteq> 0"
  then have "0 < unat w" by (cases "w = 0") (auto simp: unat_gt_0)
  then show ?thesis by (simp add: unat_div)
qed

termination ntoa_inv by (relation "measure (\<lambda>(ap, ds). unat ap)") (rule wf_measure, simp only: in_measure case_prod_conv, blast intro: tenth_less)

declare ntoa_inv.simps [simp del]

text \<open>
  Writing characters with the check of the buffer's length; \<^verbatim>\<open>False\<close> is the return of \<^verbatim>\<open>NULL\<close> in
  the middle.
\<close>

fun ntoa_put :: "int \<Rightarrow> u8 list \<Rightarrow> bytes \<times> u64 \<times> int \<Rightarrow> bool \<times> bytes \<times> u64 \<times> int" where
  "ntoa_put buflen [] st = (True, st)"
| "ntoa_put buflen (c # cs) (m, rp, len) =
     (if len \<ge> buflen then (False, m, rp, len + 1) else ntoa_put buflen cs (m(rp := c), rp + 1, len + 1))"

fun ntoa_loop :: "int \<Rightarrow> u8 list \<Rightarrow> bytes \<times> u64 \<times> int \<Rightarrow> bool \<times> bytes \<times> u64 \<times> int" where
  "ntoa_loop buflen [] st = (True, st)"
| "ntoa_loop buflen (ap # aps) st =
     (let (ok, st) = ntoa_put buflen (rev (ntoa_inv ap [])) st in
      if \<not> ok then (False, st)
      else let (ok, st) = ntoa_put buflen [0x2e] st in
      if \<not> ok then (False, st) else ntoa_loop buflen aps st)"

definition ipaddr_ntoa_r :: "u32 \<Rightarrow> u64 \<Rightarrow> int \<Rightarrow> bytes \<Rightarrow> u64 \<times> bytes" where
  "ipaddr_ntoa_r addr buf buflen m =
     (let (ok, m, rp, len) = ntoa_loop buflen (le32 addr) (m, buf, 0) in
      if ok then (buf, m(rp - 1 := 0)) else (0, m))"

text \<open>\<^verbatim>\<open>str\<close> is the static buffer.\<close>

definition ipaddr_ntoa :: "u64 \<Rightarrow> u32 \<Rightarrow> bytes \<Rightarrow> u64 \<times> bytes" where
  "ipaddr_ntoa str addr m = ipaddr_ntoa_r addr str 16 m"

section \<open>Writing\<close>

fun put_bytes :: "u64 \<Rightarrow> u8 list \<Rightarrow> bytes \<Rightarrow> bytes" where
  "put_bytes p [] m = m"
| "put_bytes p (c # cs) m = put_bytes (p + 1) cs (m(p := c))"

lemma ntoa_put_append:
  "ntoa_put buflen (xs @ ys) st = (let (ok, st) = ntoa_put buflen xs st in if ok then ntoa_put buflen ys st else (False, st))"
  by (induction buflen xs st rule: ntoa_put.induct) auto

text \<open>The loop writes the text of the bytes, each followed by a dot.\<close>

definition dotted :: "u8 list \<Rightarrow> u8 list" where
  "dotted aps = concat (map (\<lambda>ap. rev (ntoa_inv ap []) @ [0x2e]) aps)"

lemma ntoa_loop_put: "ntoa_loop buflen aps st = ntoa_put buflen (dotted aps) st"
proof (induction aps arbitrary: st)
  case (Cons ap aps)
  then show ?case unfolding ntoa_loop.simps dotted_def list.map concat.simps append_assoc ntoa_put_append
    by (auto simp: Let_def split: prod.splits simp del: ntoa_put.simps)
qed (simp add: dotted_def)

lemma ntoa_put_ok: "len + int (length cs) \<le> buflen \<Longrightarrow>
    ntoa_put buflen cs (m, rp, len) = (True, put_bytes rp cs m, rp + of_nat (length cs), len + int (length cs))"
  by (induction cs arbitrary: m rp len) (auto simp: algebra_simps)

lemma ntoa_put_full: "buflen < len + int (length cs) \<Longrightarrow> len \<le> buflen \<Longrightarrow>
    \<exists>rp' len'. ntoa_put buflen cs (m, rp, len) = (False, put_bytes rp (take (nat (buflen - len)) cs) m, rp', len')"
proof (induction cs arbitrary: m rp len)
  case (Cons c cs)
  show ?case
  proof (cases "len = buflen")
    case False
    then have "nat (buflen - len) = Suc (nat (buflen - (len + 1)))" using Cons.prems by simp
    then show ?thesis using Cons.IH [of "len + 1" "m(rp := c)" "rp + 1"] Cons.prems False by (simp add: fun_upd_def)
  qed simp
qed simp

lemma put_bytes_outside: "length cs \<le> n \<Longrightarrow> of_nat n \<le> a - p \<Longrightarrow> n < 2 ^ 64 \<Longrightarrow> put_bytes p cs m a = m a"
proof (induction cs arbitrary: p m n)
  case (Cons c cs)
  then obtain k where n: "n = Suc k" by (cases n) auto
  have "unat (of_nat n :: u64) = n" using Cons.prems(3) by (simp add: unat_of_nat)
  with Cons.prems(2) have u: "Suc k \<le> unat (a - p)" by (simp only: word_le_nat_alt n)
  then have "1 \<le> a - p" by (simp add: word_le_nat_alt)
  then have s: "unat (a - (p + 1)) = unat (a - p) - 1" by (simp add: unat_sub diff_diff_eq [symmetric])
  have "(of_nat k :: u64) \<le> a - (p + 1)" unfolding word_le_nat_alt s using u Cons.prems(3) n by (simp add: unat_of_nat)
  then have "put_bytes (p + 1) cs (m(p := c)) a = (m(p := c)) a" using Cons.prems n by (intro Cons.IH [of k]) simp_all
  moreover have "a \<noteq> p" using u by auto
  ultimately show ?case by simp
qed simp

definition at :: "bytes \<Rightarrow> u64 \<Rightarrow> u8 list \<Rightarrow> bool" where
  "at m p xs \<longleftrightarrow> octets m p (length xs) = xs"

lemma at_Nil [simp]: "at m p []"
  by (simp add: at_def)

lemma at_Cons [simp]: "at m p (x # xs) \<longleftrightarrow> m p = x \<and> at m (p + 1) xs"
  by (simp add: at_def octets_Suc)

lemma at_append: "at m p (xs @ ys) \<longleftrightarrow> at m p xs \<and> at m (p + of_nat (length xs)) ys"
  by (induction xs arbitrary: p) (auto simp: algebra_simps)

lemma at_put_bytes: "length cs < 2 ^ 64 \<Longrightarrow> at (put_bytes p cs m) p cs"
proof (induction cs arbitrary: p m)
  case (Cons c cs)
  have "put_bytes (p + 1) cs (m(p := c)) p = (m(p := c)) p"
    using Cons.prems by (intro put_bytes_outside [of _ "length cs"]) (simp_all add: word_le_nat_alt unat_of_nat unsigned_minus_1_eq_mask mask_eq_exp_minus_1)
  then show ?case using Cons by simp
qed simp

section \<open>Reading\<close>

lemma digit: "d < 10 \<Longrightarrow> lwip_isdigit (0x30 + d)"
proof -
  assume "d < 10"
  then have d: "unat d < 10" by (simp add: word_less_nat_alt)
  then have "unat (0x30 + d) = 0x30 + unat d" by (simp add: unat_word_ariths)
  then show ?thesis using d by (simp add: lwip_isdigit_def in_range_def word_le_nat_alt)
qed

lemma aton_digits_at:
  "at m cp (map (\<lambda>d. 0x30 + d) ds) \<Longrightarrow> (\<forall>d\<in>set ds. d < 10) \<Longrightarrow>
   aton_digits m base cp val = aton_digits m base (cp + of_nat (length ds)) (foldl (\<lambda>v d. v * base + ucast d) val ds)"
proof (induction ds arbitrary: cp val)
  case (Cons d ds)
  have "aton_digits m base cp val = aton_digits m base (cp + 1) (val * base + ucast d)"
    using Cons.prems digit [of d] by (subst aton_digits.simps) simp
  also have "\<dots> = aton_digits m base (cp + of_nat (length (d # ds))) (foldl (\<lambda>v d. v * base + ucast d) val (d # ds))"
    using Cons.prems Cons.IH [of "cp + 1" "val * base + ucast d"] by (simp add: algebra_simps)
  finally show ?case .
qed simp

lemma aton_digits_stop: "\<not> lwip_isdigit (m cp) \<Longrightarrow> base \<noteq> 16 \<Longrightarrow> aton_digits m base cp val = Some (cp, val)"
  by (subst aton_digits.simps) simp

text \<open>The digits of a byte.\<close>

definition decimals :: "u8 \<Rightarrow> u8 list" where
  "decimals b = (if b < 10 then [b] else if b < 100 then [b div 10, b mod 10] else [b div 100, b div 10 mod 10, b mod 10])"

lemma div_100: "b div 10 div 10 = b div 100" for b :: u8
  by (rule unsigned_word_eqI [where 'a = nat]) (simp add: unat_div div_mult2_eq [symmetric])

lemma ntoa_inv_decimals: "rev (ntoa_inv b []) = map (\<lambda>d. 0x30 + d) (decimals b)"
proof -
  have z: "b div 10 = 0 \<longleftrightarrow> b < 10" "b div 100 = 0 \<longleftrightarrow> b < 100" "b div 100 div 10 = 0"
  proof -
    show "b div 10 = 0 \<longleftrightarrow> b < 10" "b div 100 = 0 \<longleftrightarrow> b < 100"
      by (simp_all add: unat_eq_0 [symmetric] unat_div word_less_nat_alt div_eq_0_iff)
    show "b div 100 div 10 = 0" using unat_u8 [of b] by (simp add: unat_eq_0 [symmetric] unat_div)
  qed
  have "b < 10 \<Longrightarrow> b mod 10 = b" by (rule unsigned_word_eqI [where 'a = nat]) (simp add: unat_mod word_less_nat_alt)
  moreover have "b < 100 \<Longrightarrow> b div 10 mod 10 = b div 10"
    by (rule unsigned_word_eqI [where 'a = nat]) (simp add: unat_mod unat_div word_less_nat_alt less_mult_imp_div_less)
  moreover have "b div 100 mod 10 = b div 100"
    using unat_u8 [of b] by (intro unsigned_word_eqI [where 'a = nat]) (simp add: unat_mod unat_div)
  moreover have "b < 10 \<Longrightarrow> b < 100" by (simp add: word_less_nat_alt)
  ultimately show ?thesis using z div_100 [of b] by (simp add: decimals_def ntoa_inv.simps Let_def)
qed

lemma decimals_less: "\<forall>d\<in>set (decimals b). d < 10"
proof -
  have "b mod 10 < 10" "b div 10 mod 10 < 10" by (simp_all add: word_less_nat_alt unat_mod)
  moreover have "b div 100 < 10" using unat_u8 [of b] by (simp add: word_less_nat_alt unat_div)
  moreover have "b < 100 \<Longrightarrow> b div 10 < 10" by (simp add: word_less_nat_alt unat_div less_mult_imp_div_less)
  ultimately show ?thesis by (simp add: decimals_def)
qed

lemma decimals_value: "foldl (\<lambda>v d. v * 10 + ucast d) 0 (decimals b) = (ucast b :: u32)"
proof (rule unsigned_word_eqI [where 'a = nat])
  have u: "unat (ucast c :: u32) = unat c" for c :: u8 using unat_u8 [of c] by (simp add: unsigned_ucast_eq take_bit_eq_mod)
  have b: "unat b < 256" by (rule unat_u8)
  have 1: "unat b div 10 * 10 + unat b mod 10 = unat b" by simp
  have 2: "(unat b div 100 * 10 + unat b div 10 mod 10) * 10 + unat b mod 10 = unat b"
    using div_mult2_eq [of "unat b" 10 10] by simp
  show "unat (foldl (\<lambda>v d. v * 10 + ucast d) 0 (decimals b) :: u32) = unat (ucast b :: u32)"
    using b 1 2 by (simp add: decimals_def unat_word_ariths u unat_div unat_mod)
qed

lemma decimals_hd: "2 \<le> length (decimals b) \<Longrightarrow> hd (decimals b) \<noteq> 0"
  by (auto simp: decimals_def unat_eq_0 [symmetric] unat_div word_less_nat_alt div_eq_0_iff split: if_splits)

lemma decimals_Nil: "decimals b \<noteq> []"
  by (simp add: decimals_def)

lemma aton_number_at:
  assumes "at m cp (map (\<lambda>d. 0x30 + d) (decimals b) @ [t])" "t \<in> {0x2e, 0}"
  shows "lwip_isdigit (m cp)" "aton_number m cp = Some (cp + of_nat (length (decimals b)), ucast b)"
    "m (cp + of_nat (length (decimals b))) = t"
proof -
  let ?e = "cp + of_nat (length (decimals b))"
  obtain d ds where ds: "decimals b = d # ds" using decimals_Nil by (cases "decimals b") auto
  have a: "at m cp (map (\<lambda>d. 0x30 + d) (decimals b))" and t: "m ?e = t" using assms(1) by (simp_all add: at_append)
  then show "m ?e = t" by simp
  have h: "m cp = 0x30 + d" and d: "d < 10" using a decimals_less [of b] by (simp_all add: ds)
  then show "lwip_isdigit (m cp)" using digit by simp
  have s: "\<not> lwip_isdigit (m ?e)" using t assms(2) by (auto simp: lwip_isdigit_def in_range_def)
  show "aton_number m cp = Some (?e, ucast b)"
  proof (cases "d = 0")
    case True
    then have "ds = []" using decimals_hd [of b] by (cases ds) (auto simp: ds)
    then have b: "b = 0" using True ds by (simp add: decimals_def split: if_splits)
    have e: "?e = cp + 1" by (simp add: b decimals_def)
    show ?thesis using True h t [unfolded e] assms(2) aton_digits_stop [where m = m and cp = "cp + 1" and base = 8 and val = 0] s [unfolded e]
      unfolding e by (auto simp: aton_number_def b)
  next
    case False
    then have "aton_number m cp = aton_digits m 10 cp 0" using h by (simp add: aton_number_def)
    also have "\<dots> = Some (?e, ucast b)"
      unfolding aton_digits_at [OF a decimals_less] decimals_value by (rule aton_digits_stop) (use s in simp_all)
    finally show ?thesis .
  qed
qed

lemma aton_parts_dot:
  assumes "at m cp (map (\<lambda>d. 0x30 + d) (decimals b) @ 0x2e # rest)" "length parts < 3"
  shows "aton_parts m cp parts = aton_parts m (cp + of_nat (length (decimals b)) + 1) (parts @ [ucast b])"
    "at m (cp + of_nat (length (decimals b)) + 1) rest"
proof -
  have "at m cp (map (\<lambda>d. 0x30 + d) (decimals b) @ [0x2e])" using assms(1) by (simp add: at_append)
  note n = aton_number_at [OF this]
  show "aton_parts m cp parts = aton_parts m (cp + of_nat (length (decimals b)) + 1) (parts @ [ucast b])"
    using n assms(2) by (subst aton_parts.simps) simp
  show "at m (cp + of_nat (length (decimals b)) + 1) rest" using assms(1) by (simp add: at_append)
qed

lemma aton_parts_end:
  assumes "at m cp (map (\<lambda>d. 0x30 + d) (decimals b) @ [0])"
  shows "\<exists>e. aton_parts m cp parts = Some (Some (e, parts, ucast b)) \<and> m e = 0"
  using aton_number_at [OF assms] by (subst aton_parts.simps) simp

lemma ucast_byte_le: "(ucast (d :: u8) :: u32) \<le> 0xff"
  using unat_u8 [of d] by (simp add: word_le_nat_alt unsigned_ucast_eq take_bit_eq_mod)

text \<open>The parser on the four decimal parts of an address.\<close>

definition dotted_text :: "u32 \<Rightarrow> u8 list" where
  "dotted_text addr = butlast (dotted (le32 addr))"

lemma byte_masks: "(0xff :: u32) = mask 8" "(0xff00 :: u32) = push_bit 8 (mask 8)" "(0xff0000 :: u32) = push_bit 16 (mask 8)"
    "(0xff000000 :: u32) = push_bit 24 (mask 8)"
  by (simp_all add: mask_eq_exp_minus_1)

lemma bit_byte: "bit (ucast (a :: u8) :: u32) k \<longleftrightarrow> bit a k" "8 \<le> k \<Longrightarrow> \<not> bit (a :: u8) k"
  by (auto simp: bit_simps dest: bit_imp_le_length)

lemmas byte_bits = bit_and_iff bit_or_iff bit_push_bit_iff bit_drop_bit_eq bit_mask_iff bit_byte

lemma htonl_bytes:
  fixes a b c d :: u8
  shows "lwip_htonl (ucast d OR (push_bit 24 (ucast a) OR push_bit 16 (ucast b) OR push_bit 8 (ucast c))) =
    ucast a OR push_bit 8 (ucast b) OR push_bit 16 (ucast c) OR push_bit 24 (ucast d)"
proof (rule bit_word_eqI)
  fix n
  assume "n < LENGTH(32)"
  then consider "n < 8" | "8 \<le> n" "n < 16" | "16 \<le> n" "n < 24" | "24 \<le> n" "n < 32" by fastforce
  then show "bit (lwip_htonl (ucast d OR (push_bit 24 (ucast a) OR push_bit 16 (ucast b) OR push_bit 8 (ucast c)))) n =
    bit (ucast a OR push_bit 8 (ucast b) OR push_bit 16 (ucast c) OR push_bit 24 (ucast d) :: u32) n"
    unfolding lwip_htonl_def byte_masks
    by cases (simp_all add: byte_bits less_diff_conv2)
qed

lemma le32_bytes:
  fixes a b c d :: u8
  assumes "le32 addr = [a, b, c, d]"
  shows "addr = ucast a OR push_bit 8 (ucast b) OR push_bit 16 (ucast c) OR push_bit 24 (ucast d)"
proof (rule bit_word_eqI)
  fix n
  assume "n < LENGTH(32)"
  then consider "n < 8" | "8 \<le> n" "n < 16" | "16 \<le> n" "n < 24" | "24 \<le> n" "n < 32" by fastforce
  moreover have "a = ucast (ucast addr :: u16)" "b = ucast (drop_bit 8 (ucast addr :: u16))" "c = ucast (ucast (drop_bit 16 addr) :: u16)"
    "d = ucast (drop_bit 8 (ucast (drop_bit 16 addr) :: u16))" using assms by (simp_all add: le32_def le16_def)
  ultimately show "bit addr n = bit (ucast a OR push_bit 8 (ucast b) OR push_bit 16 (ucast c) OR push_bit 24 (ucast d) :: u32) n"
    by cases (simp_all add: bit_simps less_diff_conv2)
qed

lemma aton_text:
  assumes "at m cp (dotted_text addr @ [0])"
  shows "ipaddr_aton m cp = Some (Some addr)"
proof -
  obtain a b c d where l: "le32 addr = [a, b, c, d]" by (simp add: le32_def le16_def)
  let ?t = "\<lambda>b. map (\<lambda>d. 0x30 + d) (decimals b)"
  have "dotted_text addr @ [0] = ?t a @ 0x2e # ?t b @ 0x2e # ?t c @ 0x2e # ?t d @ [0]"
    by (simp add: dotted_text_def dotted_def l ntoa_inv_decimals butlast_append)
  with assms have "at m cp (?t a @ 0x2e # ?t b @ 0x2e # ?t c @ 0x2e # ?t d @ [0])" by simp
  note a = aton_parts_dot [OF this, of "[]"]
  note b = aton_parts_dot [OF a(2), of "[ucast a]"]
  note c = aton_parts_dot [OF b(2), of "[ucast a, ucast b]"]
  from aton_parts_end [OF c(2), of "[ucast a, ucast b, ucast c]"] obtain e where
    "aton_parts m cp [] = Some (Some (e, [ucast a, ucast b, ucast c], ucast d))" "m e = 0"
    using a(1) b(1) c(1) by auto
  then show ?thesis using ucast_byte_le [of d]
    by (simp add: ipaddr_aton_def aton_combine_def not_less htonl_bytes le32_bytes [OF l, symmetric])
qed

lemma decimals_length: "length (decimals b) \<le> 3"
  by (simp add: decimals_def)

lemma dotted_length: "length (dotted (le32 addr)) \<le> 16" "dotted (le32 addr) \<noteq> []" "last (dotted (le32 addr)) = 0x2e"
proof -
  obtain a b c d where l: "le32 addr = [a, b, c, d]" by (simp add: le32_def le16_def)
  show "length (dotted (le32 addr)) \<le> 16"
    using decimals_length [of a] decimals_length [of b] decimals_length [of c] decimals_length [of d]
    by (simp add: dotted_def l ntoa_inv_decimals)
qed (simp_all add: dotted_def le32_def le16_def)

lemma dotted_snoc: "dotted (le32 addr) = dotted_text addr @ [0x2e]"
  using append_butlast_last_id [OF dotted_length(2) [of addr]] unfolding dotted_length(3) dotted_text_def by (rule sym)

lemma put_bytes_append: "put_bytes p (xs @ ys) m = put_bytes (p + of_nat (length xs)) ys (put_bytes p xs m)"
  by (induction xs arbitrary: p m) (simp_all add: algebra_simps)

lemma put_bytes_snoc_upd: "(put_bytes p (xs @ [x]) m)(p + of_nat (length xs) := y) = put_bytes p (xs @ [y]) m"
  by (simp add: put_bytes_append)

lemma ntoa_r_ok:
  assumes "int (length (dotted_text addr)) < buflen"
  shows "ipaddr_ntoa_r addr buf buflen m = (buf, put_bytes buf (dotted_text addr @ [0]) m)"
proof -
  let ?t = "dotted_text addr"
  have "ntoa_put buflen (?t @ [0x2e]) (m, buf, 0) = (True, put_bytes buf (?t @ [0x2e]) m, buf + of_nat (length (?t @ [0x2e])), 0 + int (length (?t @ [0x2e])))"
    using assms by (intro ntoa_put_ok) simp
  moreover have "buf + of_nat (length (?t @ [0x2e])) - 1 = buf + of_nat (length ?t)" by simp
  ultimately show ?thesis unfolding ipaddr_ntoa_r_def ntoa_loop_put dotted_snoc by (simp only: Let_def case_prod_conv if_True put_bytes_snoc_upd)
qed

lemma ntoa_r_full:
  assumes "buflen \<le> int (length (dotted_text addr))" "0 \<le> buflen"
  shows "ipaddr_ntoa_r addr buf buflen m = (0, put_bytes buf (take (nat buflen) (dotted_text addr)) m)"
proof -
  let ?t = "dotted_text addr"
  obtain rp len where "ntoa_put buflen (?t @ [0x2e]) (m, buf, 0) = (False, put_bytes buf (take (nat (buflen - 0)) (?t @ [0x2e])) m, rp, len)"
    using ntoa_put_full [of buflen 0 "?t @ [0x2e]" m buf] assms by auto
  moreover have "take (nat (buflen - 0)) (?t @ [0x2e]) = take (nat buflen) ?t" using assms by simp
  ultimately show ?thesis unfolding ipaddr_ntoa_r_def ntoa_loop_put dotted_snoc by (simp only: Let_def case_prod_conv if_False)
qed

section \<open>Properties\<close>

text \<open>
  C1.  Printing an address and parsing the text gives the address back.  The text of an address has
  at most 15 characters.  \<^verbatim>\<open>ipaddr_ntoa_r\<close> with a buffer that has room for it and the terminator
  returns the buffer, and \<^verbatim>\<open>ipaddr_aton\<close> of it returns 1 with the same address; with a smaller
  buffer it returns \<^verbatim>\<open>NULL\<close>.  No byte outside of the first \<^verbatim>\<open>buflen\<close> bytes of the buffer changes.
\<close>

theorem ipaddr_ntoa_aton:
  assumes "0 \<le> buflen"
  shows "length (dotted_text addr) \<le> 15 \<and>
    (\<exists>r m'. ipaddr_ntoa_r addr buf buflen m = (r, m') \<and>
      (if int (length (dotted_text addr)) < buflen then r = buf \<and> ipaddr_aton m' buf = Some (Some addr) else r = 0) \<and>
      (\<forall>a. buflen \<le> uint (a - buf) \<longrightarrow> m' a = m a))"
proof -
  let ?t = "dotted_text addr"
  have l: "length ?t \<le> 15" using dotted_length(1) [of addr] by (simp add: dotted_snoc)
  have out: "put_bytes buf cs m a = m a" if a: "buflen \<le> uint (a - buf)" and c: "int (length cs) \<le> buflen" "length cs \<le> 16" for cs a
  proof (rule put_bytes_outside [of _ "length cs"])
    have "int (length cs) \<le> int (unat (a - buf))" using a c by simp
    then have "length cs \<le> unat (a - buf)" by (simp only: of_nat_le_iff)
    then show "of_nat (length cs) \<le> a - buf" using c(2) by (simp add: word_le_nat_alt unat_of_nat)
  qed (use c in simp_all)
  show ?thesis
  proof (cases "int (length ?t) < buflen")
    case True
    have "at (put_bytes buf (?t @ [0]) m) buf (?t @ [0])" using l by (intro at_put_bytes) simp
    then have "ipaddr_aton (put_bytes buf (?t @ [0]) m) buf = Some (Some addr)" by (rule aton_text)
    moreover have "\<forall>a. buflen \<le> uint (a - buf) \<longrightarrow> put_bytes buf (?t @ [0]) m a = m a" using True l by (intro allI impI out) simp_all
    ultimately show ?thesis using ntoa_r_ok [OF True, of buf m] True l by auto
  next
    case False
    then have "\<forall>a. buflen \<le> uint (a - buf) \<longrightarrow> put_bytes buf (take (nat buflen) ?t) m a = m a"
      using l assms by (intro allI impI out) simp_all
    then show ?thesis using ntoa_r_full [of buflen addr buf m] False assms l by auto
  qed
qed

theorem ipaddr_ntoa_aton_witness:
  "\<exists>r m'. ipaddr_ntoa_r 0x0100007f 0x1000 16 (\<lambda>_. 7) = (r, m') \<and> r = 0x1000 \<and> ipaddr_aton m' 0x1000 = Some (Some 0x0100007f) \<and> m' 0x1010 = 7"
proof -
  have "int (length (dotted_text 0x0100007f)) < 16"
    by (simp add: dotted_text_def dotted_def le32_def le16_def ntoa_inv_decimals decimals_def butlast_append unsigned_ucast_eq drop_bit_eq_div)
  with ipaddr_ntoa_aton [where buflen = 16 and addr = "0x0100007f" and buf = "0x1000" and m = "\<lambda>_. 7"]
  show ?thesis by (fastforce dest: spec [where x = "0x1010"])
qed

section \<open>Netmasks\<close>

definition probe :: "nat \<Rightarrow> u32" where
  "probe k = (if k = 0 then 0 else 2 ^ (k - 1))"

lemma probe_bit: "k < 32 \<Longrightarrow> nm AND probe (Suc k) \<noteq> 0 \<longleftrightarrow> bit nm k"
proof -
  assume k: "k < 32"
  have "bit (nm AND probe (Suc k)) i \<longleftrightarrow> i = k \<and> bit nm k" for i
    using k by (auto simp: probe_def bit_and_iff bit_exp_iff)
  then show ?thesis by (metis bit_0_eq bot_apply bot_bool_def bit_eqI)
qed

lemma probe_step: "k < 32 \<Longrightarrow> drop_bit 1 (probe (Suc k)) = probe k" "k < 32 \<Longrightarrow> probe (Suc k) \<noteq> 0" "probe 0 = 0"
proof -
  assume k: "k < 32"
  show "drop_bit 1 (probe (Suc k)) = probe k"
    by (rule bit_word_eqI) (use k in \<open>auto simp: probe_def bit_drop_bit_eq bit_exp_iff\<close>)
  have "bit (probe (Suc k)) k" using k by (simp add: probe_def bit_exp_iff)
  then show "probe (Suc k) \<noteq> 0" by auto
qed (simp add: probe_def)

primrec ones_end :: "u32 \<Rightarrow> nat \<Rightarrow> nat" where
  "ones_end nm 0 = 0"
| "ones_end nm (Suc k) = (if bit nm k then ones_end nm k else Suc k)"

lemma first_zero_probe: "k \<le> 32 \<Longrightarrow> first_zero nm (probe k) = probe (ones_end nm k)"
proof (induction k)
  case (Suc k)
  then have "first_zero nm (probe (Suc k)) = (if bit nm k then first_zero nm (probe k) else probe (Suc k))"
    by (subst first_zero.simps) (simp add: probe_step probe_bit del: One_nat_def)
  with Suc show ?case by simp
next
  case 0
  show ?case by (subst first_zero.simps) (simp add: probe_step(3))
qed

lemma no_ones_probe: "k \<le> 32 \<Longrightarrow> no_ones nm (probe k) \<longleftrightarrow> (\<forall>i<k. \<not> bit nm i)"
proof (induction k)
  case (Suc k)
  then have "no_ones nm (probe (Suc k)) \<longleftrightarrow> \<not> bit nm k \<and> no_ones nm (probe k)" by (subst no_ones.simps) (simp add: probe_step probe_bit del: One_nat_def)
  with Suc show ?case by (auto simp: less_Suc_eq)
next
  case 0
  show ?case by (subst no_ones.simps) (simp add: probe_step(3))
qed

lemma ones_end_spec: "ones_end nm k \<le> k" "ones_end nm k \<le> i \<Longrightarrow> i < k \<Longrightarrow> bit nm i" "0 < ones_end nm k \<Longrightarrow> \<not> bit nm (ones_end nm k - 1)"
  by (induction k) (auto simp: less_Suc_eq split: if_splits)

text \<open>
  C1.  \<^verbatim>\<open>ip4_addr_netmask_valid\<close> accepts a netmask exactly when, in host order, it is a run of ones
  followed by a run of zeros, either of which may be empty.
\<close>

theorem netmask_valid_iff:
  "ip4_addr_netmask_valid nm \<longleftrightarrow> (\<exists>n\<le>32. lwip_htonl nm = NOT (mask n))"
proof -
  let ?h = "lwip_htonl nm"
  let ?e = "ones_end ?h 32"
  note e = ones_end_spec [where nm = ?h and k = 32]
  have p: "(0x80000000 :: u32) = probe 32" by (simp add: probe_def)
  have v: "ip4_addr_netmask_valid nm \<longleftrightarrow> (\<forall>i<?e. \<not> bit ?h i)"
    unfolding ip4_addr_netmask_valid_def Let_def p by (simp add: first_zero_probe no_ones_probe e(1))
  show ?thesis
  proof
    assume "ip4_addr_netmask_valid nm"
    then have "?h = NOT (mask ?e)" using v e(2) by (intro bit_word_eqI) (auto simp: bit_not_iff bit_mask_iff)
    then show "\<exists>n\<le>32. ?h = NOT (mask n)" using e(1) by blast
  next
    assume "\<exists>n\<le>32. ?h = NOT (mask n)"
    then obtain n where n: "n \<le> 32" "?h = NOT (mask n)" by blast
    then have b: "bit ?h i \<longleftrightarrow> n \<le> i" if "i < 32" for i using that by (auto simp: bit_not_iff bit_mask_iff)
    have "?e \<le> n"
    proof (rule ccontr)
      assume "\<not> ?e \<le> n"
      then have "?e - 1 < 32" "n \<le> ?e - 1" "0 < ?e" using e(1) by auto
      then show False using e(3) b [of "?e - 1"] by simp
    qed
    then show "ip4_addr_netmask_valid nm" unfolding v using b n(1) by auto
  qed
qed

text \<open>
  C1.  \<^verbatim>\<open>ipaddr_aton\<close> checks the range of the last part only.  The text \<^verbatim>\<open>256.1.1.1\<close> is accepted and
  read as the address \<^verbatim>\<open>0.1.1.1\<close>.
\<close>

theorem aton_accepts_256:
  "ipaddr_aton (put_bytes cp [0x32, 0x35, 0x36, 0x2e, 0x31, 0x2e, 0x31, 0x2e, 0x31, 0] m) cp = Some (Some 0x01010100)"
proof -
  define m' where "m' = put_bytes cp [0x32, 0x35, 0x36, 0x2e, 0x31, 0x2e, 0x31, 0x2e, 0x31, 0] m"
  have a: "at m' cp [0x32, 0x35, 0x36, 0x2e, 0x31, 0x2e, 0x31, 0x2e, 0x31, 0]" unfolding m'_def by (rule at_put_bytes) simp
  have "decimals 1 = [1]" by (simp add: decimals_def)
  with a have "at m' (cp + 4) (map (\<lambda>d. 0x30 + d) (decimals 1) @ 0x2e # map (\<lambda>d. 0x30 + d) (decimals 1) @ 0x2e # map (\<lambda>d. 0x30 + d) (decimals 1) @ [0])"
    by (simp add: add.assoc)
  note b = aton_parts_dot [OF this, of "[256]"]
  note c = aton_parts_dot [OF b(2), of "[256, 1]"]
  from aton_parts_end [OF c(2), of "[256, 1, 1]"] obtain e where
    e: "aton_parts m' (cp + 4) [256] = Some (Some (e, [256, 1, 1], 1))" "m' e = 0" using b(1) c(1) by auto
  have "aton_digits m' 10 cp 0 = Some (cp + 3, 256)"
    using aton_digits_at [of m' cp "[2, 5, 6]" 10 0] aton_digits_stop [where m = m' and cp = "cp + 3" and base = 10 and val = 256] a
    by (simp add: lwip_isdigit_def in_range_def add.assoc)
  then have "aton_parts m' cp [] = Some (Some (e, [256, 1, 1], 1))"
    using a e(1) by (subst aton_parts.simps) (simp add: aton_number_def lwip_isdigit_def in_range_def add.assoc)
  then show ?thesis using e(2) unfolding m'_def [symmetric] by (simp add: ipaddr_aton_def aton_combine_def lwip_htonl_def)
qed

text \<open>The broadcast address of an interface is its network with all host bits set.\<close>

lemma subnet_broadcast: "a AND k = i AND k \<and> a AND NOT k = NOT k \<longleftrightarrow> a = (i AND k) OR NOT k" for a i k :: u32
proof
  assume a: "a AND k = i AND k \<and> a AND NOT k = NOT k"
  have "a = (a AND k) OR (a AND NOT k)" by (rule bit_word_eqI) (auto simp: bit_simps)
  with a show "a = (i AND k) OR NOT k" by simp
next
  assume "a = (i AND k) OR NOT k"
  then show "a AND k = i AND k \<and> a AND NOT k = NOT k" by (auto intro!: bit_word_eqI simp: bit_simps)
qed

lemma isbroadcast_iff:
  "ip4_addr_isbroadcast addr n \<longleftrightarrow>
   addr = 0 \<or> addr = 0xffffffff \<or>
   netif_flags n AND NETIF_FLAG_BROADCAST \<noteq> 0 \<and> addr \<noteq> ip_addr n \<and> addr = (ip_addr n AND netmask n) OR NOT (netmask n)"
proof -
  have w: "(0xffffffff :: u32) = - 1" by simp
  have n: "NOT addr = 0 \<longleftrightarrow> addr = 0xffffffff" unfolding w by (metis bit.double_compl bit.compl_zero)
  have "0xffffffff AND NOT (netmask n) = NOT (netmask n)" unfolding w by simp
  then show ?thesis unfolding ip4_addr_isbroadcast_def IPADDR_ANY_def IPADDR_BROADCAST_def n
    using subnet_broadcast [of addr "netmask n" "ip_addr n"] by auto
qed

end
