(* ===== verification/Spec2Isabelle.thy ===== *)
theory Spec2Isabelle
  imports Spinlock HandleTypes UserHeap LwipHeap LwipAddr
begin

text \<open>
  Verification of the kernel of the Castor operating system (\<^verbatim>\<open>src/sys\<close>).

  \<^bold>\<open>The program.\<close>  Castor is a 64-bit kernel for SMP machines.  Physical pages come from
  \<^verbatim>\<open>palloc.c\<close>; page tables (\<^verbatim>\<open>amd64/pmap.c\<close>) map them into address spaces; growing regions
  (\<^verbatim>\<open>amd64/xmem.c\<close>) and slabs of equal objects (\<^verbatim>\<open>slab.c\<close>) are built on both.  Disks are read
  through a buffer cache (\<^verbatim>\<open>bufcache.c\<close>), on which the file system O2FS (\<^verbatim>\<open>fs/o2fs\<close>) and the
  virtual file system (\<^verbatim>\<open>vfs.c\<close>) stand.  Threads and processes (\<^verbatim>\<open>thread.c\<close>, \<^verbatim>\<open>process.c\<close>) are
  run by a round robin scheduler (\<^verbatim>\<open>sched.c\<close>) and block on wait channels, semaphores and timers
  (\<^verbatim>\<open>waitchannel.c\<close>, \<^verbatim>\<open>semaphore.c\<close>, \<^verbatim>\<open>ktimer.c\<close>).  System calls (\<^verbatim>\<open>syscall.c\<close>) reach files and
  the console through the handle table of the process (\<^verbatim>\<open>handle.c\<close>, \<^verbatim>\<open>vfsuio.c\<close>) and copy user
  memory with \<^verbatim>\<open>copy.c\<close>.

  \<^bold>\<open>The model.\<close>  Every C function is a HOL function on an explicit state.  The state is one
  record that each component extends by its own variables: \<open>kmem\<close> (pages), \<open>vmem\<close> (page
  tables), \<open>xmem\<close>, \<open>kslabs\<close>, \<open>kclock\<close>, \<open>kbufs\<close> (memory bytes, cache, disks), \<open>kuser\<close>, \<open>kvfs\<close>,
  \<open>khandles\<close>, \<open>ksync\<close>, \<open>kthreads\<close>, \<open>kcpus\<close>, \<open>kern\<close>; operations are polymorphic in the
  extensions, so a component cannot touch the variables of those above it.  Conventions:
  \<^item> a failed \<^verbatim>\<open>ASSERT\<close>, a \<^verbatim>\<open>Panic\<close>, undefined behaviour of C (a null dereference, an index out of
    range, a division by zero, signed overflow) and a loop that does not end are the result
    \<open>None\<close>; error codes are integers, as in the code;
  \<^item> \<^verbatim>\<open>uint64_t\<close> and pointers are 64-bit words with wrap-around, an \<^verbatim>\<open>int\<close> product is checked for
    overflow (\<open>cint_mul\<close>), \<^verbatim>\<open>NULL\<close> is 0;
  \<^item> a section under a spin lock is one atomic step; what happens between two sections is a step
    of its own, so other CPUs can interleave there.  The lock itself is modelled instruction by
    instruction in \<open>Spinlock\<close>;
  \<^item> \<^verbatim>\<open>LIST\<close> and \<^verbatim>\<open>TAILQ\<close> queues are lists, with an \<^verbatim>\<open>ASSERT\<close> that a removed element is linked;
  \<^item> output of \<^verbatim>\<open>kprintf\<close> and the log is left out, the build has \<^verbatim>\<open>NDEBUG\<close>;
  \<^item> the contents of memory are bytes in \<open>bmem\<close>, page tables and free pages words in \<open>mem\<close>; local
    variables whose address is taken are at an address that is an argument (\<open>stk\<close>, \<open>kbuf\<close>).
    User addresses and the kernel's direct map of the same page are different bytes here, except
    where the code translates one into the other (\<open>user_page\<close> in the loader).

  \<^bold>\<open>Theories.\<close>
  \<^item> \<open>Prelude\<close>: assertions, loops, C arithmetic, byte memory; the contracts \<open>refcounted\<close> (reference
    counts), \<open>step_system\<close> (an invariant of runs) and \<open>simulation\<close> (runs of operations refine runs
    on an abstract value).
  \<^item> \<open>PageAlloc\<close>: \<^verbatim>\<open>PAlloc_*\<close>.  No run of allocations, retains and releases fails an assertion or
    breaks the free list; retains and releases balance.
  \<^item> \<open>PMap\<close>: \<^verbatim>\<open>PMap_*\<close>.  Four-level tables are well formed, mapping a range makes exactly its
    pages translate, a new address space shares the kernel half; the overflow in
    \<^verbatim>\<open>PMap_SystemLMap\<close> and the leak in \<^verbatim>\<open>PMap_DestroyAS\<close>.
  \<^item> \<open>XMem\<close>: \<^verbatim>\<open>XMem_*\<close> and \<^verbatim>\<open>PAlloc_AddRegion\<close>; \<open>Slab\<close>: \<^verbatim>\<open>Slab_*\<close> with the contract
    \<open>object_pool\<close>: objects in use never overlap.
  \<^item> \<open>Spinlock\<close>: mutual exclusion under every interleaving of the instructions of
    \<^verbatim>\<open>Spinlock_Lock\<close> and \<^verbatim>\<open>Spinlock_Unlock\<close>, and how CPU 0 enters a held recursive lock.
  \<^item> \<open>Clock\<close> (\<^verbatim>\<open>ktime.c\<close>), \<open>CString\<close> (\<^verbatim>\<open>libc.c\<close>), \<open>Printf\<close> (\<^verbatim>\<open>printf.c\<close>): the calendar and
    the printed digits are inverse to their readers, string functions agree with list functions.
  \<^item> \<open>BufCache\<close>: \<^verbatim>\<open>bufcache.c\<close>, \<^verbatim>\<open>disk.c\<close>, \<^verbatim>\<open>sga.c\<close>.  A referenced buffer keeps its block, its bytes
    are those of the disk.  \<open>Copy\<close>: \<^verbatim>\<open>copy.c\<close>, user addresses only.
  \<^item> \<open>O2FS\<close>: \<^verbatim>\<open>o2fs.c\<close>.  Reads return the bytes of the file, block allocation takes the first free
    block; \<open>Vfs\<close>: \<^verbatim>\<open>vfs.c\<close>.
  \<^item> \<open>Kernel\<close>: the data of threads, processes, handles, timers and devices; \<open>Frames\<close>: what the
    memory components leave alone of the larger state.
  \<^item> \<open>Sched\<close>: \<^verbatim>\<open>sched.c\<close>, \<^verbatim>\<open>amd64/thread.c\<close>, \<^verbatim>\<open>switch.S\<close>, \<^verbatim>\<open>mutex.c\<close>, \<^verbatim>\<open>cv.c\<close> and part of
    \<^verbatim>\<open>waitchannel.c\<close>.  The invariant \<open>sched_inv\<close> of queues, thread states and current threads
    holds under every interleaving of the CPUs; round robin; what a switch loads and saves.
  \<^item> \<open>Console\<close>: \<^verbatim>\<open>dev/console.c\<close>.  The key buffer is a queue until it is full; how writes round up.
  \<^item> \<open>ProcThread\<close>: \<^verbatim>\<open>handle.c\<close>, \<^verbatim>\<open>vfsuio.c\<close>, \<^verbatim>\<open>semaphore.c\<close>, \<^verbatim>\<open>process.c\<close>, \<^verbatim>\<open>thread.c\<close>.
    \<open>HandleTable\<close>: the handle table refines a map.  \<open>Waiting\<close>: wait channels wake in order,
    semaphores refine a counter with a queue and lose no wake-up; the race in
    \<^verbatim>\<open>WaitChannel_Sleep\<close>.
  \<^item> \<open>KTimer\<close>: \<^verbatim>\<open>ktimer.c\<close>, with the contract \<open>timer_client\<close> for callbacks: the wheel fires exactly
    the events that are due.  \<open>SysCtl\<close>: \<^verbatim>\<open>sysctl.c\<close>.  \<open>Loader\<close>: \<^verbatim>\<open>loader.c\<close>.
  \<^item> \<open>Syscall\<close>: \<^verbatim>\<open>syscall.c\<close>, \<^verbatim>\<open>nic.c\<close>.  \<open>Sleeping\<close>: a sleeping thread is woken at its time and
    not earlier.  \<open>FileCalls\<close>: \<^verbatim>\<open>Syscall_Read\<close> down to the blocks of the disk, and the dangling
    handle after \<^verbatim>\<open>Syscall_Close\<close>.

  \<^bold>\<open>Parameters.\<close>  Disks are functions in the record \<open>Disk\<close> with the promise \<open>disk_ok\<close>: a block is
  transferred completely and the status is 0.  Which user pages are accessible is \<open>uaccess\<close>.
  The callback of a timer event is an argument of \<open>KTimer_Process\<close>, interpreted by the kernel's
  own \<^verbatim>\<open>ThreadWakeupHelper\<close>.  The functions of a network interface are in the record \<open>NIC\<close>.

  \<^bold>\<open>Loops.\<close>  Counting loops are \<open>for_each\<close> over the range of the counter.  Loops that end by a
  condition are \<open>partial_function\<close>s in the option monad, so that not returning is \<open>None\<close>, and
  the theorems about them state that there is a result.  \<open>copystr\<close> and the argument loops of
  \<^verbatim>\<open>Syscall_Spawn\<close> count down the bound that the code itself has.  A function that gives up the
  CPU is modelled up to the switch; what follows the switch is a definition of its own
  (\<open>Semaphore_Acquire_round\<close>, \<open>ThreadSleep_return\<close>, \<open>ThreadWait_round\<close>).

  \<^bold>\<open>Not modelled.\<close>  Boot code, traps, interrupt controllers and device drivers (assembly and
  device registers; the functions they call are modelled), the debugger and the disassembler
  (they only print), \<^verbatim>\<open>malloc.c\<close> and \<^verbatim>\<open>string.c\<close> of the kernel (empty bodies), the C library,
  lwIP and the user programs (user level, above the system calls).
\<close>

end
